(* ===== verification/Prelude.thy ===== *)
theory Prelude
  imports Main "HOL-Library.Word" "HOL-Library.List_Lexorder" "HOL-Library.Char_ord"
    "HOL-Library.Monad_Syntax" "HOL-Library.Sublist" "HOL-Library.Multiset"
begin

text \<open>
  The data every component shares: a Node \<open>Buffer\<close> is a list of bytes, a JavaScript string a
  list of UTF-16 code units, a read that Node refuses with a RangeError is \<open>None\<close>, and an
  exception the callers tell apart is the left of a sum. Big-endian integers, ASCII text and the
  laws of encoders are stated once here; \<open>codec\<close>, \<open>tight_codec\<close> and \<open>stream_codec\<close> are the
  interfaces by which one component relies on another's encoding.
\<close>

section \<open>Types\<close>

type_synonym byte = "8 word"
type_synonym bytes = "8 word list"
type_synonym jsstr = "16 word list"

named_theorems byte_simps "lengths and values of byte encodings"

section \<open>Failure\<close>

text \<open>Sequencing of results that carry an error: an exception propagates.\<close>

definition rbind :: "'e + 'a \<Rightarrow> ('a \<Rightarrow> 'e + 'b) \<Rightarrow> 'e + 'b" where
  "rbind m f = (case m of Inl e \<Rightarrow> Inl e | Inr x \<Rightarrow> f x)"

lemma rbind_simps [simp]: "rbind (Inl e) f = Inl e" "rbind (Inr x) f = f x"
  by (simp_all add: rbind_def)

lemma rbind_cong [fundef_cong]:
  "m = m' \<Longrightarrow> (\<And>x. m' = Inr x \<Longrightarrow> f x = f' x) \<Longrightarrow> rbind m f = rbind m' f'"
  by (auto simp: rbind_def split: sum.split)

lemma rbind_eq_Inr [simp]: "rbind m f = Inr y \<longleftrightarrow> (\<exists>x. m = Inr x \<and> f x = Inr y)"
  by (auto simp: rbind_def split: sum.split)

text \<open>Running a fallible step over a list, stopping at the first failure.\<close>

fun omap :: "('a \<Rightarrow> 'b option) \<Rightarrow> 'a list \<Rightarrow> 'b list option" where
  "omap f [] = Some []"
| "omap f (x # xs) = (case f x of None \<Rightarrow> None | Some y \<Rightarrow> map_option (Cons y) (omap f xs))"

lemma omap_cong [fundef_cong]:
  "xs = ys \<Longrightarrow> (\<And>x. x \<in> set ys \<Longrightarrow> f x = g x) \<Longrightarrow> omap f xs = omap g ys"
  by (induction ys arbitrary: xs) (auto split: option.split)

lemma omap_Some_iff: "omap f xs = Some ys \<longleftrightarrow> list_all2 (\<lambda>x y. f x = Some y) xs ys"
  by (induction xs arbitrary: ys) (auto simp: list_all2_Cons1 split: option.splits)

lemma omap_length: "omap f xs = Some ys \<Longrightarrow> length ys = length xs"
  by (auto simp: omap_Some_iff dest: list_all2_lengthD)

lemma omap_total: "(\<And>x. x \<in> set xs \<Longrightarrow> f x = Some (g x)) \<Longrightarrow> omap f xs = Some (map g xs)"
  by (induction xs) auto

text \<open>The same for steps that name their error.\<close>

fun rmap :: "('a \<Rightarrow> 'e + 'b) \<Rightarrow> 'a list \<Rightarrow> 'e + 'b list" where
  "rmap f [] = Inr []"
| "rmap f (x # xs) = rbind (f x) (\<lambda>y. rbind (rmap f xs) (\<lambda>ys. Inr (y # ys)))"

lemma rmap_Inr_iff: "rmap f xs = Inr ys \<longleftrightarrow> list_all2 (\<lambda>x y. f x = Inr y) xs ys"
  by (induction xs arbitrary: ys) (auto simp: list_all2_Cons1)

lemma rmap_total: "(\<And>x. x \<in> set xs \<Longrightarrow> f x = Inr (g x)) \<Longrightarrow> rmap f xs = Inr (map g xs)"
  by (induction xs) auto

lemma omap_map_Some: "omap (\<lambda>x. Some (g x)) xs = Some (map g xs)"
  by (rule omap_total) simp

section \<open>Slices and indexed reads\<close>

text \<open>\<open>Buffer.subarray(s, e)\<close> with non-negative arguments: clamped, empty when \<open>e \<le> s\<close>.\<close>

definition slice :: "'a list \<Rightarrow> nat \<Rightarrow> nat \<Rightarrow> 'a list" where
  "slice xs s e = take (e - s) (drop s xs)"

text \<open>\<open>xs[i]\<close>: \<open>undefined\<close> past the end.\<close>

definition at :: "'a list \<Rightarrow> nat \<Rightarrow> 'a option" where
  "at xs i = (if i < length xs then Some (xs ! i) else None)"

lemma length_slice [byte_simps]: "length (slice xs s e) = min (e - s) (length xs - s)"
  by (simp add: slice_def)

lemma slice_zero [simp]: "slice xs 0 e = take e xs"
  by (simp add: slice_def)

lemma slice_full [simp]: "slice xs s (length xs) = drop s xs"
  by (simp add: slice_def)

lemma slice_append_left: "e \<le> length xs \<Longrightarrow> slice (xs @ ys) s e = slice xs s e"
  by (auto simp: slice_def)

lemma slice_append_right:
  "length xs \<le> s \<Longrightarrow> slice (xs @ ys) s e = slice ys (s - length xs) (e - length xs)"
  by (simp add: slice_def)

lemma slice_split: "s \<le> m \<Longrightarrow> m \<le> e \<Longrightarrow> slice xs s m @ slice xs m e = slice xs s e"
proof -
  assume le: "s \<le> m" "m \<le> e"
  have "e - s = (m - s) + (e - m)" using le by simp
  then have "take (e - s) (drop s xs) = take (m - s) (drop s xs) @ take (e - m) (drop (m - s) (drop s xs))"
    by (simp only: take_add)
  then show ?thesis using le by (simp add: slice_def)
qed

lemma take_slice_drop: "s \<le> e \<Longrightarrow> take s xs @ slice xs s e @ drop e xs = xs"
proof -
  assume "s \<le> e"
  then have "take s xs @ slice xs s e = take e xs"
    using slice_split [of 0 s e xs] by simp
  then show ?thesis by (metis append.assoc append_take_drop_id)
qed

lemma at_Some [simp]: "at xs i = Some x \<longleftrightarrow> i < length xs \<and> xs ! i = x"
  by (auto simp: at_def)

lemma at_None [simp]: "at xs i = None \<longleftrightarrow> length xs \<le> i"
  by (auto simp: at_def)

section \<open>Big-endian integers\<close>

fun be_bytes :: "nat \<Rightarrow> nat \<Rightarrow> bytes" where
  "be_bytes 0 v = []"
| "be_bytes (Suc n) v = be_bytes n (v div 256) @ [of_nat (v mod 256)]"

definition be_val :: "bytes \<Rightarrow> nat" where
  "be_val bs = foldl (\<lambda>n b. n * 256 + unat b) 0 bs"

lemma length_be_bytes [simp, byte_simps]: "length (be_bytes n v) = n"
  by (induction n arbitrary: v) auto

lemma be_val_Nil [simp]: "be_val [] = 0"
  by (simp add: be_val_def)

lemma be_val_snoc [simp]: "be_val (bs @ [b]) = be_val bs * 256 + unat b"
  by (simp add: be_val_def)

lemma byte_of_nat_unat [simp]: "unat (of_nat (v mod 256) :: byte) = v mod 256"
  by (simp add: unat_of_nat)

lemma unat_byte_less [simp]: "unat (b :: byte) < 256"
  using unsigned_less [of b] by simp

lemma be_val_be_bytes: "be_val (be_bytes n v) = v mod 256 ^ n"
proof (induction n arbitrary: v)
  case 0
  then show ?case by simp
next
  case (Suc n)
  have "v mod 256 ^ Suc n = v mod (256 * 256 ^ n)" by simp
  also have "\<dots> = 256 * (v div 256 mod 256 ^ n) + v mod 256"
    by (rule mod_mult2_eq)
  finally show ?case using Suc by simp
qed

lemma be_val_be_bytes_id [simp]: "v < 256 ^ n \<Longrightarrow> be_val (be_bytes n v) = v"
  by (simp add: be_val_be_bytes)

lemma digit_bound: "b < 256 \<Longrightarrow> (v :: nat) < p \<Longrightarrow> v * 256 + b < 256 * p"
  by linarith

lemma be_val_less: "be_val bs < 256 ^ length bs"
  by (induction bs rule: rev_induct) (simp_all add: digit_bound)

lemma be_bytes_be_val [simp]: "be_bytes (length bs) (be_val bs) = bs"
proof (induction bs rule: rev_induct)
  case Nil
  then show ?case by simp
next
  case (snoc b bs)
  have "(be_val bs * 256 + unat b) div 256 = be_val bs" by simp
  moreover have "(be_val bs * 256 + unat b) mod 256 = unat b" by simp
  ultimately show ?case using snoc by simp
qed

lemma be_bytes_inj: "be_bytes n v = be_bytes n w \<Longrightarrow> v < 256 ^ n \<Longrightarrow> w < 256 ^ n \<Longrightarrow> v = w"
  by (metis be_val_be_bytes_id)

text \<open>\<open>readUIntBE\<close> of \<open>n\<close> bytes: \<open>None\<close> is the RangeError of a read past the end.\<close>

definition read_be :: "nat \<Rightarrow> bytes \<Rightarrow> nat \<Rightarrow> nat option" where
  "read_be n bs p = (if p + n \<le> length bs then Some (be_val (slice bs p (p + n))) else None)"

text \<open>\<open>readIntBE\<close>: the same bytes read as two's complement.\<close>

definition signed_of :: "nat \<Rightarrow> nat \<Rightarrow> int" where
  "signed_of n v = (if 2 * v < 256 ^ n then int v else int v - 256 ^ n)"

definition read_sbe :: "nat \<Rightarrow> bytes \<Rightarrow> nat \<Rightarrow> int option" where
  "read_sbe n bs p = map_option (signed_of n) (read_be n bs p)"

text \<open>\<open>writeUIntBE\<close>: refused (RangeError) when the value does not fit.\<close>

definition put_be :: "nat \<Rightarrow> int \<Rightarrow> bytes option" where
  "put_be n v = (if 0 \<le> v \<and> v < 256 ^ n then Some (be_bytes n (nat v)) else None)"

lemma read_be_less: "read_be n bs p = Some v \<Longrightarrow> v < 256 ^ n"
proof -
  assume "read_be n bs p = Some v"
  then have "v = be_val (slice bs p (p + n))" "length (slice bs p (p + n)) = n"
    by (auto simp: read_be_def length_slice split: if_splits)
  then show ?thesis using be_val_less by metis
qed

lemma read_be_append_left:
  "p + n \<le> length xs \<Longrightarrow> read_be n (xs @ ys) p = read_be n xs p"
  by (simp add: read_be_def slice_append_left)

lemma read_be_append_right:
  "length xs \<le> p \<Longrightarrow> read_be n (xs @ ys) p = read_be n ys (p - length xs)"
  by (auto simp: read_be_def slice_append_right)

lemma read_be_be_bytes:
  "v < 256 ^ n \<Longrightarrow> read_be n (be_bytes n v @ r) 0 = Some v"
  by (simp add: read_be_def)

lemma put_be_Some: "put_be n v = Some bs \<longleftrightarrow> 0 \<le> v \<and> v < 256 ^ n \<and> bs = be_bytes n (nat v)"
  by (auto simp: put_be_def)

lemma put_be_length: "put_be n v = Some bs \<Longrightarrow> length bs = n"
  by (simp add: put_be_Some)

lemma nat_less_pow: "v < 256 ^ n \<Longrightarrow> nat v < 256 ^ n" if "0 \<le> v" for v :: int
  using that by (simp add: nat_less_iff)

lemma put_be_inj: "put_be n v = Some bs \<Longrightarrow> put_be n w = Some bs \<Longrightarrow> v = w"
proof -
  assume "put_be n v = Some bs" "put_be n w = Some bs"
  then have "nat v = nat w" "0 \<le> v" "0 \<le> w"
    using be_bytes_inj [of n "nat v" "nat w"] by (auto simp: put_be_Some nat_less_pow)
  then show ?thesis by simp
qed

lemma put_be_nat: "put_be n v = Some bs \<Longrightarrow> \<exists>k. v = int k \<and> k < 256 ^ n \<and> bs = be_bytes n k"
  by (rule exI [of _ "nat v"]) (simp add: put_be_Some nat_less_pow)

lemma put_be_int [simp]: "k < 256 ^ n \<Longrightarrow> put_be n (int k) = Some (be_bytes n k)"
proof -
  assume "k < 256 ^ n"
  then have "int k < 256 ^ n" by (metis of_nat_less_iff of_nat_numeral of_nat_power)
  then show ?thesis by (simp add: put_be_def)
qed

declare be_bytes.simps(2) [simp del]

section \<open>Text\<close>

text \<open>
  \<open>Buffer.from(s, 'ascii')\<close> of a literal, \<open>toString('latin1')\<close>, and \<open>toString('ascii')\<close>,
  which Node documents as latin1 with the highest bit of each byte unset.
\<close>

definition ascii :: "string \<Rightarrow> bytes" where
  "ascii s = map of_char s"

definition latin1 :: "bytes \<Rightarrow> string" where
  "latin1 bs = map (\<lambda>b. char_of (unat b)) bs"

unbundle bit_operations_syntax

definition ascii_text :: "bytes \<Rightarrow> string" where
  "ascii_text bs = latin1 (map (\<lambda>b. b AND 0x7f) bs)"

text \<open>A literal of the source as a JavaScript string.\<close>

definition js :: "string \<Rightarrow> jsstr" where
  "js s = map of_char s"

lemma length_ascii [simp, byte_simps]: "length (ascii s) = length s"
  by (simp add: ascii_def)

lemma length_latin1 [simp, byte_simps]: "length (latin1 bs) = length bs"
  by (simp add: latin1_def)

lemma length_js [simp]: "length (js s) = length s"
  by (simp add: js_def)

lemma js_Nil_iff [simp]: "js s = [] \<longleftrightarrow> s = []" "[] = js s \<longleftrightarrow> s = []"
  by (auto simp: js_def)

lemma unat_of_char_byte [simp]: "unat (of_char c :: byte) = of_char c"
proof -
  have a: "unat (of_nat (of_char c) :: byte) = of_char c"
    by (simp add: unat_of_nat)
  have b: "of_nat (of_char c) = (of_char c :: byte)"
    by (rule of_nat_of_char)
  show ?thesis using a unfolding b .
qed

lemma unat_of_char_unit [simp]: "unat (of_char c :: 16 word) = of_char c"
proof -
  have "(of_char c :: nat) < 65536"
    using nat_of_char_less_256 [of c] by linarith
  then have a: "unat (of_nat (of_char c) :: 16 word) = of_char c"
    by (simp add: unat_of_nat)
  have b: "of_nat (of_char c) = (of_char c :: 16 word)"
    by (rule of_nat_of_char)
  show ?thesis using a unfolding b .
qed

lemma of_char_byte_inj [simp]: "(of_char c :: byte) = of_char d \<longleftrightarrow> c = d"
proof
  assume "(of_char c :: byte) = of_char d"
  then have "unat (of_char c :: byte) = unat (of_char d :: byte)" by (rule arg_cong)
  then show "c = d" unfolding unat_of_char_byte by simp
qed simp

lemma of_char_unit_inj [simp]: "(of_char c :: 16 word) = of_char d \<longleftrightarrow> c = d"
proof
  assume "(of_char c :: 16 word) = of_char d"
  then have "unat (of_char c :: 16 word) = unat (of_char d :: 16 word)" by (rule arg_cong)
  then show "c = d" unfolding unat_of_char_unit by simp
qed simp

lemma latin1_ascii [simp]: "latin1 (ascii s) = s"
  by (simp add: latin1_def ascii_def o_def)

lemma of_char_char_of_unat [simp]: "(of_char (char_of (unat b)) :: byte) = b"
proof -
  have "(of_char (char_of (unat b)) :: byte) = of_nat (of_char (char_of (unat b)))"
    by (rule of_nat_of_char [symmetric])
  also have "\<dots> = of_nat (unat b)" by (simp only: of_char_of) simp
  finally show ?thesis by simp
qed

lemma ascii_latin1 [simp]: "ascii (latin1 bs) = bs"
  by (simp add: ascii_def latin1_def o_def)

lemma ascii_inj [simp]: "ascii s = ascii t \<longleftrightarrow> s = t"
  by (metis latin1_ascii)

lemma latin1_inj [simp]: "latin1 a = latin1 b \<longleftrightarrow> a = b"
  by (metis ascii_latin1)

lemma latin1_append [simp]: "latin1 (a @ b) = latin1 a @ latin1 b"
  by (simp add: latin1_def)

lemma js_inj [simp]: "js s = js t \<longleftrightarrow> s = t"
proof -
  have "inj (of_char :: char \<Rightarrow> 16 word)" by (rule injI) simp
  then show ?thesis by (simp add: js_def inj_map_eq_map)
qed

section \<open>Laws of encodings\<close>

text \<open>
  \<open>codec\<close>: decoding an encoded value gives it back, for the values \<open>ok\<close> accepts. A client
  that compares encodings (a hash, a signature, a copy of a proof) relies on its injectivity.
\<close>

locale codec =
  fixes enc :: "'a \<Rightarrow> 'b" and dec :: "'b \<Rightarrow> 'a option" and ok :: "'a \<Rightarrow> bool"
  assumes dec_enc: "ok x \<Longrightarrow> dec (enc x) = Some x"
begin

lemma enc_inj: "ok x \<Longrightarrow> ok y \<Longrightarrow> enc x = enc y \<Longrightarrow> x = y"
  by (metis dec_enc option.inject)

lemma enc_eq_iff: "ok x \<Longrightarrow> ok y \<Longrightarrow> enc x = enc y \<longleftrightarrow> x = y"
  using enc_inj by blast

lemma enc_inj_on: "inj_on enc (Collect ok)"
  by (auto intro: inj_onI enc_inj)

end

text \<open>
  \<open>tight_codec\<close>: moreover every accepted text is the encoding of what it decodes to, so a
  value has one text.
\<close>

locale tight_codec = codec +
  assumes enc_dec: "dec y = Some x \<Longrightarrow> ok x \<and> enc x = y"
begin

lemma dec_iff: "dec y = Some x \<longleftrightarrow> ok x \<and> enc x = y"
  using enc_dec dec_enc by blast

lemma dec_inj: "dec y = Some x \<Longrightarrow> dec z = Some x \<Longrightarrow> y = z"
  using enc_dec by metis

end

text \<open>
  \<open>stream_codec\<close>: a self-delimiting encoding, read from the front of a longer input. Nothing
  can shift between an encoded field and what follows it.
\<close>

locale stream_codec =
  fixes enc :: "'a \<Rightarrow> 'c list" and dec :: "'c list \<Rightarrow> ('a \<times> 'c list) option" and ok :: "'a \<Rightarrow> bool"
  assumes dec_enc_append: "ok x \<Longrightarrow> dec (enc x @ r) = Some (x, r)"
begin

lemma no_shift: "ok x \<Longrightarrow> ok y \<Longrightarrow> enc x @ r = enc y @ s \<Longrightarrow> x = y \<and> r = s"
  by (metis dec_enc_append option.inject prod.inject)

lemma prefix_free: "ok x \<Longrightarrow> ok y \<Longrightarrow> prefix (enc x) (enc y) \<Longrightarrow> x = y"
  by (metis append.right_neutral no_shift prefixE)

lemma concat_inj:
  "\<forall>x \<in> set xs. ok x \<Longrightarrow> \<forall>y \<in> set ys. ok y \<Longrightarrow> length xs = length ys \<Longrightarrow>
   concat (map enc xs) @ r = concat (map enc ys) @ s \<Longrightarrow> xs = ys \<and> r = s"
proof (induction xs arbitrary: ys)
  case Nil
  then show ?case by simp
next
  case (Cons x xs)
  then obtain y ys' where ys: "ys = y # ys'" by (cases ys) auto
  from Cons.prems ys have "enc x @ (concat (map enc xs) @ r) = enc y @ (concat (map enc ys') @ s)"
    and "ok x" "ok y"
    by simp_all
  then have "x = y \<and> concat (map enc xs) @ r = concat (map enc ys') @ s"
    by (intro no_shift)
  then show ?case using Cons.IH [of ys'] Cons.prems ys by simp
qed

end

sublocale stream_codec \<subseteq> codec enc "\<lambda>t. case dec t of Some (x, []) \<Rightarrow> Some x | _ \<Rightarrow> None" ok
proof unfold_locales
  fix x
  assume "ok x"
  then have "dec (enc x) = Some (x, [])" using dec_enc_append [of x "[]"] by simp
  then show "(case dec (enc x) of Some (x, []) \<Rightarrow> Some x | _ \<Rightarrow> None) = Some x" by simp
qed

text \<open>Unsigned big-endian fields of a fixed width are the first such encoding.\<close>

definition take_be :: "nat \<Rightarrow> bytes \<Rightarrow> (nat \<times> bytes) option" where
  "take_be n bs = (if n \<le> length bs then Some (be_val (take n bs), drop n bs) else None)"

interpretation be_field: stream_codec "be_bytes n" "take_be n" "\<lambda>v. v < 256 ^ n" for n
  by unfold_locales (simp add: take_be_def)

end
