(* ===== verification/Encoding.thy ===== *)
theory Encoding
  imports Prelude
begin

text \<open>
  The two text encodings of the standard library the program leans on everywhere: base64url
  (\<open>Buffer.from(s, 'base64url')\<close>, \<open>toString('base64url')\<close>) and UTF-8 (\<open>Buffer.from(s, 'utf8')\<close>,
  \<open>new TextDecoder('utf-8', {fatal: true})\<close>). They are library behaviour, modelled as Node and
  the WHATWG document it, so that the components above them compute. Each is shown to be a codec.
\<close>

section \<open>base64url\<close>

definition b64_code :: "nat \<Rightarrow> nat" where
  "b64_code i =
     (if i < 26 then 65 + i else if i < 52 then 97 + (i - 26)
      else if i < 62 then 48 + (i - 52) else if i = 62 then 45 else 95)"

definition b64_char :: "nat \<Rightarrow> 16 word" where
  "b64_char i = of_nat (b64_code i)"

text \<open>
  Node's decoder reads both alphabets whatever encoding is named and skips every character
  outside them, the padding included.
\<close>

definition b64_val :: "16 word \<Rightarrow> nat option" where
  "b64_val u = (let n = unat u in
     if 65 \<le> n \<and> n \<le> 90 then Some (n - 65) else if 97 \<le> n \<and> n \<le> 122 then Some (n - 97 + 26)
     else if 48 \<le> n \<and> n \<le> 57 then Some (n - 48 + 52) else if n = 45 \<or> n = 43 then Some 62
     else if n = 95 \<or> n = 47 then Some 63 else None)"

fun b64url_encode :: "bytes \<Rightarrow> jsstr" where
  "b64url_encode [] = []"
| "b64url_encode [a] = [b64_char (unat a div 4), b64_char (unat a mod 4 * 16)]"
| "b64url_encode [a, b] =
     [b64_char (unat a div 4), b64_char (unat a mod 4 * 16 + unat b div 16), b64_char (unat b mod 16 * 4)]"
| "b64url_encode (a # b # c # r) =
     b64_char (unat a div 4) # b64_char (unat a mod 4 * 16 + unat b div 16)
     # b64_char (unat b mod 16 * 4 + unat c div 64) # b64_char (unat c mod 64) # b64url_encode r"

fun b64_bytes :: "nat list \<Rightarrow> bytes" where
  "b64_bytes (w # x # y # z # r) =
     of_nat (w * 4 + x div 16) # of_nat (x mod 16 * 16 + y div 4) # of_nat (y mod 4 * 64 + z) # b64_bytes r"
| "b64_bytes [w, x, y] = [of_nat (w * 4 + x div 16), of_nat (x mod 16 * 16 + y div 4)]"
| "b64_bytes [w, x] = [of_nat (w * 4 + x div 16)]"
| "b64_bytes _ = []"

definition b64_decode :: "jsstr \<Rightarrow> bytes" where
  "b64_decode s = b64_bytes (List.map_filter b64_val s)"

text \<open>The regular expression \<open>/^[A-Za-z0-9_-]+$/\<close>, character by character.\<close>

definition b64url_unit :: "16 word \<Rightarrow> bool" where
  "b64url_unit u = (let n = unat u in
     65 \<le> n \<and> n \<le> 90 \<or> 97 \<le> n \<and> n \<le> 122 \<or> 48 \<le> n \<and> n \<le> 57 \<or> n = 95 \<or> n = 45)"

lemma unit_of_nat [simp]: "n < 65536 \<Longrightarrow> unat (of_nat n :: 16 word) = n"
  by (simp add: unat_of_nat)

lemma b64_val_char [simp]: "i < 64 \<Longrightarrow> b64_val (b64_char i) = Some i"
proof -
  assume "i < 64"
  then have "b64_code i < 65536" by (auto simp: b64_code_def)
  then have "unat (b64_char i) = b64_code i" by (simp add: b64_char_def)
  then show ?thesis using \<open>i < 64\<close> by (auto simp: b64_val_def b64_code_def Let_def)
qed

lemma b64_char_unit: "i < 64 \<Longrightarrow> b64url_unit (b64_char i)"
proof -
  assume "i < 64"
  then have "b64_code i < 65536" by (auto simp: b64_code_def)
  then have "unat (b64_char i) = b64_code i" by (simp add: b64_char_def)
  then show ?thesis using \<open>i < 64\<close> by (auto simp: b64url_unit_def b64_code_def Let_def)
qed

lemma byte_of_nat_eq [simp]: "m = unat b \<Longrightarrow> (of_nat m :: byte) = b"
  by simp

lemma unat_byte_bounds:
  "unat (a :: byte) div 4 < 64" "unat a mod 4 * 16 < 64" "unat a div 16 < 16" "unat a div 64 < 4"
  "unat a mod 4 * 16 + unat (b :: byte) div 16 < 64" "unat b mod 16 * 4 + unat a div 64 < 64"
  using unat_byte_less [of a] unat_byte_less [of b] by arith+

lemma b64_decode_encode: "b64_decode (b64url_encode bs) = bs"
proof (induction bs rule: b64url_encode.induct)
  case (4 a b c r)
  have m: "unat a mod 4 * 16 + unat b div 16 < 64" "unat b mod 16 * 4 + unat c div 64 < 64"
    by (rule unat_byte_bounds)+
  have d: "unat b div 16 < 16" "unat c div 64 < 4" by (rule unat_byte_bounds)+
  have 1: "(unat a mod 4 * 16 + unat b div 16) div 16 = unat a mod 4"
    "(unat a mod 4 * 16 + unat b div 16) mod 16 = unat b div 16"
    using d by simp_all
  have 2: "(unat b mod 16 * 4 + unat c div 64) div 4 = unat b mod 16"
    "(unat b mod 16 * 4 + unat c div 64) mod 4 = unat c div 64"
    using d by simp_all
  show ?case using 4 m
    by (simp add: b64_decode_def map_filter_simps unat_byte_bounds 1 2 del: of_nat_add of_nat_mult)
next
  case (3 a b)
  have d: "unat b div 16 < 16" by (rule unat_byte_bounds)
  have 1: "(unat a mod 4 * 16 + unat b div 16) div 16 = unat a mod 4"
    "(unat a mod 4 * 16 + unat b div 16) mod 16 = unat b div 16"
    using d by simp_all
  show ?case
    by (simp add: b64_decode_def map_filter_simps unat_byte_bounds 1 del: of_nat_add of_nat_mult)
qed (simp_all add: b64_decode_def map_filter_simps unat_byte_bounds del: of_nat_add of_nat_mult)

interpretation base64url: codec b64url_encode "\<lambda>s. Some (b64_decode s)" "\<lambda>_. True"
  by unfold_locales (simp add: b64_decode_encode)

lemma b64url_encode_units: "\<forall>u \<in> set (b64url_encode bs). b64url_unit u"
  by (induction bs rule: b64url_encode.induct) (simp_all add: b64_char_unit unat_byte_bounds)

section \<open>UTF-16 and UTF-8\<close>

definition high_surrogate :: "16 word \<Rightarrow> bool" where
  "high_surrogate u = (0xD800 \<le> unat u \<and> unat u < 0xDC00)"

definition low_surrogate :: "16 word \<Rightarrow> bool" where
  "low_surrogate u = (0xDC00 \<le> unat u \<and> unat u < 0xE000)"

text \<open>Code points; a surrogate without its partner is read as U+FFFD, as UTF-8 output does.\<close>

fun code_points :: "jsstr \<Rightarrow> nat list" where
  "code_points [] = []"
| "code_points [u] = [if high_surrogate u \<or> low_surrogate u then 0xFFFD else unat u]"
| "code_points (u # v # r) =
     (if high_surrogate u \<and> low_surrogate v
      then (0x10000 + (unat u - 0xD800) * 0x400 + (unat v - 0xDC00)) # code_points r
      else (if high_surrogate u \<or> low_surrogate u then 0xFFFD else unat u) # code_points (v # r))"

text \<open>No surrogate stands alone.\<close>

fun well_formed :: "jsstr \<Rightarrow> bool" where
  "well_formed [] = True"
| "well_formed [u] = (\<not> high_surrogate u \<and> \<not> low_surrogate u)"
| "well_formed (u # v # r) =
     (if high_surrogate u \<and> low_surrogate v then well_formed r
      else \<not> high_surrogate u \<and> \<not> low_surrogate u \<and> well_formed (v # r))"

definition units_of :: "nat \<Rightarrow> jsstr" where
  "units_of c = (if c < 0x10000 then [of_nat c]
     else [of_nat (0xD800 + (c - 0x10000) div 0x400), of_nat (0xDC00 + (c - 0x10000) mod 0x400)])"

definition scalar :: "nat \<Rightarrow> bool" where
  "scalar c = (c < 0xD800 \<or> 0xE000 \<le> c \<and> c < 0x110000)"

definition cp_bytes :: "nat \<Rightarrow> bytes" where
  "cp_bytes c =
     (if c < 0x80 then [of_nat c]
      else if c < 0x800 then [of_nat (0xC0 + c div 64), of_nat (0x80 + c mod 64)]
      else if c < 0x10000 then
        [of_nat (0xE0 + c div 4096), of_nat (0x80 + c div 64 mod 64), of_nat (0x80 + c mod 64)]
      else [of_nat (0xF0 + c div 262144), of_nat (0x80 + c div 4096 mod 64),
            of_nat (0x80 + c div 64 mod 64), of_nat (0x80 + c mod 64)])"

definition utf8_encode :: "jsstr \<Rightarrow> bytes" where
  "utf8_encode s = concat (map cp_bytes (code_points s))"

text \<open>
  The WHATWG decoder: overlong forms, surrogates and code points above U+10FFFF are refused by
  the bounds on the second byte.
\<close>

definition cont :: "byte \<Rightarrow> bool" where
  "cont b = (0x80 \<le> unat b \<and> unat b < 0xC0)"

fun next_cp :: "bytes \<Rightarrow> (nat \<times> bytes) option" where
  "next_cp [] = None"
| "next_cp (b # r) = (let n = unat b in
     if n < 0x80 then Some (n, r)
     else if 0xC2 \<le> n \<and> n < 0xE0 then
       (case r of c # r1 \<Rightarrow> if cont c then Some ((n - 0xC0) * 64 + (unat c - 0x80), r1) else None
        | _ \<Rightarrow> None)
     else if 0xE0 \<le> n \<and> n < 0xF0 then
       (case r of c # d # r1 \<Rightarrow>
          if cont c \<and> cont d \<and> (n = 0xE0 \<longrightarrow> 0xA0 \<le> unat c) \<and> (n = 0xED \<longrightarrow> unat c < 0xA0)
          then Some ((n - 0xE0) * 4096 + (unat c - 0x80) * 64 + (unat d - 0x80), r1) else None
        | _ \<Rightarrow> None)
     else if 0xF0 \<le> n \<and> n < 0xF5 then
       (case r of c # d # e # r1 \<Rightarrow>
          if cont c \<and> cont d \<and> cont e \<and> (n = 0xF0 \<longrightarrow> 0x90 \<le> unat c) \<and> (n = 0xF4 \<longrightarrow> unat c < 0x90)
          then Some ((n - 0xF0) * 262144 + (unat c - 0x80) * 4096 + (unat d - 0x80) * 64 + (unat e - 0x80), r1)
          else None
        | _ \<Rightarrow> None)
     else None)"

lemma next_cp_shorter: "next_cp bs = Some (c, r) \<Longrightarrow> length r < length bs"
  by (cases bs) (auto simp: Let_def split: if_splits list.splits)

function utf8_decode :: "bytes \<Rightarrow> jsstr option" where
  "utf8_decode bs =
     (if bs = [] then Some []
      else case next_cp bs of None \<Rightarrow> None
        | Some (c, r) \<Rightarrow> map_option (append (units_of c)) (utf8_decode r))"
  by pat_completeness auto
termination
  by (relation "measure length") (auto dest: next_cp_shorter)

declare utf8_decode.simps [simp del]

text \<open>\<open>TextDecoder.decode\<close> drops a leading byte-order mark.\<close>

definition text_decode :: "bytes \<Rightarrow> jsstr option" where
  "text_decode bs = utf8_decode (if take 3 bs = [0xEF, 0xBB, 0xBF] then drop 3 bs else bs)"

subsection \<open>One code point\<close>

lemma byte_unat [simp]: "n < 256 \<Longrightarrow> unat (of_nat n :: byte) = n"
  by (simp add: unat_of_nat)

lemma div4096: "(c::nat) div 4096 = c div 64 div 64"
  by (simp add: div_mult2_eq [symmetric])
lemma split3: "(c::nat) = c div 4096 * 4096 + c div 64 mod 64 * 64 + c mod 64"
proof -
  have "c = c div 64 * 64 + c mod 64" by simp
  moreover have "c div 64 = c div 64 div 64 * 64 + c div 64 mod 64" by simp
  ultimately show ?thesis unfolding div4096 by linarith
qed
lemma split4: "(c::nat) = c div 262144 * 262144 + c div 4096 mod 64 * 4096 + c div 64 mod 64 * 64 + c mod 64"
proof -
  have "c div 262144 = c div 4096 div 64" by (simp add: div_mult2_eq [symmetric])
  moreover have "c div 4096 = c div 4096 div 64 * 64 + c div 4096 mod 64" by simp
  ultimately show ?thesis using split3 [of c] by linarith
qed
lemma join3:
  assumes "y < 64" "z < 64" "(c::nat) = x * 4096 + y * 64 + z"
  shows "c div 4096 = x" "c div 64 mod 64 = y" "c mod 64 = z"
proof -
  have c: "c = (x * 64 + y) * 64 + z" using assms by simp
  define d where "d = x * 64 + y"
  have "c = d * 64 + z" using c by (simp only: d_def)
  then have "c div 64 = d" "c mod 64 = z" using assms(2) by simp_all
  then have q: "c div 64 = x * 64 + y" "c mod 64 = z" by (simp_all only: d_def)
  show "c div 4096 = x" "c div 64 mod 64 = y" "c mod 64 = z"
    using assms(1) by (simp_all add: div4096 q)
qed
lemma join4:
  assumes "x < 64" "y < 64" "z < 64" "(c::nat) = w * 262144 + x * 4096 + y * 64 + z"
  shows "c div 262144 = w" "c div 4096 mod 64 = x" "c div 64 mod 64 = y" "c mod 64 = z"
proof -
  have q: "c div 4096 = w * 64 + x" "c div 64 mod 64 = y" "c mod 64 = z"
    using join3 [OF assms(2,3), of c "w * 64 + x"] assms(4) by simp_all
  have "c div 262144 = c div 4096 div 64" by (simp add: div_mult2_eq [symmetric])
  then show "c div 262144 = w" "c div 4096 mod 64 = x" "c div 64 mod 64 = y" "c mod 64 = z"
    using assms(1) q by simp_all
qed
lemma next_cp_bytes: "scalar c \<Longrightarrow> next_cp (cp_bytes c @ r) = Some (c, r)"
proof -
  assume s: "scalar c"
  have "c < 0x80 \<or> 0x80 \<le> c \<and> c < 0x800 \<or> 0x800 \<le> c \<and> c < 0x10000 \<or> 0x10000 \<le> c \<and> c < 0x110000"
    using s unfolding scalar_def by arith
  then consider "c < 0x80" | "0x80 \<le> c" "c < 0x800" | "0x800 \<le> c" "c < 0x10000" | "0x10000 \<le> c" "c < 0x110000"
    by blast
  then show ?thesis
  proof cases
    case 1
    then show ?thesis by (simp add: cp_bytes_def)
  next
    case 2
    then have "c div 64 < 32" "2 \<le> c div 64" "c mod 64 < 64" by simp_all
    then show ?thesis using 2 by (simp add: cp_bytes_def cont_def del: of_nat_add)
  next
    case 3
    define x y z where "x = c div 4096" and "y = c div 64 mod 64" and "z = c mod 64"
    have b: "x < 16" "y < 64" "z < 64" using 3 by (simp_all add: x_def y_def z_def)
    have c: "c = x * 4096 + y * 64 + z" unfolding x_def y_def z_def by (rule split3)
    have e: "x = 0 \<Longrightarrow> 32 \<le> y" "x = 13 \<Longrightarrow> y < 32"
      using 3 s b unfolding scalar_def c by arith+
    have "cp_bytes c = [of_nat (0xE0 + x), of_nat (0x80 + y), of_nat (0x80 + z)]"
      using 3 by (simp add: cp_bytes_def x_def y_def z_def)
    then show ?thesis using b e by (simp add: cont_def c del: of_nat_add)
  next
    case 4
    define w x y z where "w = c div 262144" and "x = c div 4096 mod 64" and "y = c div 64 mod 64" and "z = c mod 64"
    have b: "w < 5" "x < 64" "y < 64" "z < 64" using 4 by (simp_all add: w_def x_def y_def z_def)
    have c: "c = w * 262144 + x * 4096 + y * 64 + z" unfolding w_def x_def y_def z_def by (rule split4)
    have e: "w = 0 \<Longrightarrow> 16 \<le> x" "w = 4 \<Longrightarrow> x < 16"
      using 4 b unfolding c by arith+
    have "cp_bytes c = [of_nat (0xF0 + w), of_nat (0x80 + x), of_nat (0x80 + y), of_nat (0x80 + z)]"
      using 4 by (simp add: cp_bytes_def w_def x_def y_def z_def)
    then show ?thesis using b e by (simp add: cont_def c del: of_nat_add)
  qed
qed

interpretation cp_codec: stream_codec cp_bytes next_cp scalar
  by unfold_locales (rule next_cp_bytes)

lemma cp_bytes_nonempty [simp]: "cp_bytes c \<noteq> []"
  by (simp add: cp_bytes_def)

lemma cp_bytes_case:
  "x < 32 \<Longrightarrow> 2 \<le> x \<Longrightarrow> y < 64 \<Longrightarrow> cp_bytes (x * 64 + y) = [of_nat (0xC0 + x), of_nat (0x80 + y)]"
  by (simp add: cp_bytes_def del: of_nat_add)

lemma next_cp_tail [simp]: "0x80 \<le> unat b \<Longrightarrow> next_cp [b] = None"
  by (simp add: Let_def)

lemma cont_digit:
  assumes "cont d"
  obtains y where "y < 64" "unat d = 0x80 + y" "d = of_nat (0x80 + y)" "unat d - 0x80 = y"
proof
  show "unat d - 0x80 < 64" "unat d = 0x80 + (unat d - 0x80)" "unat d - 0x80 = unat d - 0x80"
    using assms by (auto simp: cont_def)
  show "d = of_nat (0x80 + (unat d - 0x80))"
    using assms by (auto simp: cont_def simp del: of_nat_add)
qed

lemma lead_digit:
  assumes "k \<le> unat (b :: byte)"
  obtains x where "unat b = k + x" "b = of_nat (k + x)" "unat b - k = x"
proof
  show "unat b = k + (unat b - k)" "unat b - k = unat b - k" using assms by auto
  show "b = of_nat (k + (unat b - k))" using assms by (simp del: of_nat_add)
qed

lemma next_cp_sound2:
  assumes "next_cp (b # t) = Some (c, r)" "0xC2 \<le> unat b" "unat b < 0xE0"
  shows "scalar c \<and> b # t = cp_bytes c @ r"
proof -
  from assms obtain d where t: "t = d # r" "cont d" "c = (unat b - 0xC0) * 64 + (unat d - 0x80)"
    by (simp add: Let_def split: list.splits if_splits)
  from assms(2) have "0xC0 \<le> unat b" by simp
  then obtain x where x: "unat b = 0xC0 + x" "b = of_nat (0xC0 + x)" "unat b - 0xC0 = x" by (rule lead_digit)
  from t(2) obtain y where y: "y < 64" "d = of_nat (0x80 + y)" "unat d - 0x80 = y" by (rule cont_digit)
  have c: "c = x * 64 + y" using t(3) by (simp only: x(3) y(3))
  have x2: "2 \<le> x" "x < 32" using assms(2,3) x(1) by simp_all
  have "cp_bytes c = [b, d]" unfolding c cp_bytes_case [OF x2(2,1) y(1)] by (simp only: x(2) y(2))
  moreover have "scalar c" using x2 y(1) unfolding c scalar_def by linarith
  ultimately show ?thesis using t(1) by simp
qed

lemma next_cp_sound3:
  assumes "next_cp (b # t) = Some (c, r)" "0xE0 \<le> unat b" "unat b < 0xF0"
  shows "scalar c \<and> b # t = cp_bytes c @ r"
proof -
  from assms obtain d e where t: "t = d # e # r" "cont d" "cont e"
    "unat b = 0xE0 \<longrightarrow> 0xA0 \<le> unat d" "unat b = 0xED \<longrightarrow> unat d < 0xA0"
    "c = (unat b - 0xE0) * 4096 + (unat d - 0x80) * 64 + (unat e - 0x80)"
    by (simp add: Let_def split: list.splits if_splits)
  from assms(2) obtain x where x: "unat b = 0xE0 + x" "b = of_nat (0xE0 + x)" "unat b - 0xE0 = x" by (rule lead_digit)
  from t(2) obtain y where y: "y < 64" "unat d = 0x80 + y" "d = of_nat (0x80 + y)" "unat d - 0x80 = y" by (rule cont_digit)
  from t(3) obtain z where z: "z < 64" "e = of_nat (0x80 + z)" "unat e - 0x80 = z" by (rule cont_digit)
  have c: "c = x * 4096 + y * 64 + z" using t(6) by (simp only: x(3) y(4) z(3))
  have b: "x < 16" "x = 0 \<longrightarrow> 32 \<le> y" "x = 13 \<longrightarrow> y < 32"
    using assms(3) t(4,5) unfolding x(1) y(2) by auto
  have r: "0x800 \<le> c" "c < 0x10000" using b(1,2) y(1) z(1) unfolding c by (cases "x = 0"; linarith)+
  have "c < 0xD800 \<or> 0xE000 \<le> c"
  proof (cases "x = 13")
    case True
    then show ?thesis using b(3) z(1) by (simp add: c)
  next
    case False
    then have "x \<le> 12 \<or> 14 \<le> x" by linarith
    then show ?thesis using y(1) z(1) unfolding c by (elim disjE) linarith+
  qed
  then have s: "scalar c" using r by (auto simp: scalar_def)
  have "cp_bytes c = [of_nat (0xE0 + x), of_nat (0x80 + y), of_nat (0x80 + z)]"
    using r join3 [OF y(1) z(1) c] by (simp add: cp_bytes_def del: of_nat_add)
  then show ?thesis using s t(1) by (simp only: x(2) [symmetric] y(3) [symmetric] z(2) [symmetric]) simp
qed

lemma next_cp_sound4:
  assumes "next_cp (b # t) = Some (c, r)" "0xF0 \<le> unat b" "unat b < 0xF5"
  shows "scalar c \<and> b # t = cp_bytes c @ r"
proof -
  from assms obtain d e f where t: "t = d # e # f # r" "cont d" "cont e" "cont f"
    "unat b = 0xF0 \<longrightarrow> 0x90 \<le> unat d" "unat b = 0xF4 \<longrightarrow> unat d < 0x90"
    "c = (unat b - 0xF0) * 262144 + (unat d - 0x80) * 4096 + (unat e - 0x80) * 64 + (unat f - 0x80)"
    by (simp add: Let_def split: list.splits if_splits)
  from assms(2) obtain w where w: "unat b = 0xF0 + w" "b = of_nat (0xF0 + w)" "unat b - 0xF0 = w" by (rule lead_digit)
  from t(2) obtain x where x: "x < 64" "unat d = 0x80 + x" "d = of_nat (0x80 + x)" "unat d - 0x80 = x" by (rule cont_digit)
  from t(3) obtain y where y: "y < 64" "e = of_nat (0x80 + y)" "unat e - 0x80 = y" by (rule cont_digit)
  from t(4) obtain z where z: "z < 64" "f = of_nat (0x80 + z)" "unat f - 0x80 = z" by (rule cont_digit)
  have c: "c = w * 262144 + x * 4096 + y * 64 + z" using t(7) by (simp only: w(3) x(4) y(3) z(3))
  have b: "w < 5" "w = 0 \<longrightarrow> 16 \<le> x" "w = 4 \<longrightarrow> x < 16"
    using assms(3) t(5,6) unfolding w(1) x(2) by auto
  have "0x10000 \<le> c" using b(2) unfolding c by (cases "w = 0") linarith+
  moreover have "c < 0x110000" using b(1,3) x(1) y(1) z(1) unfolding c by (cases "w = 4") linarith+
  ultimately have r: "0x10000 \<le> c" "scalar c" by (auto simp: scalar_def)
  have "cp_bytes c = [of_nat (0xF0 + w), of_nat (0x80 + x), of_nat (0x80 + y), of_nat (0x80 + z)]"
    using r join4 [OF x(1) y(1) z(1) c] by (simp add: cp_bytes_def del: of_nat_add)
  then show ?thesis using r(2) t(1)
    by (simp only: w(2) [symmetric] x(3) [symmetric] y(2) [symmetric] z(2) [symmetric]) simp
qed

lemma next_cp_sound: "next_cp bs = Some (c, r) \<Longrightarrow> scalar c \<and> bs = cp_bytes c @ r"
proof -
  assume h: "next_cp bs = Some (c, r)"
  then obtain b t where bs: "bs = b # t" by (cases bs) auto
  have "unat b < 0x80 \<or> 0xC2 \<le> unat b \<and> unat b < 0xE0 \<or> 0xE0 \<le> unat b \<and> unat b < 0xF0 \<or> 0xF0 \<le> unat b \<and> unat b < 0xF5"
    using h unfolding bs by (simp add: Let_def split: if_splits)
  then consider "unat b < 0x80" | "0xC2 \<le> unat b" "unat b < 0xE0" | "0xE0 \<le> unat b" "unat b < 0xF0"
    | "0xF0 \<le> unat b" "unat b < 0xF5" by blast
  then show ?thesis
  proof cases
    case 1
    then show ?thesis using h unfolding bs by (auto simp: Let_def cp_bytes_def scalar_def)
  next
    case 2
    then show ?thesis using h next_cp_sound2 unfolding bs by blast
  next
    case 3
    then show ?thesis using h next_cp_sound3 unfolding bs by blast
  next
    case 4
    then show ?thesis using h next_cp_sound4 unfolding bs by blast
  qed
qed

subsection \<open>Strings\<close>

lemma utf8_decode_Nil [simp]: "utf8_decode [] = Some []"
  by (simp add: utf8_decode.simps)

lemma utf8_decode_cp: "scalar c \<Longrightarrow> utf8_decode (cp_bytes c @ r) = map_option (append (units_of c)) (utf8_decode r)"
  by (subst utf8_decode.simps) (simp add: next_cp_bytes)

lemma utf8_decode_cps:
  "\<forall>c \<in> set cs. scalar c \<Longrightarrow> utf8_decode (concat (map cp_bytes cs)) = Some (concat (map units_of cs))"
  by (induction cs) (simp_all add: utf8_decode_cp)

lemma utf8_decode_sound:
  "utf8_decode bs = Some s \<Longrightarrow>
   \<exists>cs. (\<forall>c \<in> set cs. scalar c) \<and> s = concat (map units_of cs) \<and> bs = concat (map cp_bytes cs)"
proof (induction bs arbitrary: s rule: utf8_decode.induct)
  case (1 bs)
  show ?case
  proof (cases "bs = []")
    case True
    then show ?thesis using 1(2) by (intro exI [of _ "[]"]) simp
  next
    case False
    with 1(2) obtain c r t where c: "next_cp bs = Some (c, r)" "utf8_decode r = Some t" "s = units_of c @ t"
      by (subst (asm) utf8_decode.simps) (auto split: option.splits)
    with 1(1) False obtain cs where cs: "\<forall>c \<in> set cs. scalar c" "t = concat (map units_of cs)"
      "r = concat (map cp_bytes cs)" by blast
    from next_cp_sound [OF c(1)] cs c(3) show ?thesis by (intro exI [of _ "c # cs"]) simp
  qed
qed

lemma surrogate_less: "unat (u :: 16 word) < 0x10000"
  using unsigned_less [of u] by simp

lemma code_points_scalar: "\<forall>c \<in> set (code_points s). scalar c"
proof (induction s rule: code_points.induct)
  case (3 u v r)
  then show ?case using surrogate_less [of u] surrogate_less [of v]
    by (auto simp: scalar_def high_surrogate_def low_surrogate_def)
next
  case (2 u)
  then show ?case using surrogate_less [of u]
    by (auto simp: scalar_def high_surrogate_def low_surrogate_def)
qed simp

lemma units_of_pair:
  "high_surrogate u \<Longrightarrow> low_surrogate v \<Longrightarrow>
   units_of (0x10000 + (unat u - 0xD800) * 0x400 + (unat v - 0xDC00)) = [u, v]"
proof -
  assume h: "high_surrogate u" "low_surrogate v"
  define a b where "a = unat u - 0xD800" and "b = unat v - 0xDC00"
  have ab: "a < 0x400" "b < 0x400" "unat u = 0xD800 + a" "unat v = 0xDC00 + b"
    using h by (auto simp: a_def b_def high_surrogate_def low_surrogate_def)
  have "(a * 0x400 + b) div 0x400 = a" "(a * 0x400 + b) mod 0x400 = b" using ab by simp_all
  moreover have "(of_nat (0xD800 + a) :: 16 word) = u" "(of_nat (0xDC00 + b) :: 16 word) = v"
    using ab(3,4) [symmetric] by (simp_all del: of_nat_add)
  ultimately show ?thesis
    unfolding units_of_def a_def [symmetric] b_def [symmetric] by (simp add: add.assoc del: of_nat_add)
qed

lemma units_of_single: "units_of (unat u) = [u]"
  using surrogate_less [of u] by (simp add: units_of_def)

lemma units_code_points: "well_formed s \<Longrightarrow> concat (map units_of (code_points s)) = s"
  by (induction s rule: well_formed.induct)
    (auto simp: units_of_single units_of_pair split: if_splits)

lemma code_points_units:
  assumes "scalar c"
  shows "code_points (units_of c @ s) = c # code_points s" "well_formed (units_of c @ s) = well_formed s"
proof -
  have "code_points (units_of c @ s) = c # code_points s \<and> well_formed (units_of c @ s) = well_formed s"
  proof (cases "c < 0x10000")
    case True
    then have "\<not> high_surrogate (of_nat c)" "\<not> low_surrogate (of_nat c)"
      using assms by (auto simp: high_surrogate_def low_surrogate_def scalar_def)
    then show ?thesis using True by (cases s) (simp_all add: units_of_def)
  next
    case False
    define a b where "a = (c - 0x10000) div 0x400" and "b = (c - 0x10000) mod 0x400"
    have ab: "a < 0x400" "b < 0x400" "c = 0x10000 + a * 0x400 + b"
      using False assms by (auto simp: a_def b_def scalar_def)
    have "units_of c = [of_nat (0xD800 + a), of_nat (0xDC00 + b)]"
      using False by (simp add: units_of_def a_def b_def)
    then show ?thesis using ab
      by (simp add: high_surrogate_def low_surrogate_def del: of_nat_add)
  qed
  then show "code_points (units_of c @ s) = c # code_points s" "well_formed (units_of c @ s) = well_formed s"
    by blast+
qed

lemma code_points_concat:
  "\<forall>c \<in> set cs. scalar c \<Longrightarrow>
   code_points (concat (map units_of cs)) = cs \<and> well_formed (concat (map units_of cs))"
  by (induction cs) (simp_all add: code_points_units)

lemma utf8_decode_encode: "well_formed s \<Longrightarrow> utf8_decode (utf8_encode s) = Some s"
  by (simp add: utf8_encode_def utf8_decode_cps code_points_scalar units_code_points)

lemma utf8_encode_decode: "utf8_decode bs = Some s \<Longrightarrow> well_formed s \<and> utf8_encode s = bs"
  using utf8_decode_sound [of bs s] code_points_concat by (auto simp: utf8_encode_def)

interpretation utf8: tight_codec utf8_encode utf8_decode well_formed
  by unfold_locales (simp_all add: utf8_decode_encode utf8_encode_decode)

end
