(* ===== verification/Jcs.thy ===== *)
theory Jcs
  imports Encoding
begin

text \<open>
  \<open>tools/src/jcs.ts\<close>: the JSON values of a proof and their canonical serialization (RFC 8785).
  An object is the list of its members in insertion order, with distinct names. A number is
  \<open>NInt\<close> when it is an integer below 10^21 in magnitude, which ECMAScript prints in plain
  decimal; any other finite double is carried by its ECMAScript text, which determines it, with
  the answer \<open>Number.isInteger\<close> gives for it.
\<close>

datatype jnum = NInt int | NDouble bool jsstr | NNonFinite

datatype json = JNull | JBool bool | JNum jnum | JStr jsstr | JArr "json list"
  | JObj "(jsstr \<times> json) list"

section \<open>JSON.stringify of one string or number\<close>

definition hex_digit :: "nat \<Rightarrow> 16 word" where
  "hex_digit n = of_nat (if n < 10 then 48 + n else 87 + n)"

definition u_escape :: "16 word \<Rightarrow> jsstr" where
  "u_escape u = [92, 117, hex_digit (unat u div 4096), hex_digit (unat u div 256 mod 16),
     hex_digit (unat u div 16 mod 16), hex_digit (unat u mod 16)]"

text \<open>The escapes of a character that is not part of a surrogate pair.\<close>

definition quote_unit :: "16 word \<Rightarrow> jsstr" where
  "quote_unit u =
     (if u = 34 then [92, 34] else if u = 92 then [92, 92] else if u = 8 then [92, 98]
      else if u = 12 then [92, 102] else if u = 10 then [92, 110] else if u = 13 then [92, 114]
      else if u = 9 then [92, 116]
      else if unat u < 32 \<or> high_surrogate u \<or> low_surrogate u then u_escape u else [u])"

fun quote_body :: "jsstr \<Rightarrow> jsstr" where
  "quote_body [] = []"
| "quote_body [u] = quote_unit u"
| "quote_body (u # v # r) =
     (if high_surrogate u \<and> low_surrogate v then u # v # quote_body r
      else quote_unit u @ quote_body (v # r))"

definition quote :: "jsstr \<Rightarrow> jsstr" where
  "quote s = 34 # quote_body s @ [34]"

fun nat_text :: "nat \<Rightarrow> jsstr" where
  "nat_text n = (if n < 10 then [of_nat (48 + n)] else nat_text (n div 10) @ [of_nat (48 + n mod 10)])"

declare nat_text.simps [simp del]

definition int_text :: "int \<Rightarrow> jsstr" where
  "int_text i = (if i < 0 then 45 # nat_text (nat (- i)) else nat_text (nat i))"

fun num_text :: "jnum \<Rightarrow> jsstr" where
  "num_text (NInt i) = int_text i"
| "num_text (NDouble _ t) = t"
| "num_text NNonFinite = js ''null''"

section \<open>serialize and jcs\<close>

fun join :: "jsstr list \<Rightarrow> jsstr" where
  "join [] = []"
| "join [x] = x"
| "join (x # xs) = x @ 44 # join xs"

text \<open>A non-finite number anywhere in the value is the one error of \<open>serialize\<close>.\<close>

fun non_finite :: "json \<Rightarrow> bool" where
  "non_finite (JNum n) = (n = NNonFinite)"
| "non_finite (JArr vs) = (\<exists>v \<in> set vs. non_finite v)"
| "non_finite (JObj ms) = (\<exists>m \<in> set ms. non_finite (snd m))"
| "non_finite _ = False"

fun serialize :: "json \<Rightarrow> jsstr" where
  "serialize JNull = js ''null''"
| "serialize (JBool b) = (if b then js ''true'' else js ''false'')"
| "serialize (JStr s) = quote s"
| "serialize (JNum n) = num_text n"
| "serialize (JArr vs) = 91 # join (map serialize vs) @ [93]"
| "serialize (JObj ms) =
     123 # join (map (\<lambda>(k, v). quote k @ 58 # serialize v) (sort_key fst ms)) @ [125]"

definition jcs :: "json \<Rightarrow> bytes option" where
  "jcs v = (if non_finite v then None else Some (utf8_encode (serialize v)))"

section \<open>Member access\<close>

text \<open>\<open>v.k\<close> on an object, \<open>None\<close> for undefined; \<open>k in v\<close>; \<open>isObject\<close>.\<close>

fun member :: "json \<Rightarrow> string \<Rightarrow> json option" where
  "member (JObj ms) k = map_of ms (js k)"
| "member _ k = None"

definition is_object :: "json \<Rightarrow> bool" where
  "is_object v = (case v of JObj _ \<Rightarrow> True | _ \<Rightarrow> False)"

text \<open>Reading through an optional value, as the checks that narrow a type first do.\<close>

definition str_of :: "json option \<Rightarrow> jsstr option" where
  "str_of v = (case v of Some (JStr s) \<Rightarrow> Some s | _ \<Rightarrow> None)"

definition int_of :: "json option \<Rightarrow> int option" where
  "int_of v = (case v of Some (JNum (NInt i)) \<Rightarrow> Some i | _ \<Rightarrow> None)"

definition arr_of :: "json option \<Rightarrow> json list option" where
  "arr_of v = (case v of Some (JArr vs) \<Rightarrow> Some vs | _ \<Rightarrow> None)"

definition obj_of :: "json option \<Rightarrow> json option" where
  "obj_of v = (case v of Some (JObj ms) \<Rightarrow> Some (JObj ms) | _ \<Rightarrow> None)"

lemma str_of_Some [simp]: "str_of v = Some s \<longleftrightarrow> v = Some (JStr s)"
  by (auto simp: str_of_def split: option.splits json.splits)

lemma int_of_Some [simp]: "int_of v = Some i \<longleftrightarrow> v = Some (JNum (NInt i))"
  by (auto simp: int_of_def split: option.splits json.splits jnum.splits)

lemma arr_of_Some [simp]: "arr_of v = Some vs \<longleftrightarrow> v = Some (JArr vs)"
  by (auto simp: arr_of_def split: option.splits json.splits)

lemma of_values [simp]: "str_of (Some (JStr s)) = Some s" "int_of (Some (JNum (NInt i))) = Some i"
  "arr_of (Some (JArr vs)) = Some vs"
  by simp_all

section \<open>Canonical values\<close>

text \<open>
  The value a canonical text denotes: members sorted by name at every level. Two values with
  the same sorted form are the same proof.
\<close>

fun canon :: "json \<Rightarrow> json" where
  "canon (JArr vs) = JArr (map canon vs)"
| "canon (JObj ms) = JObj (map (\<lambda>(k, v). (k, canon v)) (sort_key fst ms))"
| "canon v = v"

definition max_safe :: int where "max_safe = 9007199254740991"

definition safe_int :: "int \<Rightarrow> bool" where
  "safe_int i = (- max_safe \<le> i \<and> i \<le> max_safe)"

text \<open>The values the proof reader produces: safe integers, distinct member names.\<close>

fun proof_value :: "json \<Rightarrow> bool" where
  "proof_value (JNum n) = (case n of NInt i \<Rightarrow> safe_int i | _ \<Rightarrow> False)"
| "proof_value (JArr vs) = (\<forall>v \<in> set vs. proof_value v)"
| "proof_value (JObj ms) = (distinct (map fst ms) \<and> (\<forall>m \<in> set ms. proof_value (snd m)))"
| "proof_value _ = True"

text \<open>How deep the containers of a value nest; a scalar is at depth 0.\<close>

fun depth :: "json \<Rightarrow> nat" where
  "depth (JArr vs) = (if vs = [] then 0 else Suc (Max (depth ` set vs)))"
| "depth (JObj ms) = (if ms = [] then 0 else Suc (Max (depth ` snd ` set ms)))"
| "depth _ = 0"

lemma proof_value_finite: "proof_value v \<Longrightarrow> \<not> non_finite v"
  by (induction v rule: proof_value.induct) (auto split: jnum.splits)

lemma depth_elem: "v \<in> set vs \<Longrightarrow> depth v < depth (JArr vs)"
proof -
  assume v: "v \<in> set vs"
  then have "depth v \<le> Max (depth ` set vs)" by (intro Max_ge) auto
  then show ?thesis using v by (cases "vs = []") (simp_all add: less_Suc_eq_le)
qed

lemma depth_member: "m \<in> set ms \<Longrightarrow> depth (snd m) < depth (JObj ms)"
proof -
  assume m: "m \<in> set ms"
  then have "depth (snd m) \<le> Max (depth ` snd ` set ms)" by (intro Max_ge) auto
  then show ?thesis using m by (cases "ms = []") (simp_all add: less_Suc_eq_le)
qed

subsection \<open>Order of members does not matter\<close>

lemma distinct_map_mset: "mset ms = mset ns \<Longrightarrow> distinct (map f ms) = distinct (map f ns)"
  by (metis mset_eq_imp_distinct_iff mset_map)

lemma sort_key_perm:
  assumes "mset ms = mset ns" "distinct (map fst ms)"
  shows "sort_key fst ms = sort_key fst ns"
proof (rule properties_for_sort_key [symmetric])
  show "mset (sort_key fst ms) = mset ns" using assms(1) by simp
  show "sorted (map fst (sort_key fst ms))" by simp
  fix k
  assume "k \<in> set (sort_key fst ms)"
  have e: "filter (\<lambda>x. fst k = fst x) xs = [k]" if "k \<in> set xs" "distinct (map fst xs)" for xs
    using that by (induction xs) (auto simp: image_iff filter_empty_conv)
  have "distinct (map fst (sort_key fst ms))" "distinct (map fst ns)"
    using assms distinct_map_mset [of ms ns fst] distinct_map_mset [of "sort_key fst ms" ms fst] by simp_all
  moreover have "k \<in> set ns" "k \<in> set (sort_key fst ms)"
    using \<open>k \<in> set (sort_key fst ms)\<close> mset_eq_setD [OF assms(1)] by simp_all
  ultimately show "filter (\<lambda>x. fst k = fst x) (sort_key fst ms) = filter (\<lambda>x. fst k = fst x) ns"
    using e by simp
qed

lemma map_of_sort_key [simp]: "distinct (map fst ms) \<Longrightarrow> map_of (sort_key fst ms) = map_of ms"
proof -
  assume d: "distinct (map fst ms)"
  then have "distinct (map fst (sort_key fst ms))"
    using distinct_map_mset [of "sort_key fst ms" ms fst] by simp
  with d show ?thesis by (intro map_of_inject_set [THEN iffD2]) auto
qed

end
