(* ===== verification/Json.thy ===== *)
theory Json
  imports Jcs
begin

text \<open>
  \<open>tools/src/json.ts\<close>: the proof reader's JSON parser. The cursor \<open>at\<close> of the source is the rest of
  the text here; every \<open>fail\<close> is its own constructor of \<open>syntax_error\<close> (the character position in
  the message is left out). The recursion runs on fuel: \<open>Out_of_fuel\<close> is no error of the source, and
  \<open>parse_fuel\<close> shows that the fuel \<open>parse_proof_json\<close> starts with never runs out.
\<close>

datatype syntax_error = Byte_order_mark | Not_UTF8 | Unterminated_string | Malformed_string
  | Malformed_number | Not_an_integer_literal | Outside_safe_range | Nested_too_deep
  | Member_name_expected | Duplicate_name jsstr | Colon_expected | Comma_or_brace_expected
  | Comma_or_bracket_expected | Value_expected | Bytes_after_value | Not_an_object | Out_of_fuel

section \<open>Tokens\<close>

definition is_space :: "16 word \<Rightarrow> bool" where
  "is_space u = (u = 32 \<or> u = 9 \<or> u = 10 \<or> u = 13)"

definition space :: "jsstr \<Rightarrow> jsstr" where
  "space t = dropWhile is_space t"

definition is_digit :: "16 word \<Rightarrow> bool" where
  "is_digit u = (48 \<le> unat u \<and> unat u \<le> 57)"

text \<open>The raw characters up to the closing quote; a backslash takes the next character with it.\<close>

fun scan_string :: "jsstr \<Rightarrow> (jsstr \<times> jsstr) option" where
  "scan_string [] = None"
| "scan_string (u # r) =
     (if u = 34 then Some ([], r)
      else if u = 92 then
        (case r of [] \<Rightarrow> None | v # r' \<Rightarrow> map_option (\<lambda>(raw, rest). (u # v # raw, rest)) (scan_string r'))
      else map_option (\<lambda>(raw, rest). (u # raw, rest)) (scan_string r))"

definition hex_val :: "16 word \<Rightarrow> nat option" where
  "hex_val u = (let n = unat u in
     if 48 \<le> n \<and> n \<le> 57 then Some (n - 48) else if 97 \<le> n \<and> n \<le> 102 then Some (n - 87)
     else if 65 \<le> n \<and> n \<le> 70 then Some (n - 55) else None)"

definition hex4 :: "16 word \<Rightarrow> 16 word \<Rightarrow> 16 word \<Rightarrow> 16 word \<Rightarrow> 16 word option" where
  "hex4 a b c d = do { w \<leftarrow> hex_val a; x \<leftarrow> hex_val b; y \<leftarrow> hex_val c; z \<leftarrow> hex_val d;
     Some (of_nat (w * 4096 + x * 256 + y * 16 + z)) }"

definition simple_escape :: "16 word \<Rightarrow> 16 word option" where
  "simple_escape v =
     (if v = 34 \<or> v = 92 \<or> v = 47 then Some v else if v = 98 then Some 8 else if v = 102 then Some 12
      else if v = 110 then Some 10 else if v = 114 then Some 13 else if v = 116 then Some 9 else None)"

text \<open>\<open>JSON.parse\<close> of the quoted slice: the characters between the quotes.\<close>

fun unescape :: "jsstr \<Rightarrow> jsstr option" where
  "unescape [] = Some []"
| "unescape (u # r) =
     (if u = 92 then
        (case r of [] \<Rightarrow> None
         | v # r1 \<Rightarrow>
           if v = 117 then
             (case r1 of a # b # c # d # r2 \<Rightarrow>
                (case hex4 a b c d of None \<Rightarrow> None | Some x \<Rightarrow> map_option (Cons x) (unescape r2))
              | _ \<Rightarrow> None)
           else (case simple_escape v of None \<Rightarrow> None | Some x \<Rightarrow> map_option (Cons x) (unescape r1)))
      else if unat u < 32 \<or> u = 34 then None
      else map_option (Cons u) (unescape r))"

text \<open>\<open>string()\<close>, entered after its opening quote.\<close>

definition p_string :: "jsstr \<Rightarrow> syntax_error + (jsstr \<times> jsstr)" where
  "p_string t = (case scan_string t of None \<Rightarrow> Inl Unterminated_string
     | Some (raw, rest) \<Rightarrow> (case unescape raw of None \<Rightarrow> Inl Malformed_string | Some s \<Rightarrow> Inr (s, rest)))"

text \<open>The match of \<open>INTEGER\<close> at the cursor, and whether \<open>NUMBER\<close> matches further.\<close>

definition digits :: "jsstr \<Rightarrow> (jsstr \<times> jsstr) option" where
  "digits t = (case t of [] \<Rightarrow> None
     | u # r \<Rightarrow> if u = 48 then Some ([u], r)
               else if is_digit u then Some (takeWhile is_digit t, dropWhile is_digit t) else None)"

definition has_fraction :: "jsstr \<Rightarrow> bool" where
  "has_fraction t = (case t of u # v # _ \<Rightarrow> u = 46 \<and> is_digit v | _ \<Rightarrow> False)"

definition has_exponent :: "jsstr \<Rightarrow> bool" where
  "has_exponent t = (case t of u # v # r \<Rightarrow>
     (u = 101 \<or> u = 69) \<and> (is_digit v \<or> (v = 43 \<or> v = 45) \<and> r \<noteq> [] \<and> is_digit (hd r)) | _ \<Rightarrow> False)"

definition digits_val :: "jsstr \<Rightarrow> nat" where
  "digits_val ds = foldl (\<lambda>n u. n * 10 + (unat u - 48)) 0 ds"

definition p_number :: "jsstr \<Rightarrow> syntax_error + (json \<times> jsstr)" where
  "p_number t =
     (let neg = (t \<noteq> [] \<and> hd t = 45); t' = (if neg then tl t else t) in
      case digits t' of None \<Rightarrow> Inl Malformed_number
      | Some (ds, r) \<Rightarrow>
        if has_fraction r \<or> has_exponent r then Inl Not_an_integer_literal
        else let n = (if neg then - int (digits_val ds) else int (digits_val ds)) in
          if safe_int n then Inr (JNum (NInt n), r) else Inl Outside_safe_range)"

text \<open>The three words, in the order they are tried.\<close>

definition p_word :: "jsstr \<Rightarrow> syntax_error + (json \<times> jsstr)" where
  "p_word t =
     (if take 4 t = js ''true'' then Inr (JBool True, drop 4 t)
      else if take 5 t = js ''false'' then Inr (JBool False, drop 5 t)
      else if take 4 t = js ''null'' then Inr (JNull, drop 4 t) else Inl Value_expected)"

section \<open>value\<close>

fun p_value :: "nat \<Rightarrow> nat \<Rightarrow> jsstr \<Rightarrow> syntax_error + (json \<times> jsstr)"
  and p_members :: "nat \<Rightarrow> nat \<Rightarrow> (jsstr \<times> json) list \<Rightarrow> jsstr \<Rightarrow> syntax_error + (json \<times> jsstr)"
  and p_elems :: "nat \<Rightarrow> nat \<Rightarrow> json list \<Rightarrow> jsstr \<Rightarrow> syntax_error + (json \<times> jsstr)" where
  "p_value 0 dep t = Inl Out_of_fuel"
| "p_value (Suc n) dep t =
     (if dep > 64 then Inl Nested_too_deep
      else case space t of [] \<Rightarrow> Inl Value_expected
        | c # r \<Rightarrow>
          if c = 123 then
            (case space r of d # r' \<Rightarrow> if d = 125 then Inr (JObj [], r') else p_members n dep [] r
             | [] \<Rightarrow> p_members n dep [] r)
          else if c = 91 then
            (case space r of d # r' \<Rightarrow> if d = 93 then Inr (JArr [], r') else p_elems n dep [] r
             | [] \<Rightarrow> p_elems n dep [] r)
          else if c = 34 then rbind (p_string r) (\<lambda>(s, r'). Inr (JStr s, r'))
          else if c = 45 \<or> is_digit c then p_number (c # r)
          else p_word (c # r))"
| "p_members 0 dep out t = Inl Out_of_fuel"
| "p_members (Suc n) dep out t =
     (case space t of [] \<Rightarrow> Inl Member_name_expected
      | c # r \<Rightarrow>
        if c \<noteq> 34 then Inl Member_name_expected
        else rbind (p_string r) (\<lambda>(key, r1).
          if key \<in> set (map fst out) then Inl (Duplicate_name key)
          else case space r1 of [] \<Rightarrow> Inl Colon_expected
            | d # r2 \<Rightarrow>
              if d \<noteq> 58 then Inl Colon_expected
              else rbind (p_value n (Suc dep) r2) (\<lambda>(v, r3).
                case space r3 of [] \<Rightarrow> Inl Comma_or_brace_expected
                | e # r4 \<Rightarrow>
                  if e = 44 then p_members n dep (out @ [(key, v)]) r4
                  else if e = 125 then Inr (JObj (out @ [(key, v)]), r4)
                  else Inl Comma_or_brace_expected)))"
| "p_elems 0 dep out t = Inl Out_of_fuel"
| "p_elems (Suc n) dep out t =
     rbind (p_value n (Suc dep) t) (\<lambda>(v, r).
       case space r of [] \<Rightarrow> Inl Comma_or_bracket_expected
       | e # r' \<Rightarrow>
         if e = 44 then p_elems n dep (out @ [v]) r'
         else if e = 93 then Inr (JArr (out @ [v]), r')
         else Inl Comma_or_bracket_expected)"

definition parse_text :: "jsstr \<Rightarrow> syntax_error + json" where
  "parse_text t = rbind (p_value (2 * length t + 2) 0 t) (\<lambda>(v, r).
     if space r = [] then Inr v else Inl Bytes_after_value)"

definition parse_proof_json :: "bytes \<Rightarrow> syntax_error + json" where
  "parse_proof_json bs =
     (if take 3 bs = [0xEF, 0xBB, 0xBF] then Inl Byte_order_mark
      else case text_decode bs of None \<Rightarrow> Inl Not_UTF8 | Some t \<Rightarrow> parse_text t)"

section \<open>Every token consumes its text\<close>

lemma space_length: "length (space t) \<le> length t"
  by (simp add: space_def length_dropWhile_le)

lemma space_Cons_length: "space t = c # r \<Longrightarrow> length r < length t"
  using space_length [of t] by simp

lemma scan_string_length: "scan_string t = Some (raw, r) \<Longrightarrow> length raw + length r < length t"
proof (induction t arbitrary: raw r rule: scan_string.induct)
  case (2 u t)
  consider "u = 34" | "u \<noteq> 34" "u = 92" | "u \<noteq> 34" "u \<noteq> 92" by blast
  then show ?case
  proof cases
    case 2
    with "2.prems" obtain v t' where t: "t = v # t'" by (cases t) auto
    with 2 "2.prems" obtain raw' where "scan_string t' = Some (raw', r)" "raw = u # v # raw'" by auto
    with "2.IH"(1) [OF 2 t] show ?thesis by (simp add: t)
  next
    case 3
    with "2.prems" obtain raw' where "scan_string t = Some (raw', r)" "raw = u # raw'" by auto
    with "2.IH"(2) [OF 3] show ?thesis by simp
  qed (use "2.prems" in auto)
qed simp

lemma p_string_length: "p_string t = Inr (s, r) \<Longrightarrow> length r < length t"
  by (auto simp: p_string_def dest: scan_string_length split: option.splits)

lemma digits_length: "digits t = Some (ds, r) \<Longrightarrow> length r < length t"
proof -
  assume h: "digits t = Some (ds, r)"
  then obtain u t' where t: "t = u # t'" by (auto simp: digits_def split: list.splits)
  have "length (dropWhile is_digit t') \<le> length t'" by (rule length_dropWhile_le)
  then show ?thesis using h unfolding t by (auto simp: digits_def split: if_splits)
qed

lemma p_number_length: "p_number t = Inr (v, r) \<Longrightarrow> length r < length t"
proof -
  assume "p_number t = Inr (v, r)"
  then have "\<exists>ds. digits (if t \<noteq> [] \<and> hd t = 45 then tl t else t) = Some (ds, r)"
    by (auto simp: p_number_def Let_def split: option.splits if_splits)
  then obtain ds where "length r < length (if t \<noteq> [] \<and> hd t = 45 then tl t else t)"
    using digits_length by blast
  then show ?thesis by (auto split: if_splits)
qed

lemma p_word_length: "p_word t = Inr (v, r) \<Longrightarrow> length r < length t"
proof -
  assume h: "p_word t = Inr (v, r)"
  have "t \<noteq> []" using h by (auto simp: p_word_def split: if_splits)
  then show ?thesis using h by (auto simp: p_word_def split: if_splits)
qed

lemmas token_lengths = p_string_length p_number_length p_word_length space_Cons_length

text \<open>How each production can have succeeded.\<close>

lemma p_value_SucE:
  assumes "p_value (Suc n) dep t = Inr (v, r)"
  obtains (no_members) s where "space t = 123 # s" "dep \<le> 64" "v = JObj []" "space s = 125 # r"
  | (members) s where "space t = 123 # s" "dep \<le> 64" "p_members n dep [] s = Inr (v, r)"
  | (no_elems) s where "space t = 91 # s" "dep \<le> 64" "v = JArr []" "space s = 93 # r"
  | (elems) s where "space t = 91 # s" "dep \<le> 64" "p_elems n dep [] s = Inr (v, r)"
  | (string) s x where "space t = 34 # s" "dep \<le> 64" "v = JStr x" "p_string s = Inr (x, r)"
  | (number) "dep \<le> 64" "p_number (space t) = Inr (v, r)"
  | (word) "dep \<le> 64" "p_word (space t) = Inr (v, r)"
proof -
  from assms obtain c s where t: "space t = c # s" and d: "dep \<le> 64"
    by (auto split: if_splits list.splits)
  show thesis
  proof (cases "c = 123 \<or> c = 91 \<or> c = 34 \<or> c = 45 \<or> is_digit c")
    case False
    with assms t d have "p_word (space t) = Inr (v, r)" by simp
    with d show thesis by (rule word)
  next
    case True
    then consider "c = 123" | "c = 91" | "c = 34" | "c \<noteq> 123" "c \<noteq> 91" "c \<noteq> 34" "c = 45 \<or> is_digit c"
      by blast
    then show thesis
    proof cases
      case 1
      show thesis
      proof (cases "\<exists>r'. space s = 125 # r'")
        case True
        with assms t d 1 show thesis by (intro no_members [of s]) auto
      next
        case False
        with assms t d 1 show thesis by (intro members [of s]) (auto split: list.splits)
      qed
    next
      case 2
      show thesis
      proof (cases "\<exists>r'. space s = 93 # r'")
        case True
        with assms t d 2 show thesis by (intro no_elems [of s]) auto
      next
        case False
        with assms t d 2 show thesis by (intro elems [of s]) (auto split: list.splits)
      qed
    next
      case 3
      with assms t d obtain x where "p_string s = Inr (x, r)" "v = JStr x" by auto
      with t d 3 show thesis by (intro string [of s x]) auto
    next
      case 4
      with assms t d have "p_number (space t) = Inr (v, r)" by simp
      with d show thesis by (rule number)
    qed
  qed
qed

lemma p_members_SucE:
  assumes "p_members (Suc n) dep out t = Inr (v, r)"
  obtains s key r1 r2 w r3 where "space t = 34 # s" "p_string s = Inr (key, r1)" "key \<notin> set (map fst out)"
    "space r1 = 58 # r2" "p_value n (Suc dep) r2 = Inr (w, r3)"
    "(\<exists>r4. space r3 = 44 # r4 \<and> p_members n dep (out @ [(key, w)]) r4 = Inr (v, r)) \<or>
     space r3 = 125 # r \<and> v = JObj (out @ [(key, w)])"
proof -
  from assms obtain s where t: "space t = 34 # s" by (auto split: list.splits if_splits)
  with assms obtain key r1 where k: "p_string s = Inr (key, r1)" "key \<notin> set (map fst out)"
    by (auto split: if_splits)
  with assms t obtain r2 where c: "space r1 = 58 # r2" by (auto split: list.splits if_splits)
  with assms t k obtain w r3 where w: "p_value n (Suc dep) r2 = Inr (w, r3)" by auto
  with assms t k c show thesis
    by (intro that [OF t k c w]) (auto split: list.splits if_splits)
qed

lemma p_elems_SucE:
  assumes "p_elems (Suc n) dep out t = Inr (v, r)"
  obtains w r1 where "p_value n (Suc dep) t = Inr (w, r1)"
    "(\<exists>r2. space r1 = 44 # r2 \<and> p_elems n dep (out @ [w]) r2 = Inr (v, r)) \<or>
     space r1 = 93 # r \<and> v = JArr (out @ [w])"
proof -
  from assms obtain w r1 where w: "p_value n (Suc dep) t = Inr (w, r1)" by auto
  with assms show thesis by (intro that [OF w]) (auto split: list.splits if_splits)
qed

lemma p_length:
  "p_value n dep t = Inr (v, r) \<Longrightarrow> length r < length t"
  "p_members n dep ms t = Inr (v, r) \<Longrightarrow> length r < length t"
  "p_elems n dep vs t = Inr (v, r) \<Longrightarrow> length r < length t"
proof (induction n arbitrary: dep t v r ms vs)
  case (Suc n)
  {
    case 1
    then show ?case
    proof (cases rule: p_value_SucE)
      case (number)
      then show ?thesis using p_number_length space_length [of t] by fastforce
    next
      case (word)
      then show ?thesis using p_word_length space_length [of t] by fastforce
    qed (use Suc.IH in \<open>fastforce dest: token_lengths\<close>)+
  next
    case 2
    then show ?case
    proof (cases rule: p_members_SucE)
      case (1 s key r1 r2 w r3)
      from 1(1,2,4) have a: "length r2 < length t" by (auto dest!: token_lengths)
      from Suc.IH(1) [OF 1(5)] have b: "length r3 < length r2" .
      from 1(6) have "length r < length r3" using Suc.IH(2) by (fastforce dest: token_lengths)
      with a b show ?thesis by simp
    qed
  next
    case 3
    then show ?case
    proof (cases rule: p_elems_SucE)
      case (1 w r1)
      from Suc.IH(1) [OF 1(1)] have b: "length r1 < length t" .
      from 1(2) have "length r < length r1" using Suc.IH(3) by (fastforce dest: token_lengths)
      with b show ?thesis by simp
    qed
  }
qed simp_all

section \<open>The fuel is enough\<close>

lemma rbind_eq_Inl: "rbind m f = Inl e \<longleftrightarrow> m = Inl e \<or> (\<exists>x. m = Inr x \<and> f x = Inl e)"
  by (cases m) auto

lemma p_token_fuel [simp]: "p_string t \<noteq> Inl Out_of_fuel" "p_number t \<noteq> Inl Out_of_fuel" "p_word t \<noteq> Inl Out_of_fuel"
  by (auto simp: p_string_def p_number_def p_word_def Let_def split: option.splits)

lemma p_enough_fuel:
  "2 * length t < n \<Longrightarrow> p_value n dep t \<noteq> Inl Out_of_fuel"
  "2 * length t + 1 < n \<Longrightarrow> p_members n dep ms t \<noteq> Inl Out_of_fuel"
  "2 * length t + 1 < n \<Longrightarrow> p_elems n dep vs t \<noteq> Inl Out_of_fuel"
proof (induction n arbitrary: dep t ms vs)
  case (Suc n)
  {
    case 1
    have m: "p_members n dep [] s \<noteq> Inl Out_of_fuel \<and> p_elems n dep [] s \<noteq> Inl Out_of_fuel"
      if "space t = c # s" for c s
      using Suc.IH(2,3) 1 space_Cons_length [OF that] by simp
    show ?case
      by (auto simp: rbind_eq_Inl split: list.splits dest: m)
  next
    case 2
    have v: "p_value n (Suc dep) r2 \<noteq> Inl Out_of_fuel"
      if "space t = c # s" "p_string s = Inr (key, r1)" "space r1 = d # r2" for c s key r1 d r2
      using Suc.IH(1) 2 that by (auto dest!: token_lengths)
    have m: "p_members n dep out r4 \<noteq> Inl Out_of_fuel"
      if "space t = c # s" "p_string s = Inr (key, r1)" "space r1 = d # r2"
        "p_value n (Suc dep) r2 = Inr (w, r3)" "space r3 = e # r4" for c s key r1 d r2 w r3 e r4 out
      using Suc.IH(2) 2 that by (auto dest!: token_lengths p_length(1))
    show ?case
      by (auto simp: rbind_eq_Inl split: list.splits dest: v m)
  next
    case 3
    have v: "p_value n (Suc dep) t \<noteq> Inl Out_of_fuel"
      using Suc.IH(1) 3 by simp
    have m: "p_elems n dep out r2 \<noteq> Inl Out_of_fuel"
      if "p_value n (Suc dep) t = Inr (w, r1)" "space r1 = e # r2" for w r1 e r2 out
      using Suc.IH(3) 3 that by (auto dest!: token_lengths p_length(1))
    show ?case using v
      by (auto simp: rbind_eq_Inl split: list.splits dest: m)
  }
qed simp_all

lemma parse_text_fuel: "parse_text t \<noteq> Inl Out_of_fuel"
  using p_enough_fuel(1) [of t "2 * length t + 2" 0] by (auto simp: parse_text_def rbind_eq_Inl)

lemma parse_fuel: "parse_proof_json bs \<noteq> Inl Out_of_fuel"
  using parse_text_fuel by (simp add: parse_proof_json_def split: option.split)

section \<open>What a parsed value is\<close>

lemma p_number_value: "p_number t = Inr (v, r) \<Longrightarrow> proof_value v \<and> depth v = 0"
  by (auto simp: p_number_def Let_def split: option.splits if_splits)

lemma p_word_value: "p_word t = Inr (v, r) \<Longrightarrow> proof_value v \<and> depth v = 0"
  by (auto simp: p_word_def split: if_splits)

definition good_at :: "nat \<Rightarrow> json \<Rightarrow> bool" where
  "good_at dep v = (proof_value v \<and> dep + depth v \<le> 64)"

lemma good_at_arr: "dep \<le> 64 \<Longrightarrow> \<forall>v \<in> set vs. good_at (Suc dep) v \<Longrightarrow> good_at dep (JArr vs)"
proof -
  assume d: "dep \<le> 64" and g: "\<forall>v \<in> set vs. good_at (Suc dep) v"
  show ?thesis
  proof (cases "vs = []")
    case False
    then have "Max (depth ` set vs) \<in> depth ` set vs" by (intro Max_in) auto
    then obtain w where "w \<in> set vs" "depth w = Max (depth ` set vs)" by auto
    with g have "Suc dep + Max (depth ` set vs) \<le> 64" by (auto simp: good_at_def)
    then show ?thesis using g False by (auto simp: good_at_def)
  qed (use d in \<open>simp add: good_at_def\<close>)
qed

lemma good_at_obj:
  "dep \<le> 64 \<Longrightarrow> distinct (map fst ms) \<Longrightarrow> \<forall>m \<in> set ms. good_at (Suc dep) (snd m) \<Longrightarrow> good_at dep (JObj ms)"
proof -
  assume d: "dep \<le> 64" "distinct (map fst ms)" and g: "\<forall>m \<in> set ms. good_at (Suc dep) (snd m)"
  show ?thesis
  proof (cases "ms = []")
    case False
    then have "Max (depth ` snd ` set ms) \<in> depth ` snd ` set ms" by (intro Max_in) auto
    then obtain m where "m \<in> set ms" "depth (snd m) = Max (depth ` snd ` set ms)" by auto
    with g have "Suc dep + Max (depth ` snd ` set ms) \<le> 64" by (auto simp: good_at_def)
    then show ?thesis using g d(2) False by (auto simp: good_at_def)
  qed (use d in \<open>simp add: good_at_def\<close>)
qed

lemma p_good:
  "p_value n dep t = Inr (v, r) \<Longrightarrow> good_at dep v"
  "p_members n dep ms t = Inr (v, r) \<Longrightarrow> dep \<le> 64 \<Longrightarrow> distinct (map fst ms) \<Longrightarrow>
   \<forall>m \<in> set ms. good_at (Suc dep) (snd m) \<Longrightarrow> good_at dep v"
  "p_elems n dep vs t = Inr (v, r) \<Longrightarrow> dep \<le> 64 \<Longrightarrow> \<forall>v \<in> set vs. good_at (Suc dep) v \<Longrightarrow> good_at dep v"
proof (induction n arbitrary: dep t v r ms vs)
  case (Suc n)
  {
    case 1
    then show ?case
    proof (cases rule: p_value_SucE)
      case (members s)
      then show ?thesis using Suc.IH(2) [of dep "[]"] by simp
    next
      case (elems s)
      then show ?thesis using Suc.IH(3) [of dep "[]"] by simp
    next
      case number
      then show ?thesis using p_number_value by (auto simp: good_at_def)
    next
      case word
      then show ?thesis using p_word_value by (auto simp: good_at_def)
    qed (simp_all add: good_at_def)
  next
    case 2
    from 2(1) show ?case
    proof (cases rule: p_members_SucE)
      case (1 s key r1 r2 w r3)
      from Suc.IH(1) [OF 1(5)] have "good_at (Suc dep) w" .
      with 1(3) 2 have a: "distinct (map fst (ms @ [(key, w)]))" "\<forall>m \<in> set (ms @ [(key, w)]). good_at (Suc dep) (snd m)"
        by auto
      show ?thesis using 1(6) Suc.IH(2) [OF _ 2(2) a] good_at_obj [OF 2(2) a] by blast
    qed
  next
    case 3
    from 3(1) show ?case
    proof (cases rule: p_elems_SucE)
      case (1 w r1)
      from Suc.IH(1) [OF 1(1)] have "good_at (Suc dep) w" .
      with 3 have a: "\<forall>v \<in> set (vs @ [w]). good_at (Suc dep) v" by auto
      show ?thesis using 1(2) Suc.IH(3) [OF _ 3(2) a] good_at_arr [OF 3(2) a] by blast
    qed
  }
qed simp_all

lemma parse_text_good: "parse_text t = Inr v \<Longrightarrow> proof_value v \<and> depth v \<le> 64"
  by (auto simp: parse_text_def good_at_def split: if_splits dest: p_good(1)
      simp del: p_value.simps)

lemma parse_good: "parse_proof_json bs = Inr v \<Longrightarrow> proof_value v \<and> depth v \<le> 64"
  by (auto simp: parse_proof_json_def parse_text_good split: if_splits option.splits)

text \<open>C18. The reader answers on every input, and what it accepts is fit to be signed over: no fuel is exhausted, and a
  value it returns has distinct member names, only integers within 2^53 - 1, and at most 64 levels of nesting.\<close>

theorem parse_proof_json_total:
  "case parse_proof_json bs of Inr v \<Rightarrow> proof_value v \<and> depth v \<le> 64 | Inl e \<Rightarrow> e \<noteq> Out_of_fuel"
  using parse_good [of bs] parse_fuel [of bs] by (auto split: sum.split)

end
