(* ===== verification/Json_Canonical.thy ===== *)
theory Json_Canonical
  imports Json
begin

text \<open>
  The parser of \<open>json.ts\<close> against the serializer of \<open>jcs.ts\<close>: a canonical text is read back as the
  value it was written from, members sorted. So the canonical bytes a signature covers determine
  the signed value, whatever order its members had.
\<close>

declare p_value.simps [simp del] p_members.simps [simp del] p_elems.simps [simp del]

section \<open>Strings\<close>

lemma hex_val_digit [simp]: "n < 16 \<Longrightarrow> hex_val (hex_digit n) = Some n"
  by (auto simp: hex_val_def hex_digit_def Let_def simp del: of_nat_add)

lemma unat16_less: "unat (u :: 16 word) < 65536"
  using unsigned_less [of u] by simp

lemma hex4_split: "(n :: nat) < 65536 \<Longrightarrow> n div 4096 * 4096 + n div 256 mod 16 * 256 + n div 16 mod 16 * 16 + n mod 16 = n"
proof -
  have "n div 256 = n div 256 div 16 * 16 + n div 256 mod 16" by simp
  moreover have "n div 16 = n div 16 div 16 * 16 + n div 16 mod 16" by simp
  moreover have "n = n div 16 * 16 + n mod 16" by simp
  moreover have "n div 16 div 16 = n div 256" "n div 256 div 16 = n div 4096"
    by (simp_all add: div_mult2_eq [symmetric])
  ultimately show ?thesis by linarith
qed

lemma hex4_u_escape:
  "hex4 (hex_digit (unat u div 4096)) (hex_digit (unat u div 256 mod 16))
     (hex_digit (unat u div 16 mod 16)) (hex_digit (unat u mod 16)) = Some u"
proof -
  have "unat u div 4096 < 16" using unat16_less [of u] by simp
  then show ?thesis
    using hex4_split [OF unat16_less [of u]] by (simp add: hex4_def del: of_nat_add of_nat_mult)
qed

lemma surrogate_ge: "high_surrogate u \<Longrightarrow> 128 \<le> unat u" "low_surrogate u \<Longrightarrow> 128 \<le> unat u"
  by (simp_all add: high_surrogate_def low_surrogate_def)

lemma quote_unit_cases:
  obtains (short) "u \<in> {34, 92, 8, 12, 10, 13, 9}"
  | (escaped) "quote_unit u = u_escape u"
  | (plain) "quote_unit u = [u]" "u \<noteq> 34" "u \<noteq> 92" "\<not> unat u < 32" "\<not> high_surrogate u" "\<not> low_surrogate u"
proof (cases "u \<in> {34, 92, 8, 12, 10, 13, 9}")
  case False
  then show thesis
    by (cases "unat u < 32 \<or> high_surrogate u \<or> low_surrogate u")
      (auto intro: plain escaped simp: quote_unit_def)
qed (rule short)

lemma unescape_quote_unit: "unescape (quote_unit u @ r) = map_option (Cons u) (unescape r)"
proof (cases u rule: quote_unit_cases)
  case short
  then show ?thesis by (auto simp: quote_unit_def simple_escape_def)
next
  case escaped
  then show ?thesis by (simp add: u_escape_def hex4_u_escape)
qed auto

lemma unescape_plain: "high_surrogate u \<or> low_surrogate u \<Longrightarrow> unescape (u # r) = map_option (Cons u) (unescape r)"
proof -
  assume "high_surrogate u \<or> low_surrogate u"
  then have "128 \<le> unat u" by (auto dest: surrogate_ge)
  then have "u \<noteq> 92" "u \<noteq> 34" "\<not> unat u < 32" by auto
  then show ?thesis by simp
qed

lemma unescape_quote_body: "unescape (quote_body s) = Some s"
proof (induction s rule: quote_body.induct)
  case (2 u)
  show ?case using unescape_quote_unit [of u "[]"] by simp
next
  case (3 u v r)
  then show ?case by (simp add: unescape_quote_unit unescape_plain del: unescape.simps(2))
qed simp

lemma hex_digit_plain: "n < 16 \<Longrightarrow> hex_digit n \<noteq> 34 \<and> hex_digit n \<noteq> 92"
proof -
  assume "n < 16"
  then have "hex_val (hex_digit n) \<noteq> None" by simp
  then show ?thesis by (auto simp: hex_val_def)
qed

lemma scan_quote_unit:
  "scan_string (quote_unit u @ r) = map_option (\<lambda>(raw, rest). (quote_unit u @ raw, rest)) (scan_string r)"
proof -
  have h: "hex_digit (unat u div 4096) \<noteq> 34" "hex_digit (unat u div 4096) \<noteq> 92"
    "hex_digit (unat u div 256 mod 16) \<noteq> 34" "hex_digit (unat u div 256 mod 16) \<noteq> 92"
    "hex_digit (unat u div 16 mod 16) \<noteq> 34" "hex_digit (unat u div 16 mod 16) \<noteq> 92"
    "hex_digit (unat u mod 16) \<noteq> 34" "hex_digit (unat u mod 16) \<noteq> 92"
    using unat16_less [of u] hex_digit_plain by simp_all
  show ?thesis
  proof (cases u rule: quote_unit_cases)
    case short
    then show ?thesis by (auto simp: quote_unit_def option.map_comp o_def split_beta)
  next
    case escaped
    then show ?thesis using h by (cases "scan_string r") (auto simp: u_escape_def)
  qed simp
qed

lemma scan_plain: "high_surrogate u \<or> low_surrogate u \<Longrightarrow>
  scan_string (u # r) = map_option (\<lambda>(raw, rest). (u # raw, rest)) (scan_string r)"
proof -
  assume "high_surrogate u \<or> low_surrogate u"
  then have "128 \<le> unat u" by (auto dest: surrogate_ge)
  then have "u \<noteq> 92" "u \<noteq> 34" by auto
  then show ?thesis by simp
qed

lemma scan_quote_body: "scan_string (quote_body s @ 34 # r) = Some (quote_body s, r)"
proof (induction s rule: quote_body.induct)
  case (2 u)
  show ?case by (simp add: scan_quote_unit)
next
  case (3 u v t)
  then show ?case by (simp add: scan_quote_unit scan_plain del: scan_string.simps(2))
qed simp

lemma p_string_quote: "p_string (quote_body s @ 34 # r) = Inr (s, r)"
  by (simp add: p_string_def scan_quote_body unescape_quote_body)

interpretation json_string: stream_codec quote
  "\<lambda>t. case t of [] \<Rightarrow> None | c # r \<Rightarrow> (if c = 34 then (case p_string r of Inl _ \<Rightarrow> None | Inr x \<Rightarrow> Some x) else None)"
  "\<lambda>_. True"
  by unfold_locales (simp add: quote_def p_string_quote)

section \<open>Numbers\<close>

definition stop :: "jsstr \<Rightarrow> bool" where
  "stop r = (case r of [] \<Rightarrow> True | u # _ \<Rightarrow> u = 44 \<or> u = 93 \<or> u = 125)"

lemma digit_of_nat: "n < 10 \<Longrightarrow> unat (of_nat (48 + n) :: 16 word) = 48 + n"
  by (rule unit_of_nat) simp

lemma nat_text_digits: "\<forall>u \<in> set (nat_text n). is_digit u"
proof (induction n rule: nat_text.induct)
  case (1 n)
  have "is_digit (of_nat (48 + n mod 10))" by (simp add: is_digit_def digit_of_nat del: of_nat_add)
  moreover have "n < 10 \<Longrightarrow> is_digit (of_nat (48 + n))" by (simp add: is_digit_def digit_of_nat del: of_nat_add)
  ultimately show ?case using 1 by (subst nat_text.simps) (auto simp del: of_nat_add)
qed

lemma nat_text_nonempty [simp]: "nat_text n \<noteq> []"
  by (subst nat_text.simps) simp

lemma digits_val_snoc: "digits_val (ds @ [u]) = digits_val ds * 10 + (unat u - 48)"
  by (simp add: digits_val_def)

lemma digits_val_nat_text: "digits_val (nat_text n) = n"
proof (induction n rule: nat_text.induct)
  case (1 n)
  show ?case
  proof (cases "n < 10")
    case True
    then show ?thesis by (subst nat_text.simps) (simp add: digits_val_def digit_of_nat del: of_nat_add)
  next
    case False
    then show ?thesis using 1
      by (subst nat_text.simps) (simp add: digits_val_snoc digit_of_nat del: of_nat_add)
  qed
qed

lemma nat_text_zero: "hd (nat_text n) = 48 \<longleftrightarrow> n = 0"
proof (induction n rule: nat_text.induct)
  case (1 n)
  show ?case
  proof (cases "n < 10")
    case True
    have "(of_nat (48 + n) :: 16 word) = 48 \<longleftrightarrow> n = 0"
    proof
      assume "(of_nat (48 + n) :: 16 word) = 48"
      then have "unat (of_nat (48 + n) :: 16 word) = unat (48 :: 16 word)" by (rule arg_cong)
      then show "n = 0" unfolding digit_of_nat [OF True] by simp
    qed simp
    with True show ?thesis by (subst nat_text.simps) (simp del: of_nat_add)
  next
    case False
    then show ?thesis using 1 by (subst nat_text.simps) (simp add: div_eq_0_iff)
  qed
qed

lemma takeWhile_stop: "\<forall>u \<in> set ds. is_digit u \<Longrightarrow> stop r \<Longrightarrow>
  takeWhile is_digit (ds @ r) = ds \<and> dropWhile is_digit (ds @ r) = r"
proof -
  assume d: "\<forall>u \<in> set ds. is_digit u" and s: "stop r"
  have "takeWhile is_digit r = []" "dropWhile is_digit r = r"
    using s by (auto simp: stop_def is_digit_def split: list.splits)
  then show ?thesis using d by (simp add: takeWhile_append dropWhile_append)
qed

lemma digits_nat_text: "stop r \<Longrightarrow> digits (nat_text n @ r) = Some (nat_text n, r)"
proof -
  assume s: "stop r"
  obtain u t where t: "nat_text n = u # t" by (cases "nat_text n") auto
  have u: "is_digit u" using nat_text_digits [of n] by (simp add: t)
  show ?thesis
  proof (cases "n = 0")
    case True
    then have "nat_text n = [48]" by (subst nat_text.simps) simp
    then show ?thesis by (simp add: digits_def)
  next
    case False
    then have "u \<noteq> 48" using nat_text_zero [of n] by (simp add: t)
    moreover have "takeWhile is_digit (nat_text n @ r) = nat_text n \<and> dropWhile is_digit (nat_text n @ r) = r"
      by (rule takeWhile_stop [OF nat_text_digits s])
    ultimately show ?thesis using u by (simp add: digits_def t)
  qed
qed

lemma p_number_int_text: "safe_int i \<Longrightarrow> stop r \<Longrightarrow> p_number (int_text i @ r) = Inr (JNum (NInt i), r)"
proof -
  assume i: "safe_int i" and s: "stop r"
  have n: "\<not> has_fraction r" "\<not> has_exponent r"
    using s by (auto simp: stop_def has_fraction_def has_exponent_def split: list.splits)
  obtain u t where t: "nat_text (nat i) = u # t" by (cases "nat_text (nat i)") auto
  have u: "u \<noteq> 45" using nat_text_digits [of "nat i"] by (auto simp: t is_digit_def)
  show ?thesis
  proof (cases "i < 0")
    case True
    then show ?thesis using i n digits_nat_text [OF s, of "nat (- i)"]
      by (simp add: p_number_def int_text_def digits_val_nat_text)
  next
    case False
    then have "int_text i @ r = u # t @ r" by (simp add: int_text_def t)
    moreover have "digits (u # t @ r) = Some (nat_text (nat i), r)"
      using digits_nat_text [OF s, of "nat i"] by (simp add: t)
    ultimately show ?thesis using False i n u
      by (simp add: p_number_def digits_val_nat_text)
  qed
qed

section \<open>Values\<close>

lemma stop_simps [simp]: "stop []" "stop (44 # r)" "stop (93 # r)" "stop (125 # r)"
  by (simp_all add: stop_def)

lemma space_plain: "\<not> is_space u \<Longrightarrow> space (u # r) = u # r"
  by (simp add: space_def)

lemma space_stop [simp]: "space (44 # r) = 44 # r" "space (93 # r) = 93 # r" "space (125 # r) = 125 # r"
  "space (58 # r) = 58 # r" "space (34 # r) = 34 # r" "space (123 # r) = 123 # r" "space (91 # r) = 91 # r"
  by (simp_all add: space_def is_space_def)

lemma space_Nil [simp]: "space [] = []"
  by (simp add: space_def)

lemma js_words: "js ''true'' = [116, 114, 117, 101]" "js ''false'' = [102, 97, 108, 115, 101]"
  "js ''null'' = [110, 117, 108, 108]"
  by (simp_all add: js_def of_char_Char)

text \<open>The first character of a serialized value says which production reads it.\<close>

lemma int_text_head: "\<exists>u t. int_text i = u # t \<and> (u = 45 \<or> is_digit u)"
proof -
  obtain u t where t: "nat_text (nat i) = u # t" by (cases "nat_text (nat i)") auto
  have "is_digit u" using nat_text_digits [of "nat i"] by (simp add: t)
  then show ?thesis using t by (auto simp: int_text_def)
qed

lemma digit_head: "u = 45 \<or> is_digit u \<Longrightarrow> \<not> is_space u \<and> u \<notin> {123, 91, 34, 93, 125} \<and> unat u < 128"
  by (auto simp: is_digit_def is_space_def)

lemma serialize_head:
  "proof_value v \<Longrightarrow> \<exists>u t. serialize v = u # t \<and> \<not> is_space u \<and> u \<noteq> 93 \<and> u \<noteq> 125 \<and> unat u < 128"
proof (cases v)
  case (JNum n)
  moreover assume "proof_value v"
  ultimately obtain i where i: "v = JNum (NInt i)" by (auto split: jnum.splits)
  show ?thesis using int_text_head [of i] digit_head by (fastforce simp: i)
qed (auto simp: js_words is_space_def quote_def)

lemma p_elems_join:
  assumes v: "\<And>v n r. v \<in> set vs \<Longrightarrow> stop r \<Longrightarrow> 2 * length (serialize v) < n \<Longrightarrow>
      p_value n (Suc dep) (serialize v @ r) = Inr (canon v, r)"
    and "vs \<noteq> []" "2 * length (join (map serialize vs)) + 1 < n"
  shows "p_elems n dep out (join (map serialize vs) @ 93 # r) = Inr (JArr (out @ map canon vs), r)"
  using assms
proof (induction vs arbitrary: n out)
  case (Cons w ws)
  then obtain m where n: "n = Suc m" by (cases n) auto
  show ?case
  proof (cases ws)
    case Nil
    have "p_value m (Suc dep) (serialize w @ 93 # r) = Inr (canon w, 93 # r)"
      using Cons.prems(1) [of w "93 # r" m] Cons.prems(3) by (simp add: n Nil)
    then show ?thesis by (simp add: n Nil p_elems.simps)
  next
    case (Cons x xs)
    have "p_value m (Suc dep) (serialize w @ 44 # join (map serialize ws) @ 93 # r) =
        Inr (canon w, 44 # join (map serialize ws) @ 93 # r)"
      using Cons.prems(1) [of w _ m] Cons.prems(3) by (simp add: n Cons)
    moreover have "p_elems m dep (out @ [canon w]) (join (map serialize ws) @ 93 # r) =
        Inr (JArr ((out @ [canon w]) @ map canon ws), r)"
      using Cons.prems by (intro Cons.IH) (auto simp: n Cons)
    ultimately show ?thesis by (simp add: n Cons p_elems.simps)
  qed
qed simp

definition member_text :: "jsstr \<times> json \<Rightarrow> jsstr" where
  "member_text m = quote (fst m) @ 58 # serialize (snd m)"

lemma p_members_join:
  assumes v: "\<And>m n r. m \<in> set ms \<Longrightarrow> stop r \<Longrightarrow> 2 * length (serialize (snd m)) < n \<Longrightarrow>
      p_value n (Suc dep) (serialize (snd m) @ r) = Inr (canon (snd m), r)"
    and "ms \<noteq> []" "2 * length (join (map member_text ms)) + 1 < n"
    and "distinct (map fst out @ map fst ms)"
  shows "p_members n dep out (join (map member_text ms) @ 125 # r) =
    Inr (JObj (out @ map (\<lambda>(k, v). (k, canon v)) ms), r)"
  using assms
proof (induction ms arbitrary: n out)
  case (Cons m ms)
  then obtain i where n: "n = Suc i" by (cases n) auto
  obtain k w where m: "m = (k, w)" by (cases m)
  have k: "k \<notin> set (map fst out)" using Cons.prems(4) by (auto simp: m)
  show ?case
  proof (cases ms)
    case Nil
    have "p_value i (Suc dep) (serialize w @ 125 # r) = Inr (canon w, 125 # r)"
      using Cons.prems(1) [of m "125 # r" i] Cons.prems(3) by (simp add: n Nil m member_text_def)
    then show ?thesis using k
      by (simp add: n Nil m member_text_def p_members.simps quote_def p_string_quote)
  next
    case (Cons x xs)
    have "p_value i (Suc dep) (serialize w @ 44 # join (map member_text ms) @ 125 # r) =
        Inr (canon w, 44 # join (map member_text ms) @ 125 # r)"
      using Cons.prems(1) [of m _ i] Cons.prems(3) by (simp add: n Cons m member_text_def)
    moreover have "p_members i dep (out @ [(k, canon w)]) (join (map member_text ms) @ 125 # r) =
        Inr (JObj ((out @ [(k, canon w)]) @ map (\<lambda>(k, v). (k, canon v)) ms), r)"
      using Cons.prems by (intro Cons.IH) (auto simp: n Cons m)
    ultimately show ?thesis using k
      by (simp add: n Cons m member_text_def [of "(k, w)"] p_members.simps quote_def p_string_quote)
  qed
qed simp

lemma serialize_obj: "serialize (JObj ms) = 123 # join (map member_text (sort_key fst ms)) @ [125]"
  by (simp add: member_text_def [abs_def] case_prod_unfold)

lemma p_value_obj:
  assumes "\<And>m n r. m \<in> set ms \<Longrightarrow> stop r \<Longrightarrow> 2 * length (serialize (snd m)) < n \<Longrightarrow>
      p_value n (Suc dep) (serialize (snd m) @ r) = Inr (canon (snd m), r)"
    and "distinct (map fst ms)" "dep \<le> 64" "2 * length (serialize (JObj ms)) < n"
  shows "p_value n dep (serialize (JObj ms) @ r) = Inr (canon (JObj ms), r)"
proof -
  obtain i where n: "n = Suc i" using assms(4) by (cases n) auto
  let ?ms = "sort_key fst ms"
  have d: "distinct (map fst ?ms)" using assms(2) distinct_map_mset [of ?ms ms fst] by simp
  show ?thesis
  proof (cases "ms = []")
    case True
    then show ?thesis using assms(3) by (simp add: n p_value.simps)
  next
    case False
    then obtain m ms' where ms: "?ms = m # ms'" by (cases ?ms) (auto dest: arg_cong [where f = length])
    then have "\<exists>t. join (map member_text ?ms) = 34 # t"
      by (cases ms') (auto simp: member_text_def quote_def)
    then obtain t where t: "join (map member_text ?ms) = 34 # t" ..
    have l: "2 * length (join (map member_text ?ms)) + 1 < i"
      using assms(4) by (simp add: n serialize_obj del: serialize.simps)
    have "p_members i dep [] (join (map member_text ?ms) @ 125 # r) =
        Inr (JObj ([] @ map (\<lambda>(k, v). (k, canon v)) ?ms), r)"
    proof (rule p_members_join [OF _ _ l])
      show "?ms \<noteq> []" by (simp add: ms)
      show "distinct (map fst [] @ map fst ?ms)" using d by simp
    qed (use assms(1) in simp)
    then show ?thesis using assms(3) by (simp add: n p_value.simps serialize_obj t del: serialize.simps)
  qed
qed

lemma p_value_arr:
  assumes "\<And>v n r. v \<in> set vs \<Longrightarrow> stop r \<Longrightarrow> 2 * length (serialize v) < n \<Longrightarrow>
      p_value n (Suc dep) (serialize v @ r) = Inr (canon v, r)"
    and "\<forall>v \<in> set vs. proof_value v" "dep \<le> 64" "2 * length (serialize (JArr vs)) < n"
  shows "p_value n dep (serialize (JArr vs) @ r) = Inr (canon (JArr vs), r)"
proof -
  obtain i where n: "n = Suc i" using assms(4) by (cases n) auto
  show ?thesis
  proof (cases vs)
    case Nil
    then show ?thesis using assms(3) by (simp add: n p_value.simps)
  next
    case (Cons w ws)
    then obtain u t where u: "serialize w = u # t" "\<not> is_space u" "u \<noteq> 93"
      using assms(2) serialize_head [of w] by auto
    then have "\<exists>t. join (map serialize vs) = u # t" by (cases ws) (auto simp: Cons)
    then obtain t where t: "join (map serialize vs) = u # t" ..
    have "p_elems i dep [] (join (map serialize vs) @ 93 # r) = Inr (JArr ([] @ map canon vs), r)"
      using assms by (intro p_elems_join) (auto simp: n Cons)
    then show ?thesis using assms(3) u(2,3) by (simp add: n p_value.simps t space_plain)
  qed
qed

lemma p_value_serialize:
  "proof_value v \<Longrightarrow> dep + depth v \<le> 64 \<Longrightarrow> stop r \<Longrightarrow> 2 * length (serialize v) < n \<Longrightarrow>
   p_value n dep (serialize v @ r) = Inr (canon v, r)"
proof (induction v arbitrary: n dep r rule: serialize.induct)
  case (4 x)
  then obtain i where x: "x = NInt i" "safe_int i" by (auto split: jnum.splits)
  obtain u t where t: "int_text i = u # t" "u = 45 \<or> is_digit u" using int_text_head by blast
  have "p_number ((u # t) @ r) = Inr (JNum (NInt i), r)"
    unfolding t(1) [symmetric] by (rule p_number_int_text [OF x(2) 4(3)])
  moreover from digit_head [OF t(2)] have "\<not> is_space u" "u \<notin> {123, 91, 34, 93, 125}" by simp_all
  moreover obtain m where "n = Suc m" using 4(4) by (cases n) auto
  ultimately show ?case using 4(2) t by (simp add: x p_value.simps space_plain)
next
  case (5 vs)
  then show ?case
  proof (intro p_value_arr)
    fix w m q
    assume w: "w \<in> set vs" "stop q" "2 * length (serialize w) < m"
    then show "p_value m (Suc dep) (serialize w @ q) = Inr (canon w, q)"
      using 5 depth_elem [OF w(1)] by simp
  qed auto
next
  case (6 ms)
  show ?case
  proof (rule p_value_obj)
    fix x m q
    assume w: "x \<in> set ms" "stop q" "2 * length (serialize (snd x)) < m"
    obtain k y where x: "x = (k, y)" by (cases x)
    have "x \<in> set (sort_key fst ms)" using w(1) by simp
    have "Suc dep + depth y \<le> 64" using depth_member [OF w(1)] 6(3) unfolding x by simp
    moreover have "proof_value y" using 6(2) w(1) by (auto simp: x)
    ultimately show "p_value m (Suc dep) (serialize (snd x) @ q) = Inr (canon (snd x), q)"
      using 6(1) [OF \<open>x \<in> set (sort_key fst ms)\<close> x [symmetric]] w(2,3) by (simp add: x)
  qed (use 6 in auto)
next
  case 1
  then obtain m where "n = Suc m" by (cases n) auto
  with 1 show ?case by (simp add: js_words p_value.simps space_plain is_space_def is_digit_def p_word_def)
next
  case (2 b)
  then obtain m where "n = Suc m" by (cases n) auto
  with 2 show ?case by (simp add: js_words p_value.simps space_plain is_space_def is_digit_def p_word_def)
next
  case (3 s)
  then obtain m where "n = Suc m" by (cases n) (auto simp: quote_def)
  with 3 show ?case by (simp add: quote_def p_value.simps p_string_quote)
qed

section \<open>The bytes of a canonical text\<close>

definition surrogate :: "16 word \<Rightarrow> bool" where
  "surrogate u = (high_surrogate u \<or> low_surrogate u)"

lemma surrogate_small [simp]: "unat u < 128 \<Longrightarrow> \<not> surrogate u"
  by (auto simp: surrogate_def dest: surrogate_ge)

lemma high_low_small [simp]: "unat u < 128 \<Longrightarrow> \<not> high_surrogate u" "unat u < 128 \<Longrightarrow> \<not> low_surrogate u"
  by (auto dest: surrogate_ge)

lemma well_formed_Cons: "\<not> surrogate u \<Longrightarrow> well_formed (u # t) = well_formed t"
  by (cases t) (auto simp: surrogate_def)

lemma well_formed_append: "well_formed a \<Longrightarrow> well_formed b \<Longrightarrow> well_formed (a @ b)"
proof (induction a rule: well_formed.induct)
  case (2 u)
  then show ?case using well_formed_Cons [of u b] by (simp add: surrogate_def)
next
  case (3 u v r)
  show ?case
  proof (cases "high_surrogate u \<and> low_surrogate v")
    case False
    with 3 have "\<not> surrogate u" "well_formed ((v # r) @ b)" by (auto simp: surrogate_def)
    then show ?thesis using well_formed_Cons [of u "(v # r) @ b"] by simp
  qed (use 3 in simp)
qed simp

lemma well_formed_plain: "\<forall>u \<in> set t. \<not> surrogate u \<Longrightarrow> well_formed t"
  by (induction t) (simp_all add: well_formed_Cons)

lemma hex_digit_small [simp]: "n < 16 \<Longrightarrow> unat (hex_digit n) < 128"
  by (auto simp: hex_digit_def simp del: of_nat_add)

lemma quote_unit_plain: "\<forall>x \<in> set (quote_unit u). \<not> surrogate x"
proof (cases u rule: quote_unit_cases)
  case escaped
  have "unat u div 4096 < 16" using unat16_less [of u] by simp
  then show ?thesis unfolding escaped by (simp add: u_escape_def)
next
  case plain
  then show ?thesis by (simp add: surrogate_def)
next
  case short
  then show ?thesis by (auto simp: quote_unit_def)
qed

lemma well_formed_quote_body: "well_formed (quote_body s)"
proof (induction s rule: quote_body.induct)
  case (2 u)
  show ?case by (simp add: well_formed_plain quote_unit_plain)
next
  case (3 u v r)
  then show ?case by (simp add: well_formed_append well_formed_plain quote_unit_plain)
qed simp

lemma well_formed_quote: "well_formed (quote s)"
  using well_formed_append [OF well_formed_quote_body, of "[34]" s]
  by (simp add: quote_def well_formed_Cons)

lemma well_formed_join: "\<forall>x \<in> set xs. well_formed x \<Longrightarrow> well_formed (join xs)"
  by (induction xs rule: join.induct) (auto simp: well_formed_Cons intro!: well_formed_append)

lemma digit_plain: "is_digit u \<Longrightarrow> \<not> surrogate u"
  by (rule surrogate_small) (simp add: is_digit_def)

lemma well_formed_int_text: "well_formed (int_text i)"
proof -
  have "well_formed (nat_text n)" for n
    using nat_text_digits [of n] by (intro well_formed_plain) (auto simp: digit_plain)
  then show ?thesis by (simp add: int_text_def well_formed_Cons)
qed

lemma well_formed_serialize: "proof_value v \<Longrightarrow> well_formed (serialize v)"
proof (induction v rule: serialize.induct)
  case (4 x)
  then show ?case by (auto simp: well_formed_int_text split: jnum.splits)
next
  case (5 vs)
  then have "well_formed (join (map serialize vs))" by (intro well_formed_join) auto
  then have "well_formed (join (map serialize vs) @ [93])" by (rule well_formed_append) simp
  then show ?case by (simp add: well_formed_Cons)
next
  case (6 ms)
  have "well_formed (member_text m)" if m: "m \<in> set (sort_key fst ms)" for m
  proof -
    obtain k y where x: "(k, y) = m" by (cases m) auto
    have "well_formed (serialize y)" using 6(1) [OF m x] 6(2) m by (auto simp flip: x)
    then have "well_formed (58 # serialize y)" by (simp add: well_formed_Cons)
    then show ?thesis using well_formed_append [OF well_formed_quote] by (simp add: member_text_def flip: x)
  qed
  then have "well_formed (join (map member_text (sort_key fst ms)))"
    by (intro well_formed_join) auto
  then have "well_formed (join (map member_text (sort_key fst ms)) @ [125])" by (rule well_formed_append) simp
  then show ?case by (simp add: serialize_obj well_formed_Cons del: serialize.simps)
qed (auto simp: js_words well_formed_quote intro!: well_formed_plain)

lemma utf8_no_bom:
  assumes "unat u < 128"
  shows "take 3 (utf8_encode (u # t)) \<noteq> [0xEF, 0xBB, 0xBF]"
proof -
  have p: "\<not> high_surrogate u" "\<not> low_surrogate u" using surrogate_small [OF assms] by (simp_all add: surrogate_def)
  then have "\<exists>cs. code_points (u # t) = unat u # cs" by (cases t) auto
  then obtain cs where "code_points (u # t) = unat u # cs" ..
  then have u: "utf8_encode (u # t) = of_nat (unat u) # concat (map cp_bytes cs)"
    using assms by (simp add: utf8_encode_def cp_bytes_def)
  have n: "(of_nat (unat u) :: byte) \<noteq> 0xEF"
  proof
    assume "(of_nat (unat u) :: byte) = 0xEF"
    then have "unat (of_nat (unat u) :: byte) = unat (0xEF :: byte)" by (rule arg_cong)
    moreover have "unat (of_nat (unat u) :: byte) = unat u" by (rule byte_unat) (use assms in simp)
    ultimately show False using assms by simp
  qed
  define b where "b = (of_nat (unat u) :: byte)"
  show ?thesis using n unfolding u b_def [symmetric] by (simp add: numeral_3_eq_3)
qed

lemma text_decode_encode:
  "well_formed (u # t) \<Longrightarrow> unat u < 128 \<Longrightarrow> text_decode (utf8_encode (u # t)) = Some (u # t)"
  using utf8_no_bom [of u t] by (simp add: text_decode_def utf8_decode_encode)

lemma parse_serialize:
  assumes "proof_value v" "depth v \<le> 64"
  shows "parse_proof_json (utf8_encode (serialize v)) = Inr (canon v)"
proof -
  obtain u t where u: "serialize v = u # t" "unat u < 128" using serialize_head [OF assms(1)] by blast
  have "well_formed (u # t)" using well_formed_serialize [OF assms(1)] by (simp add: u)
  from text_decode_encode [OF this u(2)] utf8_no_bom [OF u(2)]
  have "parse_proof_json (utf8_encode (serialize v)) = parse_text (serialize v)"
    by (simp add: parse_proof_json_def u)
  also have "\<dots> = Inr (canon v)"
    using p_value_serialize [of v 0 "[]" "2 * length (serialize v) + 2"] assms by (simp add: parse_text_def)
  finally show ?thesis .
qed

interpretation proof_json: codec "\<lambda>v. utf8_encode (serialize v)"
  "\<lambda>bs. case parse_proof_json bs of Inr v \<Rightarrow> Some v | Inl _ \<Rightarrow> None"
  "\<lambda>v. proof_value v \<and> depth v \<le> 64 \<and> canon v = v"
  by unfold_locales (simp add: parse_serialize)

section \<open>Sorted form\<close>

lemma map_sort_key: "map (\<lambda>(k, v). (k, f v)) (sort_key fst ms) = sort_key fst (map (\<lambda>(k, v). (k, f v)) (sort_key fst ms))"
proof (rule sort_key_id_if_sorted [symmetric])
  have "map fst (map (\<lambda>(k, v). (k, f v)) (sort_key fst ms)) = map fst (sort_key fst ms)"
    by (simp add: case_prod_unfold o_def)
  then show "sorted (map fst (map (\<lambda>(k, v). (k, f v)) (sort_key fst ms)))"
    by (simp only: sorted_sort_key)
qed

lemma serialize_canon: "serialize (canon v) = serialize v"
proof (induction v rule: serialize.induct)
  case (5 vs)
  then have "map serialize (map canon vs) = map serialize vs" by simp
  then show ?case by (simp only: canon.simps serialize.simps)
next
  case (6 ms)
  have "map member_text (map (\<lambda>(k, v). (k, canon v)) (sort_key fst ms)) = map member_text (sort_key fst ms)"
  proof (simp only: map_map, rule map_cong [OF refl])
    fix m
    assume m: "m \<in> set (sort_key fst ms)"
    obtain k y where x: "(k, y) = m" by (cases m) auto
    from 6 [OF m x] show "(member_text \<circ> (\<lambda>(k, v). (k, canon v))) m = member_text m"
      by (simp add: member_text_def flip: x)
  qed
  then have "map member_text (sort_key fst (map (\<lambda>(k, v). (k, canon v)) (sort_key fst ms))) =
      map member_text (sort_key fst ms)"
    by (simp only: map_sort_key [of canon ms, symmetric])
  then show ?case unfolding canon.simps serialize_obj by (simp only:)
qed simp_all

lemma canon_eq_serialize:
  assumes "proof_value v" "depth v \<le> 64" "proof_value w" "depth w \<le> 64"
  shows "serialize v = serialize w \<longleftrightarrow> canon v = canon w"
proof
  assume "serialize v = serialize w"
  then show "canon v = canon w"
    using parse_serialize [OF assms(1,2)] parse_serialize [OF assms(3,4)] by simp
next
  assume "canon v = canon w"
  then show "serialize v = serialize w" by (metis serialize_canon)
qed

lemma jcs_eq_canon:
  assumes "proof_value v" "depth v \<le> 64" "proof_value w" "depth w \<le> 64"
  shows "jcs v = jcs w \<longleftrightarrow> canon v = canon w"
proof -
  have "jcs v = Some (utf8_encode (serialize v))" "jcs w = Some (utf8_encode (serialize w))"
    using proof_value_finite assms by (simp_all add: jcs_def)
  moreover have "utf8_encode (serialize v) = utf8_encode (serialize w) \<longleftrightarrow> serialize v = serialize w"
    using utf8.enc_eq_iff well_formed_serialize assms by blast
  ultimately show ?thesis using canon_eq_serialize [OF assms] by simp
qed

text \<open>C17. Canonical bytes read back: parsing what \<open>jcs\<close> writes gives the value itself, members sorted by name at
  every level. The bytes a core is signed over have exactly one reading.\<close>

theorem parse_jcs:
  assumes "proof_value v" "depth v \<le> 64"
  shows "map_option parse_proof_json (jcs v) = Some (Inr (canon v))"
  using parse_serialize [OF assms] proof_value_finite [OF assms(1)] by (simp add: jcs_def)

theorem parse_jcs_witness:
  "map_option parse_proof_json (jcs (JObj [(js ''b'', JArr [JNum (NInt (- 12)), JNull]), (js ''a'', JStr (js ''x''))]))
    = Some (Inr (canon (JObj [(js ''b'', JArr [JNum (NInt (- 12)), JNull]), (js ''a'', JStr (js ''x''))])))"
  by (rule parse_jcs) (simp_all add: safe_int_def max_safe_def)

end
