(* ===== verification/Trailer.thy ===== *)
theory Trailer
  imports Prelude
begin

text \<open>
  \<open>tools/src/trailer.ts\<close>: the trailer of \<section>3, an ISO-BMFF \<open>free\<close> box around the proof followed by a
  16-byte footer at the very end of the file. The reader, the writer with the overrides the
  corruption vectors use, and the span that is set aside when a footer cannot be used.
  \<open>crc32\<close> is the checksum of \<open>node:zlib\<close> (polynomial 0xEDB88320, reflected).
\<close>

section \<open>CRC-32\<close>

definition crc_bit :: "32 word \<Rightarrow> 32 word" where
  "crc_bit c = (if bit c 0 then drop_bit 1 c XOR 0xEDB88320 else drop_bit 1 c)"

definition crc_byte :: "32 word \<Rightarrow> byte \<Rightarrow> 32 word" where
  "crc_byte c b = (crc_bit ^^ 8) (c XOR ucast b)"

definition crc32 :: "bytes \<Rightarrow> nat" where
  "crc32 bs = unat (NOT (foldl crc_byte 0xFFFFFFFF bs))"

lemma crc32_less: "crc32 bs < 256 ^ 4"
  using unsigned_less [of "NOT (foldl crc_byte 0xFFFFFFFF bs)"] by (simp add: crc32_def)

section \<open>Layout\<close>

definition MAGIC :: bytes where "MAGIC = ascii ''VCAP''"
definition FOOTER_LEN :: nat where "FOOTER_LEN = 16"
definition BOX_HEADER_LEN :: nat where "BOX_HEADER_LEN = 8"

definition flag_sidecar :: nat where "flag_sidecar = 1"
definition flag_segments :: nat where "flag_segments = 2"
definition flag_pseudonymous :: nat where "flag_pseudonymous = 4"

record trailer_options =
  opt_major :: "int option"
  opt_minor :: "int option"
  opt_flags :: "int option"
  opt_crc :: "int option"
  opt_box_type :: "string option"

definition no_options :: trailer_options where
  "no_options = \<lparr>opt_major = None, opt_minor = None, opt_flags = None, opt_crc = None, opt_box_type = None\<rparr>"

definition or_else :: "'a option \<Rightarrow> 'a \<Rightarrow> 'a" where
  "or_else v d = (case v of None \<Rightarrow> d | Some x \<Rightarrow> x)"

lemma or_else_simps [simp]: "or_else None d = d" "or_else (Some x) d = x"
  by (simp_all add: or_else_def)

text \<open>A write past a field's width is a RangeError: the whole call fails.\<close>

definition build_trailer :: "bytes \<Rightarrow> trailer_options \<Rightarrow> bytes option" where
  "build_trailer payload opts = do {
     size \<leftarrow> put_be 4 (int (BOX_HEADER_LEN + length payload + FOOTER_LEN));
     let box = size @ take 4 (ascii (or_else (opt_box_type opts) ''free'') @ [0, 0, 0, 0]);
     major \<leftarrow> put_be 1 (or_else (opt_major opts) 1);
     minor \<leftarrow> put_be 1 (or_else (opt_minor opts) 0);
     flags \<leftarrow> put_be 2 (or_else (opt_flags opts) 0);
     len \<leftarrow> put_be 4 (int (length payload));
     crc \<leftarrow> put_be 4 (or_else (opt_crc opts) (int (crc32 payload)));
     let footer = MAGIC @ major @ minor @ flags @ len @ crc;
     Some (box @ payload @ footer) }"

datatype parsed_trailer = No_trailer | Corrupted_trailer | Unsupported_trailer nat
  | Trailer (tr_payload: bytes) (tr_flags: nat) (tr_minor: nat) (tr_media_end: nat)

definition parse_trailer :: "bytes \<Rightarrow> parsed_trailer" where
  "parse_trailer file =
     (if length file < FOOTER_LEN + BOX_HEADER_LEN then No_trailer
      else let footer = drop (length file - FOOTER_LEN) file in
      if take 4 footer \<noteq> MAGIC then No_trailer
      else let major = be_val (slice footer 4 5) in
      if major \<noteq> 1 then Unsupported_trailer major
      else let payload_len = be_val (slice footer 8 12); total = BOX_HEADER_LEN + payload_len + FOOTER_LEN in
      if total > length file then No_trailer
      else let box_start = length file - total in
      if be_val (slice file box_start (box_start + 4)) \<noteq> total then No_trailer
      else if ascii_text (slice file (box_start + 4) (box_start + 8)) \<noteq> ''free'' then No_trailer
      else let payload = slice file (box_start + BOX_HEADER_LEN) (length file - FOOTER_LEN) in
      if crc32 payload \<noteq> be_val (slice footer 12 16) then Corrupted_trailer
      else Trailer payload (be_val (slice footer 6 8)) (be_val (slice footer 5 6)) box_start)"

definition unreadable_trailer_start :: "bytes \<Rightarrow> nat option" where
  "unreadable_trailer_start file =
     (if length file < FOOTER_LEN then None
      else let footer_start = length file - FOOTER_LEN in
      if slice file footer_start (footer_start + 4) \<noteq> MAGIC then None
      else case parse_trailer file of Trailer _ _ _ _ \<Rightarrow> None
      | _ \<Rightarrow>
        let total = BOX_HEADER_LEN + be_val (slice file (footer_start + 8) (footer_start + 12)) + FOOTER_LEN;
            box_start = length file - total;
            declared = (total \<le> length file
              \<and> be_val (slice file box_start (box_start + 4)) = total
              \<and> ascii_text (slice file (box_start + 4) (box_start + 8)) = ''free'')
        in Some (if declared then box_start else footer_start))"

lemmas trailer_consts = FOOTER_LEN_def BOX_HEADER_LEN_def MAGIC_def

lemma length_MAGIC [simp]: "length MAGIC = 4"
  by (simp add: MAGIC_def)

section \<open>Writing then reading\<close>

text \<open>What the writer lays out when it does not fail, and how each field reads back.\<close>

definition footer_bytes :: "nat \<Rightarrow> nat \<Rightarrow> nat \<Rightarrow> nat \<Rightarrow> nat \<Rightarrow> bytes" where
  "footer_bytes major minor flags len crc =
     MAGIC @ be_bytes 1 major @ be_bytes 1 minor @ be_bytes 2 flags @ be_bytes 4 len @ be_bytes 4 crc"

lemma build_trailer_Some:
  assumes "build_trailer payload opts = Some t"
  obtains ty major minor flags crc where
    "t = be_bytes 4 (24 + length payload) @ ty @ payload @ footer_bytes major minor flags (length payload) crc"
    "ty = take 4 (ascii (or_else (opt_box_type opts) ''free'') @ [0, 0, 0, 0])"
    "or_else (opt_major opts) 1 = int major" "or_else (opt_minor opts) 0 = int minor"
    "or_else (opt_flags opts) 0 = int flags" "or_else (opt_crc opts) (int (crc32 payload)) = int crc"
    "24 + length payload < 256 ^ 4" "major < 256" "minor < 256" "flags < 256 ^ 2" "crc < 256 ^ 4"
proof -
  from assms obtain b1 b2 b3 b4 b5 b6 where b:
    "put_be 4 (int (BOX_HEADER_LEN + length payload + FOOTER_LEN)) = Some b1"
    "put_be 1 (or_else (opt_major opts) 1) = Some b2" "put_be 1 (or_else (opt_minor opts) 0) = Some b3"
    "put_be 2 (or_else (opt_flags opts) 0) = Some b4" "put_be 4 (int (length payload)) = Some b5"
    "put_be 4 (or_else (opt_crc opts) (int (crc32 payload))) = Some b6"
    "t = (b1 @ take 4 (ascii (or_else (opt_box_type opts) ''free'') @ [0, 0, 0, 0])) @ payload
       @ (MAGIC @ b2 @ b3 @ b4 @ b5 @ b6)"
    unfolding build_trailer_def Let_def bind_eq_Some_conv option.inject by blast
  note k = b(1-6) [THEN put_be_nat]
  have s: "BOX_HEADER_LEN + length payload + FOOTER_LEN = 24 + length payload" by (simp add: trailer_consts)
  from k obtain major minor flags crc where c:
    "or_else (opt_major opts) 1 = int major" "or_else (opt_minor opts) 0 = int minor"
    "or_else (opt_flags opts) 0 = int flags" "or_else (opt_crc opts) (int (crc32 payload)) = int crc"
    "major < 256 ^ 1" "minor < 256 ^ 1" "flags < 256 ^ 2" "crc < 256 ^ 4"
    "b2 = be_bytes 1 major" "b3 = be_bytes 1 minor" "b4 = be_bytes 2 flags" "b6 = be_bytes 4 crc"
    by blast
  have d: "b1 = be_bytes 4 (24 + length payload)" "24 + length payload < 256 ^ 4" "b5 = be_bytes 4 (length payload)"
    using k(1,5) unfolding s of_nat_eq_iff by blast+
  show thesis
    by (rule that [OF _ refl c(1-4) d(2)]) (use b(7) c d in \<open>simp_all add: footer_bytes_def\<close>)
qed

lemma length_footer_bytes [simp]: "length (footer_bytes a b c d e) = 16"
  by (simp add: footer_bytes_def)

lemma footer_fields:
  "take 4 (footer_bytes major minor flags len crc) = MAGIC"
  "slice (footer_bytes major minor flags len crc) 4 5 = be_bytes 1 major"
  "slice (footer_bytes major minor flags len crc) 5 6 = be_bytes 1 minor"
  "slice (footer_bytes major minor flags len crc) 6 8 = be_bytes 2 flags"
  "slice (footer_bytes major minor flags len crc) 8 12 = be_bytes 4 len"
  "slice (footer_bytes major minor flags len crc) 12 16 = be_bytes 4 crc"
  by (simp_all add: footer_bytes_def slice_def)

lemma parse_trailer_layout:
  assumes "length ty = 4" "24 + length payload < 256 ^ 4" "minor < 256" "flags < 256 ^ 2" "crc < 256 ^ 4" "major < 256"
  shows "parse_trailer (media @ be_bytes 4 (24 + length payload) @ ty @ payload
      @ footer_bytes major minor flags (length payload) crc) =
    (if major \<noteq> 1 then Unsupported_trailer major
     else if ascii_text ty \<noteq> ''free'' then No_trailer
     else if crc32 payload \<noteq> crc then Corrupted_trailer
     else Trailer payload flags minor (length media))"
proof -
  define foot where "foot = footer_bytes major minor flags (length payload) crc"
  define whole where "whole = media @ be_bytes 4 (24 + length payload) @ ty @ payload @ foot"
  have lf: "length foot = 16" by (simp add: foot_def)
  have l: "length whole = length media + 24 + length payload" using assms(1) by (simp add: whole_def lf)
  have e: "length whole - 16 = length media + 8 + length payload"
    "length whole - (24 + length payload) = length media" using l by simp_all
  have f: "drop (length media + 8 + length payload) whole = foot"
    using assms(1) by (simp add: whole_def lf)
  have h: "slice whole (length media) (length media + 4) = be_bytes 4 (24 + length payload)"
    "slice whole (length media + 4) (length media + 8) = ty"
    "slice whole (length media + 8) (length media + 8 + length payload) = payload"
    using assms(1) by (simp_all add: slice_def whole_def)
  have v: "be_val (be_bytes 1 major) = major" "be_val (be_bytes 1 minor) = minor" "be_val (be_bytes 2 flags) = flags"
    "be_val (be_bytes 4 (length payload)) = length payload" "be_val (be_bytes 4 crc) = crc"
    "be_val (be_bytes 4 (24 + length payload)) = 24 + length payload"
    using assms(2-) by simp_all
  have t: "8 + length payload + 16 = 24 + length payload" by simp
  have n: "\<not> length whole < 16 + 8" "\<not> 24 + length payload > length whole"
    using l by simp_all
  have "parse_trailer whole =
    (if major \<noteq> 1 then Unsupported_trailer major
     else if ascii_text ty \<noteq> ''free'' then No_trailer
     else if crc32 payload \<noteq> crc then Corrupted_trailer
     else Trailer payload flags minor (length media))"
    unfolding parse_trailer_def Let_def FOOTER_LEN_def BOX_HEADER_LEN_def e(1) f
    unfolding foot_def footer_fields v t e(2) h
    using n by simp
  then show ?thesis by (simp only: whole_def foot_def)
qed

lemma ascii_text_ascii [simp]: "ascii_text (ascii ''free'') = ''free''"
  by code_simp

lemma or_else_int: "or_else v d = int n \<Longrightarrow> 0 \<le> d \<Longrightarrow> or_else v d = int m \<Longrightarrow> n = m"
  by simp

lemma parse_build:
  assumes "build_trailer payload opts = Some t"
    and "opt_major opts = None" "opt_crc opts = None" "opt_box_type opts = None"
  shows "parse_trailer (media @ t) =
    Trailer payload (nat (or_else (opt_flags opts) 0)) (nat (or_else (opt_minor opts) 0)) (length media)"
proof -
  from assms(1) obtain ty major minor flags crc where b:
    "t = be_bytes 4 (24 + length payload) @ ty @ payload @ footer_bytes major minor flags (length payload) crc"
    "ty = take 4 (ascii (or_else (opt_box_type opts) ''free'') @ [0, 0, 0, 0])"
    "or_else (opt_major opts) 1 = int major" "or_else (opt_minor opts) 0 = int minor"
    "or_else (opt_flags opts) 0 = int flags" "or_else (opt_crc opts) (int (crc32 payload)) = int crc"
    "24 + length payload < 256 ^ 4" "major < 256" "minor < 256" "flags < 256 ^ 2" "crc < 256 ^ 4"
    by (rule build_trailer_Some)
  have "ty = ascii ''free''" using b(2) assms(4) by simp
  moreover have "major = 1" "crc = crc32 payload" using b(3,6) assms(2,3) by simp_all
  ultimately show ?thesis
    using parse_trailer_layout [of ty payload minor flags crc major media] b by simp
qed

text \<open>C20. What the writer appends, the reader gives back: the payload, the flags, the minor version and the
  offset where the media ends, whatever the media.\<close>

theorem parse_build_trailer:
  assumes "build_trailer payload opts = Some t"
    and "opt_major opts = None" "opt_crc opts = None" "opt_box_type opts = None"
  shows "parse_trailer (media @ t) =
    Trailer payload (nat (or_else (opt_flags opts) 0)) (nat (or_else (opt_minor opts) 0)) (length media)"
  using assms by (rule parse_build)

theorem parse_build_trailer_witness:
  "parse_trailer ([1, 2, 3] @ the (build_trailer [7, 8] (no_options\<lparr>opt_flags := Some 2\<rparr>))) = Trailer [7, 8] 2 0 3"
proof -
  have "\<exists>t. build_trailer [7, 8] (no_options\<lparr>opt_flags := Some 2\<rparr>) = Some t"
    using crc32_less [of "[7, 8]"]
    by (simp add: build_trailer_def no_options_def put_be_def Let_def trailer_consts)
  then obtain t where t: "build_trailer [7, 8] (no_options\<lparr>opt_flags := Some 2\<rparr>) = Some t" by blast
  show ?thesis
    using parse_build_trailer [OF t, of "[1, 2, 3]"] t by (simp add: no_options_def)
qed

section \<open>Reading then writing\<close>

lemma split_file:
  assumes "length w = n" "a \<le> b" "b \<le> c" "c \<le> n"
  shows "w = take a w @ slice w a b @ slice w b c @ drop c w"
proof -
  have "take a w @ slice w a b @ slice w b c = take c w"
    using slice_split [of a b c w] slice_split [of 0 a c w] assms by simp
  then show ?thesis by (metis append.assoc append_take_drop_id)
qed

lemma slice_be: "length bs = n \<Longrightarrow> bs = be_bytes n (be_val bs)"
  by (metis be_bytes_be_val)

text \<open>C21. A file read as carrying a trailer is its media, an eight-byte box header of the right size whose type
  reads as \<open>free\<close>, the payload, and the footer the writer writes for that payload: nothing else is accepted.\<close>

theorem parse_trailer_sound:
  assumes "parse_trailer whole = Trailer payload flags minor media_end"
  shows "\<exists>ty. length ty = 4 \<and> ascii_text ty = ''free''
    \<and> whole = take media_end whole @ be_bytes 4 (24 + length payload) @ ty @ payload
        @ footer_bytes 1 minor flags (length payload) (crc32 payload)"
proof -
  define n where "n = length whole"
  define foot where "foot = drop (n - 16) whole"
  define len where "len = be_val (slice foot 8 12)"
  define b where "b = n - (8 + len + 16)"
  from assms have h: "16 + 8 \<le> n" "take 4 foot = MAGIC" "be_val (slice foot 4 5) = 1" "8 + len + 16 \<le> n"
    "be_val (slice whole b (b + 4)) = 8 + len + 16" "ascii_text (slice whole (b + 4) (b + 8)) = ''free''"
    "crc32 (slice whole (b + 8) (n - 16)) = be_val (slice foot 12 16)"
    and o: "payload = slice whole (b + 8) (n - 16)" "flags = be_val (slice foot 6 8)"
      "minor = be_val (slice foot 5 6)" "media_end = b"
    unfolding parse_trailer_def Let_def FOOTER_LEN_def BOX_HEADER_LEN_def
      n_def [symmetric] foot_def [symmetric] len_def [symmetric] b_def [symmetric]
    by (auto split: if_splits)
  have lf: "length foot = 16" using h(1) by (simp add: foot_def n_def)
  have bn: "b + 8 + len = n - 16" "b + 8 \<le> n - 16" using h(4) by (simp_all add: b_def)
  have lp: "length payload = len" using bn by (simp add: o length_slice n_def)
  have lh: "length (slice whole b (b + 4)) = 4" "length (slice whole (b + 4) (b + 8)) = 4"
    using bn h(1) by (simp_all add: length_slice n_def)
  have "foot = take 4 foot @ slice foot 4 5 @ slice foot 5 6 @ slice foot 6 8 @ slice foot 8 12 @ slice foot 12 16"
  proof -
    have "slice foot 12 16 = drop 12 foot" using slice_full [of foot 12] lf by simp
    moreover have "slice foot 8 12 @ slice foot 12 16 = slice foot 8 16"
      "slice foot 6 8 @ slice foot 8 16 = slice foot 6 16" "slice foot 5 6 @ slice foot 6 16 = slice foot 5 16"
      "slice foot 4 5 @ slice foot 5 16 = slice foot 4 16" "slice foot 0 4 @ slice foot 4 16 = slice foot 0 16"
      by (simp_all only: slice_split numeral_le_iff le0 semiring_norm)
    ultimately show ?thesis using lf by (simp del: append_take_drop_id)
  qed
  moreover have "slice foot 4 5 = be_bytes 1 1" "slice foot 5 6 = be_bytes 1 minor" "slice foot 6 8 = be_bytes 2 flags"
    "slice foot 8 12 = be_bytes 4 len" "slice foot 12 16 = be_bytes 4 (crc32 payload)"
    using slice_be [of "slice foot 4 5" 1] slice_be [of "slice foot 5 6" 1] slice_be [of "slice foot 6 8" 2]
      slice_be [of "slice foot 8 12" 4] slice_be [of "slice foot 12 16" 4] h(3,7)
    by (simp_all add: length_slice lf o len_def)
  ultimately have f: "foot = footer_bytes 1 minor flags (length payload) (crc32 payload)"
    unfolding footer_bytes_def lp using h(2) by simp
  have hd: "slice whole b (b + 4) = be_bytes 4 (24 + length payload)"
    using slice_be [OF lh(1)] h(5) lp by (simp add: add.commute)
  have "whole = take b whole @ slice whole b (b + 4) @ slice whole (b + 4) (b + 8) @ drop (b + 8) whole"
    by (rule split_file [OF refl]) (use bn h(1) in \<open>simp_all add: n_def\<close>)
  moreover have "drop (b + 8) whole = payload @ foot"
    using slice_split [of "b + 8" "n - 16" n whole] bn(2) by (simp add: o foot_def n_def)
  ultimately have "whole = take b whole @ be_bytes 4 (24 + length payload) @ slice whole (b + 4) (b + 8) @ payload @ foot"
    by (simp only: hd)
  then show ?thesis unfolding o(4) using f h(6) lh(2) by blast
qed

theorem parse_trailer_sound_witness:
  "\<exists>ty. length ty = 4 \<and> ascii_text ty = ''free''
    \<and> [9 :: byte] @ be_bytes 4 24 @ ascii ''free'' @ footer_bytes 1 0 0 0 0
      = take 1 ([9] @ be_bytes 4 24 @ ascii ''free'' @ footer_bytes 1 0 0 0 0) @ be_bytes 4 (24 + length ([] :: bytes)) @ ty @ []
        @ footer_bytes 1 0 0 (length ([] :: bytes)) (crc32 [])"
proof -
  have "crc32 [] = 0" by code_simp
  then have "parse_trailer ([9] @ be_bytes 4 24 @ ascii ''free'' @ footer_bytes 1 0 0 0 0) = Trailer [] 0 0 1"
    using parse_trailer_layout [of "ascii ''free''" "[]" 0 0 0 1 "[9]"] by simp
  from parse_trailer_sound [OF this] show ?thesis .
qed

text \<open>The type of the box is compared after \<open>toString('ascii')\<close>, which clears the high bit of each byte: a box
  whose type is not \<open>free\<close> (0xE6 0x72 0x65 0x65) is read as a valid trailer.\<close>

theorem parse_trailer_high_bit_type:
  "[0xE6, 0x72, 0x65, 0x65] \<noteq> ascii ''free'' \<and>
   parse_trailer (media @ be_bytes 4 24 @ [0xE6, 0x72, 0x65, 0x65] @ footer_bytes 1 0 0 0 0)
     = Trailer [] 0 0 (length media)"
proof -
  have "ascii_text [0xE6, 0x72, 0x65, 0x65] = ''free''" "crc32 [] = 0" "[0xE6, 0x72, 0x65, 0x65] \<noteq> ascii ''free''"
    by code_simp+
  then show ?thesis
    using parse_trailer_layout [of "[0xE6, 0x72, 0x65, 0x65]" "[]" 0 0 0 1 media] by simp
qed

section \<open>The span of an unreadable trailer\<close>

text \<open>What is set aside beside a sidecar is never media: a footer that is usable gives no span, and otherwise
  the span ends the file and is either the 16-byte footer or one whole box whose header declares exactly that
  size and a \<open>free\<close> type.\<close>

theorem unreadable_trailer_span:
  assumes "unreadable_trailer_start whole = Some s"
  shows "slice whole (length whole - 16) (length whole - 12) = MAGIC
    \<and> (\<forall>p f m e. parse_trailer whole \<noteq> Trailer p f m e)
    \<and> s < length whole
    \<and> (s = length whole - 16 \<or>
       be_val (slice whole s (s + 4)) = length whole - s \<and> ascii_text (slice whole (s + 4) (s + 8)) = ''free''
       \<and> length whole - s = 24 + be_val (slice whole (length whole - 8) (length whole - 4)))"
proof -
  define n where "n = length whole"
  define len where "len = be_val (slice whole (n - 16 + 8) (n - 16 + 12))"
  from assms have h: "16 \<le> n" "slice whole (n - 16) (n - 16 + 4) = MAGIC"
    "\<forall>p f m e. parse_trailer whole \<noteq> Trailer p f m e"
    and s: "s = (if 8 + len + 16 \<le> n \<and> be_val (slice whole (n - (8 + len + 16)) (n - (8 + len + 16) + 4)) = 8 + len + 16
        \<and> ascii_text (slice whole (n - (8 + len + 16) + 4) (n - (8 + len + 16) + 8)) = ''free''
      then n - (8 + len + 16) else n - 16)"
    unfolding unreadable_trailer_start_def Let_def FOOTER_LEN_def BOX_HEADER_LEN_def
      n_def [symmetric] len_def [symmetric]
    by (auto split: if_splits parsed_trailer.splits)
  have e: "n - 16 + 4 = n - 12" "n - 16 + 8 = n - 8" "n - 16 + 12 = n - 4" using h(1) by simp_all
  have l: "len = be_val (slice whole (n - 8) (n - 4))" by (simp only: len_def e)
  show ?thesis
  proof (cases "8 + len + 16 \<le> n \<and> be_val (slice whole (n - (8 + len + 16)) (n - (8 + len + 16) + 4)) = 8 + len + 16
        \<and> ascii_text (slice whole (n - (8 + len + 16) + 4) (n - (8 + len + 16) + 8)) = ''free''")
    case True
    then have sb: "s = n - (8 + len + 16)" unfolding s by (rule if_P)
    have d: "n - s = 24 + len" "s < n" using True sb by simp_all
    have "be_val (slice whole s (s + 4)) = n - s" "ascii_text (slice whole (s + 4) (s + 8)) = ''free''"
      using True d unfolding sb [symmetric] by simp_all
    then show ?thesis using h d unfolding n_def [symmetric] e l by blast
  next
    case False
    then have "s = n - 16" unfolding s by (rule if_not_P)
    moreover have "s < n" using h(1) calculation by simp
    ultimately show ?thesis using h unfolding n_def [symmetric] e by blast
  qed
qed

theorem unreadable_trailer_span_witness:
  "let w = [5 :: byte] @ footer_bytes 2 0 0 0 0 in
   slice w (length w - 16) (length w - 12) = MAGIC
    \<and> (\<forall>p f m e. parse_trailer w \<noteq> Trailer p f m e) \<and> 1 < length w"
proof -
  have "unreadable_trailer_start ([5 :: byte] @ footer_bytes 2 0 0 0 0) = Some 1" by code_simp
  from unreadable_trailer_span [OF this] show ?thesis unfolding Let_def by blast
qed

end
