(* ===== verification/Core.thy ===== *)
theory Core
  imports Json_Canonical
begin

text \<open>
  \<open>tools/src/core.ts\<close>: the signed core of a proof and ES256. What Node's \<open>crypto\<close> does is a
  parameter, the record \<open>platform\<close>: a hash, the reading of a DER public key into a \<open>KeyObject\<close>
  (its SPKI export, its type and its named curve) and the verification of a signature of 64
  bytes over SHA-256. The arithmetic on a signature (\<open>isLowS\<close>, \<open>flipS\<close>, \<open>p1363ToDer\<close>) is
  modelled as it is written, hexadecimal text included.
\<close>

section \<open>The platform's cryptography\<close>

record key_object =
  key_spki :: bytes
  key_type :: string
  key_curve :: "string option"

record platform =
  sha256 :: "bytes \<Rightarrow> bytes"
  create_public_key :: "bytes \<Rightarrow> key_object option"
  verify_p1363 :: "bytes \<Rightarrow> key_object \<Rightarrow> bytes \<Rightarrow> bool"
  buffer_of_object :: "json \<Rightarrow> bytes option"

text \<open>
  The exceptions that are not part of an answer. \<open>Untyped\<close> marks a value of a type the TypeScript
  declarations exclude and that JavaScript would convert (a decimal string where a number is declared):
  the model stops there and says so instead of following the conversion.
\<close>

datatype fault = Type_error | Range_error | Plain_error | Untyped

definition hash_ok :: "platform \<Rightarrow> bool" where
  "hash_ok P = (\<forall>bs. length (sha256 P bs) = 32)"

text \<open>
  \<open>Buffer.from(v, 'base64url')\<close> of a value whose type was not checked: a string decodes leniently, a
  missing value, \<open>null\<close>, a boolean or a number throws a TypeError (\<open>None\<close>), and Node's rules for
  array-likes are the parameter \<open>buffer_of_object\<close>.
\<close>

definition buffer_from :: "platform \<Rightarrow> json option \<Rightarrow> bytes option" where
  "buffer_from P v = (case v of Some (JStr s) \<Rightarrow> Some (b64_decode s)
     | Some (JArr vs) \<Rightarrow> buffer_of_object P (JArr vs) | Some (JObj ms) \<Rightarrow> buffer_of_object P (JObj ms)
     | _ \<Rightarrow> None)"

lemma buffer_from_str [simp]: "buffer_from P (Some (JStr s)) = Some (b64_decode s)"
  by (simp add: buffer_from_def)

text \<open>Two different inputs with one hash.\<close>

definition collision :: "platform \<Rightarrow> bytes \<Rightarrow> bytes \<Rightarrow> bool" where
  "collision P a b = (a \<noteq> b \<and> sha256 P a = sha256 P b)"

section \<open>The core\<close>

definition CORE_KEYS :: "string list" where
  "CORE_KEYS = [''v'', ''capture_id'', ''media'', ''device'', ''watermark'', ''time'', ''location'', ''policy'']"

definition extract_core :: "json \<Rightarrow> json" where
  "extract_core proof =
     JObj (List.map_filter (\<lambda>k. map_option (\<lambda>v. (js k, v)) (member proof k)) CORE_KEYS)"

definition core_bytes :: "json \<Rightarrow> bytes option" where
  "core_bytes proof = jcs (extract_core proof)"

definition core_hash :: "platform \<Rightarrow> json \<Rightarrow> bytes option" where
  "core_hash P proof = map_option (sha256 P) (core_bytes proof)"

definition key_id :: "platform \<Rightarrow> bytes \<Rightarrow> jsstr" where
  "key_id P spki_der = b64url_encode (sha256 P spki_der)"

section \<open>ES256\<close>

definition ec_n :: int where
  "ec_n = 0xFFFFFFFF00000000FFFFFFFFFFFFFFFFBCE6FAADA7179E84F3B9CAC2FC632551"

definition half_n :: int where "half_n = ec_n div 2"

text \<open>\<open>BigInt('0x')\<close> of no digits is a SyntaxError.\<close>

definition to_big :: "bytes \<Rightarrow> int option" where
  "to_big b = (if b = [] then None else Some (int (be_val b)))"

definition hex_char :: "nat \<Rightarrow> char" where
  "hex_char d = char_of (if d < 10 then 48 + d else 87 + d)"

fun hex_text :: "nat \<Rightarrow> string" where
  "hex_text n = (if n < 16 then [hex_char n] else hex_text (n div 16) @ [hex_char (n mod 16)])"

declare hex_text.simps [simp del]

definition big_hex :: "int \<Rightarrow> string" where
  "big_hex i = (if i < 0 then CHR ''-'' # hex_text (nat (- i)) else hex_text (nat i))"

definition pad_start :: "nat \<Rightarrow> string \<Rightarrow> string" where
  "pad_start k s = replicate (k - length s) (CHR ''0'') @ s"

definition hex_digit_val :: "char \<Rightarrow> nat option" where
  "hex_digit_val c = (let n = of_char c in
     if 48 \<le> n \<and> n \<le> 57 then Some (n - 48) else if 97 \<le> n \<and> n \<le> 102 then Some (n - 87)
     else if 65 \<le> n \<and> n \<le> 70 then Some (n - 55) else None)"

text \<open>\<open>Buffer.from(s, 'hex')\<close> stops at the first pair that is not two hexadecimal digits.\<close>

fun from_hex :: "string \<Rightarrow> bytes" where
  "from_hex (c # d # r) = (case (hex_digit_val c, hex_digit_val d) of
     (Some x, Some y) \<Rightarrow> of_nat (16 * x + y) # from_hex r | _ \<Rightarrow> [])"
| "from_hex _ = []"

definition to_buf32 :: "int \<Rightarrow> bytes" where
  "to_buf32 n = from_hex (pad_start 64 (big_hex n))"

definition is_low_s :: "bytes \<Rightarrow> bool option" where
  "is_low_s sg = map_option (\<lambda>s. s \<le> half_n) (to_big (drop 32 sg))"

definition flip_s :: "bytes \<Rightarrow> bytes option" where
  "flip_s sg = map_option (\<lambda>s. take 32 sg @ to_buf32 (ec_n - s)) (to_big (drop 32 sg))"

definition verify_es256 :: "platform \<Rightarrow> bytes \<Rightarrow> bytes \<Rightarrow> key_object \<Rightarrow> bool" where
  "verify_es256 P bs sg k = (length sg = 64 \<and> verify_p1363 P bs k sg)"

definition public_key_from_spki :: "platform \<Rightarrow> bytes \<Rightarrow> key_object option" where
  "public_key_from_spki P der = (case create_public_key P der of None \<Rightarrow> None
     | Some k \<Rightarrow> if key_type k = ''ec'' \<and> key_curve k = Some ''prime256v1'' then Some k else None)"

definition spki_of :: "key_object \<Rightarrow> bytes" where "spki_of k = key_spki k"

subsection \<open>P1363 to DER\<close>

fun strip_zeros :: "bytes \<Rightarrow> bytes" where
  "strip_zeros (b # c # r) = (if b = 0 then strip_zeros (c # r) else b # c # r)"
| "strip_zeros bs = bs"

definition der_int :: "bytes \<Rightarrow> bytes" where
  "der_int b = (let v = strip_zeros b;
       v' = (if v \<noteq> [] \<and> bit (hd v) 7 then 0 # v else v)
     in 2 # of_nat (length v') # v')"

definition p1363_to_der :: "bytes \<Rightarrow> bytes" where
  "p1363_to_der sg = (let body = der_int (take 32 sg) @ der_int (drop 32 sg)
     in 0x30 # of_nat (length body) # body)"

section \<open>The core covers exactly its keys\<close>

lemma core_keys_distinct: "distinct CORE_KEYS"
  by (simp add: CORE_KEYS_def)

lemma inj_js: "inj js"
  by (rule injI) simp

lemma map_of_filter_keys:
  "map_of (List.map_filter (\<lambda>k. map_option (\<lambda>v. (js k, v)) (f k)) ks) (js k)
    = (if k \<in> set ks then f k else None)"
  by (induction ks) (auto simp: map_filter_simps split: option.splits)

lemma keys_of_filter:
  "map fst (List.map_filter (\<lambda>k. map_option (\<lambda>v. (js k, v)) (f k)) ks) = map js (filter (\<lambda>k. f k \<noteq> None) ks)"
  by (induction ks) (auto simp: map_filter_simps split: option.splits)

lemma members_of_filter:
  "m \<in> set (List.map_filter (\<lambda>k. map_option (\<lambda>v. (js k, v)) (f k)) ks) \<Longrightarrow> \<exists>k. f k = Some (snd m)"
  by (induction ks) (auto simp: map_filter_simps split: option.splits)

lemma member_extract_core: "member (extract_core p) k = (if k \<in> set CORE_KEYS then member p k else None)"
  by (simp add: extract_core_def map_of_filter_keys)

lemma map_filter_cong: "xs = ys \<Longrightarrow> (\<And>x. x \<in> set ys \<Longrightarrow> f x = g x) \<Longrightarrow> List.map_filter f xs = List.map_filter g ys"
  by (induction ys arbitrary: xs) (auto simp: map_filter_simps split: option.splits)

lemma extract_core_cong: "(\<And>k. k \<in> set CORE_KEYS \<Longrightarrow> member p k = member q k) \<Longrightarrow> extract_core p = extract_core q"
  unfolding extract_core_def by (rule arg_cong [where f = JObj], rule map_filter_cong) (simp_all)

lemma member_proof_value: "proof_value p \<Longrightarrow> member p k = Some v \<Longrightarrow> proof_value v \<and> depth v < depth p"
proof -
  assume p: "proof_value p" "member p k = Some v"
  then obtain ms where ms: "p = JObj ms" "(js k, v) \<in> set ms"
    by (cases p) (auto dest: map_of_SomeD)
  then show ?thesis using p(1) depth_member [of "(js k, v)" ms] by auto
qed

lemma extract_core_good:
  assumes "proof_value p" "depth p \<le> 64"
  shows "proof_value (extract_core p) \<and> depth (extract_core p) \<le> 64"
proof
  have k: "distinct (map fst (List.map_filter (\<lambda>k. map_option (\<lambda>v. (js k, v)) (member p k)) CORE_KEYS))"
    unfolding keys_of_filter using core_keys_distinct
    by (simp add: distinct_map inj_on_subset [OF inj_js])
  have m: "proof_value (snd m) \<and> depth (snd m) < depth p"
    if "m \<in> set (List.map_filter (\<lambda>k. map_option (\<lambda>v. (js k, v)) (member p k)) CORE_KEYS)" for m
    using members_of_filter [OF that] member_proof_value [OF assms(1)] by blast
  show "proof_value (extract_core p)" using k m by (simp add: extract_core_def)
  let ?ms = "List.map_filter (\<lambda>k. map_option (\<lambda>v. (js k, v)) (member p k)) CORE_KEYS"
  show "depth (extract_core p) \<le> 64"
  proof (cases "?ms = []")
    case False
    then have "Max (depth ` snd ` set ?ms) \<in> depth ` snd ` set ?ms" by (intro Max_in) auto
    moreover have "\<forall>d \<in> depth ` snd ` set ?ms. d < depth p" using m by blast
    ultimately have "Max (depth ` snd ` set ?ms) < depth p" by blast
    then have "depth (JObj ?ms) \<le> depth p" using False by (simp only: depth.simps if_False Suc_le_eq)
    then show ?thesis using assms(2) by (simp only: extract_core_def)
  qed (simp add: extract_core_def)
qed

lemma canon_JObj_members:
  assumes "distinct (map fst ms)"
  shows "map_of (map (\<lambda>(k, v). (k, canon v)) (sort_key fst ms)) k = map_option canon (map_of ms k)"
  using map_of_sort_key [OF assms] by (simp add: map_of_map)

lemma sorted_distinct_keys_eq:
  assumes "sorted (map fst xs)" "distinct (map fst xs)" "sorted (map fst ys)" "distinct (map fst ys)"
    and "map_of xs = map_of ys"
  shows "xs = ys"
proof (rule map_sorted_distinct_set_unique [where f = fst])
  show "set xs = set ys" using assms(2,4,5) by (metis map_of_inject_set)
  then show "inj_on fst (set xs \<union> set ys)" using assms(2) by (simp add: distinct_map)
qed (use assms in auto)

lemma canon_eq_members:
  assumes "distinct (map fst ms)" "distinct (map fst ns)"
  shows "canon (JObj ms) = canon (JObj ns) \<longleftrightarrow>
    (\<forall>k. map_option canon (map_of ms k) = map_option canon (map_of ns k))"
proof
  assume "canon (JObj ms) = canon (JObj ns)"
  then have "map (\<lambda>(k, v). (k, canon v)) (sort_key fst ms) = map (\<lambda>(k, v). (k, canon v)) (sort_key fst ns)"
    by (simp only: canon.simps json.inject)
  then show "\<forall>k. map_option canon (map_of ms k) = map_option canon (map_of ns k)"
    unfolding canon_JObj_members [OF assms(1), symmetric] canon_JObj_members [OF assms(2), symmetric] by (simp only: simp_thms)
next
  let ?c = "\<lambda>ms. map (\<lambda>(k, v). (k, canon v)) (sort_key fst ms)"
  assume e: "\<forall>k. map_option canon (map_of ms k) = map_option canon (map_of ns k)"
  have f: "map fst (?c ms) = map fst (sort_key fst ms)" for ms :: "(jsstr \<times> json) list"
    by (simp add: case_prod_unfold o_def)
  have d: "distinct (map fst (sort_key fst ms))" if "distinct (map fst ms)" for ms :: "(jsstr \<times> json) list"
    using that distinct_map_mset [of "sort_key fst ms" ms fst] by simp
  have "map_of (?c ms) = map_of (?c ns)"
    using e canon_JObj_members [OF assms(1)] canon_JObj_members [OF assms(2)] by auto
  moreover have "sorted (map fst (?c ms))" "sorted (map fst (?c ns))"
    unfolding f by (rule sorted_sort_key)+
  moreover have "distinct (map fst (?c ms))" "distinct (map fst (?c ns))"
    unfolding f by (rule d, rule assms)+
  ultimately have "?c ms = ?c ns" by (intro sorted_distinct_keys_eq)
  then show "canon (JObj ms) = canon (JObj ns)" by simp
qed

lemma map_of_core:
  "map_of (List.map_filter (\<lambda>k. map_option (\<lambda>v. (js k, v)) (f k)) ks) x =
     (if \<exists>k \<in> set ks. x = js k then f (inv js x) else None)"
proof (cases "\<exists>k \<in> set ks. x = js k")
  case True
  then obtain k where "k \<in> set ks" "x = js k" by blast
  then show ?thesis by (simp add: map_of_filter_keys inv_f_f [OF inj_js])
next
  case False
  then have "x \<notin> set (map fst (List.map_filter (\<lambda>k. map_option (\<lambda>v. (js k, v)) (f k)) ks))"
    unfolding keys_of_filter by auto
  then show ?thesis using False by (simp add: map_of_eq_None_iff)
qed

lemma canon_extract_core:
  assumes "proof_value p" "depth p \<le> 64" "proof_value q" "depth q \<le> 64"
  shows "canon (extract_core p) = canon (extract_core q) \<longleftrightarrow>
    (\<forall>k \<in> set CORE_KEYS. map_option canon (member p k) = map_option canon (member q k))"
proof -
  define ms where "ms = (\<lambda>p. List.map_filter (\<lambda>k. map_option (\<lambda>v. (js k, v)) (member p k)) CORE_KEYS)"
  have e: "extract_core r = JObj (ms r)" for r by (simp add: extract_core_def ms_def)
  have d: "distinct (map fst (ms p))" "distinct (map fst (ms q))"
    using extract_core_good [OF assms(1,2)] extract_core_good [OF assms(3,4)] by (simp_all add: e)
  have m: "map_of (ms r) x = (if \<exists>k \<in> set CORE_KEYS. x = js k then member r (inv js x) else None)" for r x
    unfolding ms_def by (rule map_of_core)
  have k: "map_of (ms r) (js k) = (if k \<in> set CORE_KEYS then member r k else None)" for r k
    unfolding ms_def by (rule map_of_filter_keys)
  show ?thesis unfolding e canon_eq_members [OF d]
  proof (intro iffI ballI allI)
    fix n
    assume "\<forall>x. map_option canon (map_of (ms p) x) = map_option canon (map_of (ms q) x)" "n \<in> set CORE_KEYS"
    then show "map_option canon (member p n) = map_option canon (member q n)"
      using k [of p n] k [of q n] by (metis (full_types))
  next
    fix x
    assume h: "\<forall>k \<in> set CORE_KEYS. map_option canon (member p k) = map_option canon (member q k)"
    show "map_option canon (map_of (ms p) x) = map_option canon (map_of (ms q) x)"
    proof (cases "\<exists>k \<in> set CORE_KEYS. x = js k")
      case True
      then obtain n where "n \<in> set CORE_KEYS" "x = js n" by blast
      then show ?thesis using h by (simp add: k)
    next
      case False
      then show ?thesis by (simp only: m if_False)
    qed
  qed
qed

text \<open>C16. The bytes a device signs are decided by the eight core members and nothing else: two proofs have the
  same core bytes exactly when each core member is present in both or absent in both, with the same value up
  to the order of object members. An attachment can be added, dropped or rewritten without touching them.\<close>

theorem core_bytes_eq_iff:
  assumes "proof_value p" "depth p \<le> 64" "proof_value q" "depth q \<le> 64"
  shows "core_bytes p = core_bytes q \<longleftrightarrow>
    (\<forall>k \<in> set CORE_KEYS. map_option canon (member p k) = map_option canon (member q k))"
  using jcs_eq_canon [of "extract_core p" "extract_core q"] extract_core_good [OF assms(1,2)]
    extract_core_good [OF assms(3,4)] canon_extract_core [OF assms]
  by (simp only: core_bytes_def)

theorem core_bytes_eq_iff_witness:
  "core_bytes (JObj [(js ''time'', JNull), (js ''v'', JStr []), (js ''anchor'', JBool True)])
     = core_bytes (JObj [(js ''v'', JStr []), (js ''time'', JNull)])
   \<and> core_bytes (JObj [(js ''v'', JBool True)]) \<noteq> core_bytes (JObj [])"
proof -
  have "core_bytes (JObj [(js ''time'', JNull), (js ''v'', JStr []), (js ''anchor'', JBool True)])
     = core_bytes (JObj [(js ''v'', JStr []), (js ''time'', JNull)])"
    by (subst core_bytes_eq_iff) (auto simp: CORE_KEYS_def)
  moreover have "core_bytes (JObj [(js ''v'', JBool True)]) \<noteq> core_bytes (JObj [])"
    by (subst core_bytes_eq_iff) (auto simp: CORE_KEYS_def)
  ultimately show ?thesis by blast
qed

section \<open>The other signature of a message\<close>

fun hexn :: "nat \<Rightarrow> nat \<Rightarrow> string" where
  "hexn 0 n = []"
| "hexn (Suc k) n = hexn k (n div 16) @ [hex_char (n mod 16)]"

lemma length_hexn [simp]: "length (hexn k n) = k"
  by (induction k arbitrary: n) simp_all

lemma hexn_zero: "hexn k 0 = replicate k (CHR ''0'')"
proof (induction k)
  case (Suc k)
  have "hex_char 0 = CHR ''0''" by code_simp
  then show ?case using Suc by (simp add: replicate_append_same)
qed simp

lemma pad_hex: "n < 16 ^ k \<Longrightarrow> 0 < k \<Longrightarrow> pad_start k (hex_text n) = hexn k n"
proof (induction n arbitrary: k rule: hex_text.induct)
  case (1 n)
  then obtain j where k: "k = Suc j" by (cases k) auto
  show ?case
  proof (cases "n < 16")
    case True
    then show ?thesis by (simp add: k hex_text.simps [of n] pad_start_def hexn_zero)
  next
    case False
    have b: "n div 16 < 16 ^ j" using 1(2) k by (simp add: less_mult_imp_div_less mult.commute)
    then have "0 < j" using False by (cases j) auto
    then have i: "pad_start j (hex_text (n div 16)) = hexn j (n div 16)"
      using 1(1) [OF False] b by blast
    show ?thesis using i False by (simp add: k hex_text.simps [of n] pad_start_def)
  qed
qed

lemma hex_digit_val_char [simp]: "d < 16 \<Longrightarrow> hex_digit_val (hex_char d) = Some d"
  by (cases "d < 10") (simp_all add: hex_digit_val_def hex_char_def Let_def)

lemma from_hex_append:
  "\<forall>c \<in> set xs. hex_digit_val c \<noteq> None \<Longrightarrow> even (length xs) \<Longrightarrow> from_hex (xs @ ys) = from_hex xs @ from_hex ys"
  by (induction xs rule: from_hex.induct) auto

lemma hexn_digits: "\<forall>c \<in> set (hexn k n). hex_digit_val c \<noteq> None"
  by (induction k arbitrary: n) simp_all

lemma from_hex_hexn: "from_hex (hexn (2 * k) n) = be_bytes k n"
proof (induction k arbitrary: n)
  case (Suc k)
  have n: "n div 16 div 16 = n div 256" by (simp add: div_mult2_eq [symmetric])
  have m: "16 * (n div 16 mod 16) + n mod 16 = n mod 256"
    using mod_mult2_eq [of n 16 16] by simp
  have "hexn (2 * Suc k) n = hexn (2 * k) (n div 256) @ [hex_char (n div 16 mod 16), hex_char (n mod 16)]"
    by (simp add: n)
  then show ?case
    using from_hex_append [OF hexn_digits, of "2 * k" "n div 256" "[hex_char (n div 16 mod 16), hex_char (n mod 16)]"] m
    by (simp only: Suc.IH) (simp add: be_bytes.simps(2))
qed simp

lemma to_buf32_nonneg: "0 \<le> n \<Longrightarrow> n < 256 ^ 32 \<Longrightarrow> to_buf32 n = be_bytes 32 (nat n)"
proof -
  assume n: "0 \<le> n" "n < 256 ^ 32"
  then have "nat n < 256 ^ 32" by (rule nat_less_pow)
  moreover have "(256 :: nat) ^ 32 = 16 ^ 64" by simp
  ultimately have "pad_start 64 (hex_text (nat n)) = hexn (2 * 32) (nat n)"
    using pad_hex [of "nat n" 64] by (simp del: hexn.simps power_numeral)
  then have "from_hex (pad_start 64 (hex_text (nat n))) = be_bytes 32 (nat n)"
    by (simp only: from_hex_hexn)
  moreover have "big_hex n = hex_text (nat n)" using n(1) by (simp only: big_hex_def not_less [symmetric] if_False)
  ultimately show ?thesis unfolding to_buf32_def by (simp only:)
qed

text \<open>Flipping a signature whose \<open>s\<close> is in range gives another 64 bytes with the same \<open>r\<close>; of the two exactly one
  is low-s, and flipping again gives the first one back. So the low-s rule names one signature of each pair.\<close>

theorem flip_s_pairs:
  assumes "length sg = 64" "int (be_val (drop 32 sg)) \<le> ec_n" "flip_s sg = Some sg'"
  shows "length sg' = 64 \<and> take 32 sg' = take 32 sg \<and> flip_s sg' = Some sg
    \<and> (is_low_s sg = Some True \<longleftrightarrow> is_low_s sg' = Some False)
    \<and> (is_low_s sg = Some False \<longleftrightarrow> is_low_s sg' = Some True)"
proof -
  define s where "s = int (be_val (drop 32 sg))"
  have len: "length (drop 32 sg) = 32" using assms(1) by simp
  have r: "0 \<le> s" "s \<le> ec_n" "ec_n < 256 ^ 32" using assms(2) by (simp_all add: s_def ec_n_def)
  have b: "to_big (drop 32 sg) = Some s" using len by (auto simp: to_big_def s_def)
  have u: "to_buf32 (ec_n - s) = be_bytes 32 (nat (ec_n - s))" using r by (intro to_buf32_nonneg) linarith+
  have sg': "sg' = take 32 sg @ be_bytes 32 (nat (ec_n - s))" using assms(3) b u by (simp add: flip_s_def)
  have "nat (ec_n - s) < 256 ^ 32" using r by (intro nat_less_pow) linarith+
  then have b': "to_big (drop 32 sg') = Some (ec_n - s)"
    using assms(1) r by (simp add: sg' to_big_def) (metis length_be_bytes list.size(3) zero_neq_numeral)
  have "to_buf32 s = be_bytes 32 (nat s)" using r by (intro to_buf32_nonneg) linarith+
  then have "to_buf32 (ec_n - (ec_n - s)) = drop 32 sg"
    using be_bytes_be_val [of "drop 32 sg"] len by (simp add: s_def)
  then have "flip_s sg' = Some sg" using b' assms(1) by (simp add: flip_s_def sg')
  moreover have "s \<le> half_n \<longleftrightarrow> \<not> ec_n - s \<le> half_n"
    using r by (simp add: half_n_def ec_n_def) linarith
  ultimately show ?thesis using b b' assms(1) by (auto simp: is_low_s_def sg')
qed

theorem flip_s_pairs_witness:
  "\<exists>sg'. flip_s (replicate 32 1 @ be_bytes 32 5) = Some sg' \<and> flip_s sg' = Some (replicate 32 1 @ be_bytes 32 5)"
proof -
  let ?sg = "replicate 32 (1 :: byte) @ be_bytes 32 5"
  have d: "drop 32 ?sg = be_bytes 32 5" by simp
  have "be_bytes 32 5 \<noteq> []" by (metis length_be_bytes list.size(3) zero_neq_numeral)
  then obtain sg' where sg': "flip_s ?sg = Some sg'" unfolding flip_s_def to_big_def d by simp
  have "int (be_val (drop 32 ?sg)) \<le> ec_n" unfolding d by (simp add: ec_n_def)
  then show ?thesis using flip_s_pairs [of ?sg sg'] sg' by simp
qed

end
