(* ===== verification/Segments.thy ===== *)
theory Segments
  imports Core
begin

text \<open>
  \<open>tools/src/segments.ts\<close> and the writer's \<open>signChain\<close> of \<open>tools/src/sign.ts\<close>: the 96-byte segment
  message, the chain of links, and the verifier's walk over the segments a proof carries. The index of
  an entry is an integer; its texts are JSON values nobody has type-checked, and a TypeError of
  \<open>Buffer.from\<close> leaves \<open>verifyChain\<close> (\<open>None\<close>).
\<close>

section \<open>Messages and links\<close>

definition SEPARATOR :: bytes where "SEPARATOR = ascii ''vcap/1.0/seg''"
definition ZERO_LINK :: bytes where "ZERO_LINK = replicate 32 0"

text \<open>The three throws of \<open>segmentMessage\<close> and the RangeError of the index are \<open>None\<close>.\<close>

definition segment_message_with :: "bytes \<Rightarrow> bytes \<Rightarrow> int \<Rightarrow> bytes \<Rightarrow> bytes \<Rightarrow> bytes option" where
  "segment_message_with separator capture_id index content_hash prev_link =
     (if length capture_id \<noteq> 16 \<or> length content_hash \<noteq> 32 \<or> length prev_link \<noteq> 32 then None
      else case put_be 4 index of None \<Rightarrow> None
      | Some n \<Rightarrow> let message = separator @ capture_id @ n @ content_hash @ prev_link
         in if length message \<noteq> 96 then None else Some message)"

definition segment_message :: "bytes \<Rightarrow> int \<Rightarrow> bytes \<Rightarrow> bytes \<Rightarrow> bytes option" where
  "segment_message = segment_message_with SEPARATOR"

definition link_of :: "platform \<Rightarrow> bytes \<Rightarrow> bytes" where
  "link_of P previous_message = sha256 P previous_message"

record segment_entry =
  gop :: int
  e_hash :: "json option"
  e_prev :: "json option"
  e_sig :: "json option"
  e_timing :: "json option"

datatype chain_status = Complete | Clip | Chain_tampered
datatype chain_reason = Chain_broken int | Malformed int | Signature_invalid int

record chain_result =
  ch_status :: chain_status
  ch_verified :: "int list"
  ch_reason :: "chain_reason option"

section \<open>verifyChain\<close>

text \<open>\<open>new Map(segments.map(s => [s.gop, s]))\<close>: the last entry of an index is the one kept.\<close>

definition by_index :: "segment_entry list \<Rightarrow> int \<Rightarrow> segment_entry option" where
  "by_index segments = map_of (rev (map (\<lambda>s. (gop s, s)) segments))"

fun chain_walk :: "platform \<Rightarrow> bytes \<Rightarrow> (int \<Rightarrow> segment_entry option) \<Rightarrow> key_object \<Rightarrow>
    (int \<Rightarrow> bytes option) \<Rightarrow> int list \<Rightarrow> int list \<Rightarrow> (int list \<times> chain_reason option) option" where
  "chain_walk P cid ents key messages verified [] = Some (verified, None)"
| "chain_walk P cid ents key messages verified (index # rest) =
     (case ents index of None \<Rightarrow> None | Some entry \<Rightarrow> do {
        hash \<leftarrow> buffer_from P (e_hash entry);
        stored_prev \<leftarrow> buffer_from P (e_prev entry);
        let expected_prev = (if index = 0 then ZERO_LINK
          else case messages (index - 1) of Some previous \<Rightarrow> link_of P previous | None \<Rightarrow> stored_prev);
        if stored_prev \<noteq> expected_prev then Some (verified, Some (Chain_broken index))
        else case segment_message cid index hash stored_prev of
          None \<Rightarrow> Some (verified, Some (Malformed index))
        | Some message \<Rightarrow> do {
            sg \<leftarrow> buffer_from P (e_sig entry);
            if \<not> verify_es256 P message sg key then Some (verified, Some (Signature_invalid index))
            else chain_walk P cid ents key (messages(index \<mapsto> message)) (verified @ [index]) rest } })"

definition verify_chain :: "platform \<Rightarrow> bytes \<Rightarrow> int \<Rightarrow> segment_entry list \<Rightarrow> key_object \<Rightarrow> chain_result option" where
  "verify_chain P cid segment_count segments key =
     (case chain_walk P cid (by_index segments) key Map.empty [] (sorted_list_of_set (gop ` set segments)) of
        None \<Rightarrow> None
      | Some (verified, Some r) \<Rightarrow> Some \<lparr>ch_status = Chain_tampered, ch_verified = verified, ch_reason = Some r\<rparr>
      | Some (verified, None) \<Rightarrow>
          let complete = (int (length verified) = segment_count \<and> verified = map int [0..<length verified])
          in Some \<lparr>ch_status = (if complete then Complete else Clip), ch_verified = verified, ch_reason = None\<rparr>)"

section \<open>signChain\<close>

text \<open>\<open>sign\<close> stands for \<open>signEs256\<close> under the writer's key; a throw of \<open>segmentMessage\<close> is \<open>None\<close>.\<close>

fun sign_from :: "platform \<Rightarrow> (bytes \<Rightarrow> bytes) \<Rightarrow> bytes \<Rightarrow> nat \<Rightarrow> bytes \<Rightarrow> bytes list \<Rightarrow> segment_entry list option" where
  "sign_from P sign cid index prev [] = Some []"
| "sign_from P sign cid index prev (hash # hs) = do {
     message \<leftarrow> segment_message cid (int index) hash prev;
     let entry = \<lparr>gop = int index, e_hash = Some (JStr (b64url_encode hash)), e_prev = Some (JStr (b64url_encode prev)),
       e_sig = Some (JStr (b64url_encode (sign message))), e_timing = None\<rparr>;
     rest \<leftarrow> sign_from P sign cid (Suc index) (link_of P message) hs;
     Some (entry # rest) }"

definition sign_chain :: "platform \<Rightarrow> (bytes \<Rightarrow> bytes) \<Rightarrow> bytes \<Rightarrow> bytes list \<Rightarrow> segment_entry list option" where
  "sign_chain P sign cid hashes = sign_from P sign cid 0 ZERO_LINK hashes"

section \<open>The message layout\<close>

lemma length_SEPARATOR [simp]: "length SEPARATOR = 12"
  by (simp add: SEPARATOR_def)

lemma length_ZERO_LINK [simp]: "length ZERO_LINK = 32"
  by (simp add: ZERO_LINK_def)

lemma segment_message_Some:
  "segment_message cid i h p = Some m \<longleftrightarrow>
    length cid = 16 \<and> length h = 32 \<and> length p = 32 \<and> 0 \<le> i \<and> i < 256 ^ 4 \<and>
    m = SEPARATOR @ cid @ be_bytes 4 (nat i) @ h @ p"
  by (auto simp: segment_message_def segment_message_with_def put_be_def Let_def)

lemma segment_message_eq:
  assumes "segment_message cid i h p = Some m" "segment_message cid' i' h' p' = Some m"
  shows "length m = 96 \<and> cid = cid' \<and> i = i' \<and> h = h' \<and> p = p'"
proof -
  note a = assms [unfolded segment_message_Some]
  have "cid = cid' \<and> be_bytes 4 (nat i) = be_bytes 4 (nat i') \<and> h = h' \<and> p = p'"
    using a by (elim conjE) (simp add: append_eq_append_conv)
  moreover have "nat i < 256 ^ 4" "nat i' < 256 ^ 4" using a nat_less_pow by blast+
  ultimately show ?thesis using a be_bytes_inj [of 4 "nat i" "nat i'"] by auto
qed

text \<open>A segment message is 96 bytes and determines everything it is about: the capture, the index, the content
  hash and the link. One signature covers one segment of one capture.\<close>

theorem segment_message_inj:
  assumes "segment_message cid i h p = Some m" "segment_message cid' i' h' p' = Some m"
  shows "length m = 96 \<and> cid = cid' \<and> i = i' \<and> h = h' \<and> p = p'"
  using assms by (rule segment_message_eq)

theorem segment_message_inj_witness:
  "\<exists>m. segment_message (replicate 16 1) 3 (replicate 32 2) ZERO_LINK = Some m \<and> length m = 96"
proof -
  obtain m where m: "segment_message (replicate 16 1) 3 (replicate 32 2) ZERO_LINK = Some m"
    by (simp add: segment_message_Some)
  from segment_message_inj [OF m m] m show ?thesis by blast
qed

section \<open>What the walk checks\<close>

definition message_of :: "platform \<Rightarrow> bytes \<Rightarrow> segment_entry \<Rightarrow> bytes option" where
  "message_of P cid e = do {
     h \<leftarrow> buffer_from P (e_hash e);
     p \<leftarrow> buffer_from P (e_prev e);
     segment_message cid (gop e) h p }"

definition chain_message :: "platform \<Rightarrow> bytes \<Rightarrow> segment_entry list \<Rightarrow> int \<Rightarrow> bytes option" where
  "chain_message P cid segments i = Option.bind (by_index segments i) (message_of P cid)"

text \<open>
  The contract of one present segment: its message is signed, the first one hangs on the zero link, and one
  whose predecessor is present hangs on the predecessor's message.
\<close>

definition segment_holds :: "platform \<Rightarrow> bytes \<Rightarrow> segment_entry list \<Rightarrow> key_object \<Rightarrow> int \<Rightarrow> bool" where
  "segment_holds P cid segments key i = (\<exists>e h p m s. by_index segments i = Some e
     \<and> buffer_from P (e_hash e) = Some h \<and> buffer_from P (e_prev e) = Some p
     \<and> segment_message cid i h p = Some m \<and> buffer_from P (e_sig e) = Some s \<and> verify_es256 P m s key
     \<and> (i = 0 \<longrightarrow> p = ZERO_LINK)
     \<and> (i \<noteq> 0 \<and> i - 1 \<in> gop ` set segments \<longrightarrow>
          (\<exists>m'. chain_message P cid segments (i - 1) = Some m' \<and> p = link_of P m')))"

definition chain_holds :: "platform \<Rightarrow> bytes \<Rightarrow> segment_entry list \<Rightarrow> key_object \<Rightarrow> bool" where
  "chain_holds P cid segments key = (\<forall>i \<in> gop ` set segments. segment_holds P cid segments key i)"

lemma by_index_Some: "by_index segments i = Some e \<Longrightarrow> gop e = i \<and> e \<in> set segments"
  by (auto simp: by_index_def dest!: map_of_SomeD)

lemma by_index_in: "i \<in> gop ` set segments \<Longrightarrow> \<exists>e. by_index segments i = Some e"
proof -
  assume "i \<in> gop ` set segments"
  then have "i \<in> fst ` set (rev (map (\<lambda>s. (gop s, s)) segments))" by (auto simp: image_image)
  then show ?thesis unfolding by_index_def by (metis map_of_eq_None_iff not_Some_eq)
qed

lemma chain_walk_step:
  assumes "ents i = Some e"
  shows "chain_walk P cid ents key M vs (i # is) = Some (w, None) \<longleftrightarrow>
    (\<exists>h p m s. buffer_from P (e_hash e) = Some h \<and> buffer_from P (e_prev e) = Some p
      \<and> p = (if i = 0 then ZERO_LINK else case M (i - 1) of Some previous \<Rightarrow> link_of P previous | None \<Rightarrow> p)
      \<and> segment_message cid i h p = Some m \<and> buffer_from P (e_sig e) = Some s \<and> verify_es256 P m s key
      \<and> chain_walk P cid ents key (M(i \<mapsto> m)) (vs @ [i]) is = Some (w, None))"
proof (cases "buffer_from P (e_hash e)")
  case (Some h)
  show ?thesis
  proof (cases "buffer_from P (e_prev e)")
    case p: (Some p)
    show ?thesis
    proof (cases "segment_message cid i h p")
      case None
      then show ?thesis using assms Some p by (simp add: Let_def)
    next
      case m: (Some m)
      then show ?thesis using assms Some p
        by (cases "buffer_from P (e_sig e)") (auto simp: Let_def)
    qed
  qed (use assms Some in simp)
qed (use assms in simp)

lemma chain_walk_iff:
  assumes "sorted (vs @ is)" "distinct (vs @ is)" "set (vs @ is) = gop ` set segments"
    and "\<And>j. M j = (if j \<in> set vs then chain_message P cid segments j else None)"
    and "\<forall>j \<in> set vs. chain_message P cid segments j \<noteq> None"
  shows "(\<exists>w. chain_walk P cid (by_index segments) key M vs is = Some (w, None)) \<longleftrightarrow>
     (\<forall>i \<in> set is. segment_holds P cid segments key i)"
    and "chain_walk P cid (by_index segments) key M vs is = Some (w, None) \<Longrightarrow> w = vs @ is"
  using assms
proof (induction "is" arbitrary: vs M)
  case Nil
  { case 1 then show ?case by simp next case 2 then show ?case by simp }
next
  case (Cons i "is")
  have before: "i - 1 \<in> gop ` set segments \<longleftrightarrow> i - 1 \<in> set vs"
    if "sorted (vs @ i # is)" "set (vs @ i # is) = gop ` set segments" for vs
    unfolding that(2) [symmetric] using that(1) by (auto simp: sorted_append)
  have step: "chain_walk P cid (by_index segments) key M vs (i # is) = Some (w, None) \<longleftrightarrow>
      (\<exists>m. chain_message P cid segments i = Some m \<and> segment_holds P cid segments key i \<and>
        chain_walk P cid (by_index segments) key (M(i \<mapsto> m)) (vs @ [i]) is = Some (w, None))"
    if h: "sorted (vs @ i # is)" "set (vs @ i # is) = gop ` set segments"
      "\<And>j. M j = (if j \<in> set vs then chain_message P cid segments j else None)"
      "\<forall>j \<in> set vs. chain_message P cid segments j \<noteq> None" for vs M w
  proof -
    have "i \<in> gop ` set segments" using h(2) by auto
    then obtain e where e: "by_index segments i = Some e" "gop e = i"
      using by_index_in by_index_Some by blast
    have m: "chain_message P cid segments i = (do {
        h \<leftarrow> buffer_from P (e_hash e); p \<leftarrow> buffer_from P (e_prev e); segment_message cid i h p })"
      using e by (simp add: chain_message_def message_of_def)
    have prev: "p = (if i = 0 then ZERO_LINK else case M (i - 1) of Some previous \<Rightarrow> link_of P previous | None \<Rightarrow> p)
      \<longleftrightarrow> (i = 0 \<longrightarrow> p = ZERO_LINK) \<and> (i \<noteq> 0 \<and> i - 1 \<in> gop ` set segments \<longrightarrow>
          (\<exists>m'. chain_message P cid segments (i - 1) = Some m' \<and> p = link_of P m'))" for p
      using bspec [OF h(4), of "i - 1"] unfolding before [OF h(1,2)] h(3) by auto
    show ?thesis unfolding chain_walk_step [where ents = "by_index segments", OF e(1)] m segment_holds_def prev
      using e(1) by auto
  qed
  have good: "sorted ((vs @ [i]) @ is)" "distinct ((vs @ [i]) @ is)" "set ((vs @ [i]) @ is) = gop ` set segments"
      "(M(i \<mapsto> m)) j = (if j \<in> set (vs @ [i]) then chain_message P cid segments j else None)"
      "\<forall>j \<in> set (vs @ [i]). chain_message P cid segments j \<noteq> None"
    if "sorted (vs @ i # is)" "distinct (vs @ i # is)" "set (vs @ i # is) = gop ` set segments"
      "\<And>j. M j = (if j \<in> set vs then chain_message P cid segments j else None)"
      "\<forall>j \<in> set vs. chain_message P cid segments j \<noteq> None" "chain_message P cid segments i = Some m"
    for vs M m j
    using that by auto
  have msg: "segment_holds P cid segments key i \<Longrightarrow> \<exists>m. chain_message P cid segments i = Some m"
  proof -
    assume "segment_holds P cid segments key i"
    then obtain e h p m where "by_index segments i = Some e" "buffer_from P (e_hash e) = Some h"
      "buffer_from P (e_prev e) = Some p" "segment_message cid i h p = Some m"
      unfolding segment_holds_def by blast
    then show ?thesis using by_index_Some [of segments i e]
      by (simp add: chain_message_def message_of_def)
  qed
  { case 1
    note g = good [OF 1]
    have "(\<exists>w. chain_walk P cid (by_index segments) key M vs (i # is) = Some (w, None)) \<longleftrightarrow>
      segment_holds P cid segments key i \<and>
      (\<exists>w m. chain_message P cid segments i = Some m \<and>
        chain_walk P cid (by_index segments) key (M(i \<mapsto> m)) (vs @ [i]) is = Some (w, None))"
      using step [OF 1(1) 1(3) 1(4) 1(5)] by blast
    also have "\<dots> \<longleftrightarrow> segment_holds P cid segments key i \<and> (\<forall>i \<in> set is. segment_holds P cid segments key i)"
    proof (cases "chain_message P cid segments i")
      case None
      then show ?thesis using msg by auto
    next
      case (Some m)
      show ?thesis unfolding Some option.inject
        using Cons.IH(1) [OF g(1-5) [OF Some]] by blast
    qed
    finally show ?case by simp
  next
    case 2
    from 2(1) step [OF 2(2) 2(4) 2(5) 2(6)] obtain m where g:
      "chain_message P cid segments i = Some m"
      "chain_walk P cid (by_index segments) key (M(i \<mapsto> m)) (vs @ [i]) is = Some (w, None)" by blast
    have "w = (vs @ [i]) @ is" by (rule Cons.IH(2) [OF g(2) good [OF 2(2-6) g(1)]])
    then show ?case by simp }
qed

lemma verify_chain_holds:
  "(\<exists>r. verify_chain P cid n segments key = Some r \<and> ch_status r \<noteq> Chain_tampered) \<longleftrightarrow> chain_holds P cid segments key"
  "verify_chain P cid n segments key = Some r \<Longrightarrow> ch_status r \<noteq> Chain_tampered \<Longrightarrow>
    ch_verified r = sorted_list_of_set (gop ` set segments) \<and> ch_reason r = None \<and>
    (ch_status r = Complete \<longleftrightarrow> 0 \<le> n \<and> gop ` set segments = {0..<n})"
proof -
  let ?is = "sorted_list_of_set (gop ` set segments)"
  have a: "sorted ([] @ ?is)" "distinct ([] @ ?is)" "set ([] @ ?is) = gop ` set segments" by simp_all
  note w = chain_walk_iff [where M = Map.empty, OF a]
  have w1: "(\<exists>v. chain_walk P cid (by_index segments) key Map.empty [] ?is = Some (v, None)) \<longleftrightarrow>
     chain_holds P cid segments key"
    using w(1) [of P cid key] by (simp add: chain_holds_def)
  have w2: "v = ?is" if "chain_walk P cid (by_index segments) key Map.empty [] ?is = Some (v, None)" for v
    using w(2) [OF _ _ that] by simp
  have c: "int (length ?is) = n \<and> ?is = map int [0..<length ?is] \<longleftrightarrow> 0 \<le> n \<and> gop ` set segments = {0..<n}"
  proof (intro iffI conjI; elim conjE)
    assume n: "int (length ?is) = n" "?is = map int [0..<length ?is]"
    show "0 \<le> n" unfolding n(1) [symmetric] by (rule of_nat_0_le_iff)
    have "set ?is = int ` {0..<length ?is}" using arg_cong [OF n(2), of set] by (simp only: set_map set_upt)
    also have "\<dots> = {0..<n}" unfolding image_int_atLeastLessThan n(1) by simp
    finally show "gop ` set segments = {0..<n}" by simp
  next
    assume n: "0 \<le> n" "gop ` set segments = {0..<n}"
    then show "int (length ?is) = n" by simp
    have "sorted (map int [0..<nat n])" by (simp add: sorted_iff_nth_mono)
    moreover have "set (map int [0..<nat n]) = {0..<n}" using n(1) by (simp add: image_int_atLeastLessThan)
    moreover have "distinct (map int [0..<nat n])" by (simp add: distinct_map)
    ultimately have "?is = map int [0..<nat n]" unfolding n(2) by (metis sorted_list_of_set.idem_if_sorted_distinct)
    then show "?is = map int [0..<length ?is]" by (metis length_map length_upt diff_zero)
  qed
  show "(\<exists>r. verify_chain P cid n segments key = Some r \<and> ch_status r \<noteq> Chain_tampered) \<longleftrightarrow> chain_holds P cid segments key"
    unfolding w1 [symmetric] verify_chain_def by (auto simp: Let_def split: option.splits prod.splits)
  show "ch_verified r = ?is \<and> ch_reason r = None \<and> (ch_status r = Complete \<longleftrightarrow> 0 \<le> n \<and> gop ` set segments = {0..<n})"
    if r: "verify_chain P cid n segments key = Some r" "ch_status r \<noteq> Chain_tampered"
  proof -
    from r obtain v where v: "chain_walk P cid (by_index segments) key Map.empty [] ?is = Some (v, None)"
      "r = \<lparr>ch_status = (if int (length v) = n \<and> v = map int [0..<length v] then Complete else Clip), ch_verified = v, ch_reason = None\<rparr>"
      unfolding verify_chain_def by (auto simp: Let_def split: option.splits prod.splits)
    then show ?thesis using w2 [OF v(1)] c by simp
  qed
qed

text \<open>C13. The walk accepts a list of entries exactly when every index present carries a valid signature over the
  message rebuilt from its own fields, the first index hangs on the zero link and an index whose predecessor is
  present hangs on the hash of the predecessor's message; it then credits exactly the indices present, and calls
  the chain complete exactly when they are 0 to \<open>segment_count - 1\<close>.\<close>

theorem verify_chain_spec:
  "(\<exists>r. verify_chain P cid n segments key = Some r \<and> ch_status r \<noteq> Chain_tampered
      \<and> ch_verified r = sorted_list_of_set (gop ` set segments)
      \<and> (ch_status r = Complete \<longleftrightarrow> 0 \<le> n \<and> gop ` set segments = {0..<n})) = chain_holds P cid segments key
   \<and> (\<exists>r. verify_chain P cid n segments key = Some r \<and> ch_status r \<noteq> Chain_tampered) = chain_holds P cid segments key"
  using verify_chain_holds by metis

section \<open>A signed chain and its clips\<close>

lemma sign_from_nth:
  assumes "sign_from P sign cid i0 prev hs = Some es" "k < length es"
  shows "gop (es ! k) = int (i0 + k) \<and>
    (\<exists>p m. e_hash (es ! k) = Some (JStr (b64url_encode (hs ! k))) \<and> e_prev (es ! k) = Some (JStr (b64url_encode p))
      \<and> segment_message cid (int (i0 + k)) (hs ! k) p = Some m
      \<and> e_sig (es ! k) = Some (JStr (b64url_encode (sign m)))
      \<and> message_of P cid (es ! k) = Some m
      \<and> (if k = 0 then p = prev else \<exists>m'. message_of P cid (es ! (k - 1)) = Some m' \<and> p = link_of P m'))"
  using assms
proof (induction hs arbitrary: i0 prev es k)
  case (Cons h hs)
  from Cons.prems(1) obtain m rest where m: "segment_message cid (int i0) h prev = Some m"
    "sign_from P sign cid (Suc i0) (link_of P m) hs = Some rest"
    "es = \<lparr>gop = int i0, e_hash = Some (JStr (b64url_encode h)), e_prev = Some (JStr (b64url_encode prev)),
       e_sig = Some (JStr (b64url_encode (sign m))), e_timing = None\<rparr> # rest"
    by (auto simp: bind_eq_Some_conv)
  have m0: "message_of P cid (es ! 0) = Some m"
    using m by (simp add: message_of_def b64_decode_encode)
  show ?case
  proof (cases k)
    case 0
    then show ?thesis using m m0 by simp
  next
    case (Suc j)
    then have "j < length rest" using Cons.prems(2) m(3) by simp
    from Cons.IH [OF m(2) this] show ?thesis
      using m0 by (cases j) (auto simp: Suc m(3))
  qed
qed simp

lemma sign_from_length: "sign_from P sign cid i prev hs = Some es \<Longrightarrow> length es = length hs"
  by (induction hs arbitrary: i prev es) (auto simp: bind_eq_Some_conv)

lemma sign_chain_holds:
  assumes "sign_chain P sign cid hs = Some es" "set sub \<subseteq> set es"
    and "\<forall>m. length m = 96 \<longrightarrow> verify_es256 P m (sign m) key"
  shows "chain_holds P cid sub key"
proof -
  note f = sign_from_nth [OF assms(1) [unfolded sign_chain_def]]
  have ix: "\<exists>k < length es. by_index sub i = Some (es ! k) \<and> i = int k" if i: "i \<in> gop ` set sub" for i
  proof -
    obtain e where e: "by_index sub i = Some e" "gop e = i" "e \<in> set sub"
      using by_index_in [OF i] by_index_Some by blast
    then obtain k where "k < length es" "es ! k = e" using assms(2) by (metis in_set_conv_nth subsetD)
    then show ?thesis using e f [of k] by auto
  qed
  show ?thesis unfolding chain_holds_def
  proof
    fix i
    assume i: "i \<in> gop ` set sub"
    from ix [OF i] obtain k where k: "k < length es" "by_index sub i = Some (es ! k)" "i = int k" by blast
    from f [OF k(1)] obtain p m where m: "e_hash (es ! k) = Some (JStr (b64url_encode (hs ! k)))"
      "e_prev (es ! k) = Some (JStr (b64url_encode p))" "segment_message cid i (hs ! k) p = Some m"
      "e_sig (es ! k) = Some (JStr (b64url_encode (sign m)))"
      "if k = 0 then p = ZERO_LINK else \<exists>m'. message_of P cid (es ! (k - 1)) = Some m' \<and> p = link_of P m'"
      unfolding k(3) by auto
    have "length m = 96" using segment_message_eq [OF m(3) m(3)] by simp
    then have "verify_es256 P m (sign m) key" using assms(3) by blast
    moreover have "\<exists>m'. chain_message P cid sub (i - 1) = Some m' \<and> p = link_of P m'"
      if "i \<noteq> 0" "i - 1 \<in> gop ` set sub"
    proof -
      from ix [OF that(2)] obtain j where "by_index sub (i - 1) = Some (es ! j)" "i - 1 = int j" by blast
      moreover have "j = k - 1" using k(3) that(1) calculation(2) by linarith
      ultimately have "by_index sub (i - 1) = Some (es ! (k - 1))" by simp
      then show ?thesis using m(5) that(1) k(3) by (simp add: chain_message_def)
    qed
    ultimately show "segment_holds P cid sub key i"
      unfolding segment_holds_def using k(2,3) m
      by (intro exI [of _ "es ! k"] exI [of _ "hs ! k"] exI [of _ p] exI [of _ m] exI [of _ "sign m"])
        (auto simp: b64_decode_encode split: if_splits)
  qed
qed

text \<open>C14. Whatever entries of a signed chain a clip keeps, in whatever order it lists them, the verifier accepts them
  and credits exactly their indices; it says \<open>complete\<close> exactly when all of them are there.\<close>

theorem clip_verifies:
  assumes "sign_chain P sign cid hs = Some es" "set sub \<subseteq> set es"
    and "\<forall>m. length m = 96 \<longrightarrow> verify_es256 P m (sign m) key"
  shows "\<exists>r. verify_chain P cid (int (length hs)) sub key = Some r \<and> ch_reason r = None
    \<and> ch_verified r = sorted_list_of_set (gop ` set sub)
    \<and> ch_status r = (if set sub = set es then Complete else Clip)"
proof -
  obtain r where r: "verify_chain P cid (int (length hs)) sub key = Some r" "ch_status r \<noteq> Chain_tampered"
    using verify_chain_holds(1) sign_chain_holds [OF assms] by metis
  note v = verify_chain_holds(2) [OF r]
  have g: "gop (es ! k) = int k" if "k < length es" for k
    using sign_from_nth [OF assms(1) [unfolded sign_chain_def] that] by simp
  have l: "length es = length hs" using sign_from_length assms(1) by (simp add: sign_chain_def)
  have inj: "inj_on gop (set es)" using g by (auto simp: inj_on_def in_set_conv_nth)
  have "gop ` set es = {0..<int (length hs)}"
  proof -
    have "map gop es = map int [0..<length es]" by (rule nth_equalityI) (simp_all add: g)
    then have "gop ` set es = int ` {0..<length es}" by (metis set_map set_upt)
    then show ?thesis by (simp add: image_int_atLeastLessThan l)
  qed
  then have "gop ` set sub = {0..<int (length hs)} \<longleftrightarrow> set sub = set es"
    using inj_on_image_eq_iff [OF inj assms(2) order_refl] by simp
  then have "ch_status r = (if set sub = set es then Complete else Clip)"
    using v r(2) by (cases "ch_status r") auto
  then show ?thesis using r(1) v by blast
qed

text \<open>A platform on which the hash is constant and a signature is its message's first 64 bytes.\<close>

definition toy_platform :: platform where
  "toy_platform = \<lparr>sha256 = (\<lambda>_. replicate 32 0),
     create_public_key = (\<lambda>spki. Some \<lparr>key_spki = spki, key_type = ''ec'', key_curve = Some ''prime256v1''\<rparr>),
     verify_p1363 = (\<lambda>m _ s. s = take 64 m), buffer_of_object = (\<lambda>_. None)\<rparr>"

definition toy_key :: key_object where
  "toy_key = \<lparr>key_spki = [], key_type = ''ec'', key_curve = Some ''prime256v1''\<rparr>"

theorem clip_verifies_witness:
  "\<exists>es r. sign_chain toy_platform (take 64) (replicate 16 7) [replicate 32 1, replicate 32 2] = Some es
    \<and> verify_chain toy_platform (replicate 16 7) 2 [es ! 1] toy_key = Some r \<and> ch_status r = Clip"
proof -
  have l: "length (link_of toy_platform m) = 32" for m by (simp add: link_of_def toy_platform_def)
  obtain es where es: "sign_chain toy_platform (take 64) (replicate 16 7) [replicate 32 1, replicate 32 2] = Some es"
    by (simp add: sign_chain_def segment_message_def segment_message_with_def put_be_def Let_def l)
  have len: "length es = 2" using sign_from_length [OF es [unfolded sign_chain_def]] by simp
  have d: "gop (es ! 0) = 0" "gop (es ! 1) = 1"
    using sign_from_nth [OF es [unfolded sign_chain_def], of 0] sign_from_nth [OF es [unfolded sign_chain_def], of 1] len by simp_all
  have v: "\<forall>m. length m = 96 \<longrightarrow> verify_es256 toy_platform m (take 64 m) toy_key"
    by (simp add: verify_es256_def toy_platform_def)
  have m: "es ! 0 \<in> set es" "es ! 1 \<in> set es" using len by simp_all
  moreover have "es ! 0 \<noteq> es ! 1" using d by auto
  ultimately have "set [es ! 1] \<subseteq> set es" "set [es ! 1] \<noteq> set es" by auto
  then show ?thesis using clip_verifies [OF es _ v, of "[es ! 1]"] es by auto
qed

section \<open>A chain binds what precedes it\<close>

lemma chain_holds_link:
  assumes "chain_holds P cid segments key" "i \<in> gop ` set segments" "i - 1 \<in> gop ` set segments" "i \<noteq> 0"
  shows "\<exists>h m m'. chain_message P cid segments i = Some m \<and> chain_message P cid segments (i - 1) = Some m'
    \<and> segment_message cid i h (link_of P m') = Some m"
proof -
  from assms(1,2) have "segment_holds P cid segments key i" unfolding chain_holds_def by (rule bspec)
  then obtain e h p m m' where e: "by_index segments i = Some e" "buffer_from P (e_hash e) = Some h"
    "buffer_from P (e_prev e) = Some p" "segment_message cid i h p = Some m"
    "chain_message P cid segments (i - 1) = Some m'" "p = link_of P m'"
    unfolding segment_holds_def using assms(3,4) by blast
  moreover have "gop e = i" using by_index_Some [OF e(1)] by simp
  ultimately have "chain_message P cid segments i = Some m"
    by (simp add: chain_message_def message_of_def)
  then show ?thesis using e(4-6) by blast
qed

lemma chain_prefix:
  assumes "chain_holds P cid A ka" "chain_holds P cid B kb" "int ` {0..n} \<subseteq> gop ` set A" "int ` {0..n} \<subseteq> gop ` set B"
    and "chain_message P cid A (int n) = chain_message P cid B (int n)"
  shows "(\<forall>i \<le> n. chain_message P cid A (int i) = chain_message P cid B (int i)) \<or>
    (\<exists>i < n. collision P (the (chain_message P cid A (int i))) (the (chain_message P cid B (int i))))"
  using assms
proof (induction n)
  case (Suc n)
  have a: "int (Suc n) \<in> gop ` set A" "int (Suc n) - 1 \<in> gop ` set A" "int (Suc n) \<in> gop ` set B" "int (Suc n) - 1 \<in> gop ` set B"
  proof -
    have "int (Suc n) \<in> int ` {0..Suc n}" "int n \<in> int ` {0..Suc n}" by (intro imageI; simp)+
    then show "int (Suc n) \<in> gop ` set A" "int (Suc n) - 1 \<in> gop ` set A" "int (Suc n) \<in> gop ` set B" "int (Suc n) - 1 \<in> gop ` set B"
      using Suc.prems(3,4) by auto
  qed
  obtain h m m' h' k k' where c: "chain_message P cid A (int (Suc n)) = Some m" "chain_message P cid A (int n) = Some m'"
    "segment_message cid (int (Suc n)) h (link_of P m') = Some m"
    "chain_message P cid B (int (Suc n)) = Some k" "chain_message P cid B (int n) = Some k'"
    "segment_message cid (int (Suc n)) h' (link_of P k') = Some k"
    using chain_holds_link [OF Suc.prems(1) a(1,2)] chain_holds_link [OF Suc.prems(2) a(3,4)] by auto
  have "k = m" using c Suc.prems(5) by simp
  then have l: "link_of P m' = link_of P k'"
    using segment_message_eq [OF c(3) c(6) [unfolded \<open>k = m\<close>]] by simp
  show ?case
  proof (cases "m' = k'")
    case True
    then have "chain_message P cid A (int n) = chain_message P cid B (int n)" using c by simp
    moreover have "int ` {0..n} \<subseteq> gop ` set A" "int ` {0..n} \<subseteq> gop ` set B"
      using Suc.prems(3,4) by (auto simp: image_subset_iff)
    ultimately have "(\<forall>i \<le> n. chain_message P cid A (int i) = chain_message P cid B (int i)) \<or>
      (\<exists>i < n. collision P (the (chain_message P cid A (int i))) (the (chain_message P cid B (int i))))"
      using Suc.IH Suc.prems(1,2) by blast
    then show ?thesis using Suc.prems(5) by (metis le_Suc_eq less_SucI)
  next
    case False
    then have "collision P (the (chain_message P cid A (int n))) (the (chain_message P cid B (int n)))"
      using l c by (simp add: collision_def link_of_def)
    then show ?thesis by blast
  qed
qed simp

text \<open>C15. The last message of an accepted chain binds every segment before it: two accepted chains of one capture that
  carry the segments 0 to \<open>n\<close> and agree on message \<open>n\<close> agree on every earlier message, content hash included, unless
  two of their messages are a collision of SHA-256.\<close>

theorem chain_binds_prefix:
  assumes "verify_chain P cid c A ka = Some ra" "ch_status ra \<noteq> Chain_tampered" "int ` {0..n} \<subseteq> gop ` set A"
    and "verify_chain P cid c' B kb = Some rb" "ch_status rb \<noteq> Chain_tampered" "int ` {0..n} \<subseteq> gop ` set B"
    and "chain_message P cid A (int n) = chain_message P cid B (int n)"
  shows "(\<forall>i \<le> n. chain_message P cid A (int i) = chain_message P cid B (int i)) \<or>
    (\<exists>i < n. collision P (the (chain_message P cid A (int i))) (the (chain_message P cid B (int i))))"
proof (rule chain_prefix [OF _ _ assms(3,6,7)])
  show "chain_holds P cid A ka" using verify_chain_holds(1) [of P cid c A ka] assms(1,2) by blast
  show "chain_holds P cid B kb" using verify_chain_holds(1) [of P cid c' B kb] assms(4,5) by blast
qed

theorem chain_binds_prefix_witness:
  "\<exists>es r. sign_chain toy_platform (take 64) (replicate 16 7) [replicate 32 1, replicate 32 2] = Some es
    \<and> verify_chain toy_platform (replicate 16 7) 2 es toy_key = Some r
    \<and> (\<forall>i \<le> 1. chain_message toy_platform (replicate 16 7) es (int i) = chain_message toy_platform (replicate 16 7) (rev es) (int i))"
proof -
  have l: "length (link_of toy_platform m) = 32" for m by (simp add: link_of_def toy_platform_def)
  obtain es where es: "sign_chain toy_platform (take 64) (replicate 16 7) [replicate 32 1, replicate 32 2] = Some es"
    by (simp add: sign_chain_def segment_message_def segment_message_with_def put_be_def Let_def l)
  note f = sign_from_nth [OF es [unfolded sign_chain_def]]
  have len: "length es = 2" using sign_from_length [OF es [unfolded sign_chain_def]] by simp
  have v: "\<forall>m. length m = 96 \<longrightarrow> verify_es256 toy_platform m (take 64 m) toy_key"
    by (simp add: verify_es256_def toy_platform_def)
  have h: "chain_holds toy_platform (replicate 16 7) es toy_key" "chain_holds toy_platform (replicate 16 7) (rev es) toy_key"
    using sign_chain_holds [OF es _ v] by auto
  obtain a b where ab: "es = [a, b]" using len by (auto simp: length_Suc_conv numeral_2_eq_2)
  have g: "gop a = 0" "gop b = 1" using f [of 0] f [of 1] ab by simp_all
  have i: "int ` {0..1} \<subseteq> gop ` set es" using g ab by (auto simp: image_def le_Suc_eq numeral_2_eq_2)
  then have i': "int ` {0..1} \<subseteq> gop ` set (rev es)" by simp
  have e: "by_index es = by_index (rev es)" using g ab by (auto simp: by_index_def)
  then have c: "chain_message toy_platform (replicate 16 7) es = chain_message toy_platform (replicate 16 7) (rev es)"
    by (simp add: chain_message_def fun_eq_iff)
  obtain r r' where r: "verify_chain toy_platform (replicate 16 7) 2 es toy_key = Some r" "ch_status r \<noteq> Chain_tampered"
    "verify_chain toy_platform (replicate 16 7) 2 (rev es) toy_key = Some r'" "ch_status r' \<noteq> Chain_tampered"
    using h verify_chain_holds(1) by metis
  have n: "\<not> collision toy_platform (the (chain_message toy_platform (replicate 16 7) es (int i)))
      (the (chain_message toy_platform (replicate 16 7) (rev es) (int i)))" for i
    unfolding c by (simp add: collision_def)
  show ?thesis
    using chain_binds_prefix [OF r(1,2) i r(3,4) i'] c n es r(1) by metis
qed

end
