(* ===== verification/Timing.thy ===== *)
theory Timing
  imports Core
begin

text \<open>
  \<open>tools/src/timing.ts\<close>: the timing record of a segment, its hash, the root over the hashes, the
  conversion of received ticks into the signed timescales, and the test of an edit list against a
  segment's extent. A bigint is an \<open>int\<close>; \<open>TimingUnencodable\<close> and the two plain errors are the left of a sum.
\<close>

section \<open>The record\<close>

record timing_values =
  video_dts :: "int list"
  video_cts :: "int list"
  video_end :: int
  audio_dts :: "int list"
  audio_dur :: "int list"

record timescales =
  ts_video :: int
  ts_audio :: "int option"

datatype timing_error = Timing_unencodable | Timing_arity

definition enc_int64 :: "int \<Rightarrow> bytes" where
  "enc_int64 v = be_bytes 8 (nat (v mod 2 ^ 64))"

definition int64 :: "int \<Rightarrow> timing_error + bytes" where
  "int64 v = (if v < - (2 ^ 63) \<or> v > 2 ^ 63 - 1 then Inl Timing_unencodable else Inr (enc_int64 v))"

definition uint64 :: "int \<Rightarrow> timing_error + bytes" where
  "uint64 v = (if v < 0 \<or> v > 2 ^ 64 - 1 then Inl Timing_unencodable else Inr (be_bytes 8 (nat v)))"

definition uint32 :: "int \<Rightarrow> timing_error + bytes" where
  "uint32 v = (if v < 0 \<or> v > 2 ^ 32 - 1 then Inl Timing_unencodable else Inr (be_bytes 4 (nat v)))"

definition video_sample :: "int \<times> int \<Rightarrow> timing_error + bytes" where
  "video_sample dc = rbind (int64 (fst dc)) (\<lambda>a. rbind (int64 (snd dc)) (\<lambda>b. Inr (a @ b)))"

definition audio_sample :: "int \<times> int \<Rightarrow> timing_error + bytes" where
  "audio_sample dd = rbind (int64 (fst dd)) (\<lambda>a. rbind (uint32 (snd dd)) (\<lambda>b. Inr (a @ b)))"

definition timing_record :: "timing_values \<Rightarrow> timing_error + bytes" where
  "timing_record t =
     (if length (video_dts t) \<noteq> length (video_cts t) then Inl Timing_arity
      else if length (audio_dts t) \<noteq> length (audio_dur t) then Inl Timing_arity
      else rbind (uint32 (int (length (video_dts t)))) (\<lambda>v.
           rbind (rmap video_sample (zip (video_dts t) (video_cts t))) (\<lambda>vs.
           rbind (uint64 (video_end t)) (\<lambda>e.
           rbind (uint32 (int (length (audio_dts t)))) (\<lambda>a.
           rbind (rmap audio_sample (zip (audio_dts t) (audio_dur t))) (\<lambda>as.
             Inr (v @ concat vs @ e @ a @ concat as)))))))"

definition timing_hash :: "platform \<Rightarrow> timing_values \<Rightarrow> timing_error + bytes" where
  "timing_hash P t = rbind (timing_record t) (\<lambda>b. Inr (sha256 P b))"

definition timing_root :: "platform \<Rightarrow> bytes list \<Rightarrow> timing_error + bytes" where
  "timing_root P hashes = (if \<exists>h \<in> set hashes. length h \<noteq> 32 then Inl Timing_arity else Inr (sha256 P (concat hashes)))"

section \<open>Received ticks in the signed timescales\<close>

text \<open>The remainder is only compared with 0 and the quotient only taken when it is exact, where the
  truncated division of bigints and \<open>div\<close> agree.\<close>

definition scale :: "int option \<Rightarrow> int option \<Rightarrow> int \<Rightarrow> int option" where
  "scale from_ts to_ts v = (case (from_ts, to_ts) of
     (Some f, Some t) \<Rightarrow> if f \<le> 0 \<or> t \<le> 0 then None else if v * t mod f = 0 then Some (v * t div f) else None
   | _ \<Rightarrow> None)"

definition convert_timing :: "timing_values \<Rightarrow> timescales \<Rightarrow> timescales \<Rightarrow> timing_values option" where
  "convert_timing t received sealed = (let
       video = scale (Some (ts_video received)) (Some (ts_video sealed));
       audio = scale (ts_audio received) (ts_audio sealed)
     in do {
       vd \<leftarrow> omap video (video_dts t);
       vc \<leftarrow> omap video (video_cts t);
       ve \<leftarrow> video (video_end t);
       ad \<leftarrow> omap audio (audio_dts t);
       au \<leftarrow> omap audio (audio_dur t);
       Some \<lparr>video_dts = vd, video_cts = vc, video_end = ve, audio_dts = ad, audio_dur = au\<rparr> })"

text \<open>\<open>Inr None\<close> is the \<open>null\<close> of the code; any error but \<open>TimingUnencodable\<close> propagates.\<close>

definition received_timing_hash :: "platform \<Rightarrow> timing_values \<Rightarrow> timescales \<Rightarrow> timescales \<Rightarrow> timing_error + bytes option" where
  "received_timing_hash P t received sealed = (case convert_timing t received sealed of
     None \<Rightarrow> Inr None
   | Some converted \<Rightarrow> (case timing_hash P converted of
       Inr h \<Rightarrow> Inr (Some h)
     | Inl Timing_unencodable \<Rightarrow> Inr None
     | Inl e \<Rightarrow> Inl e))"

section \<open>Extents and edits\<close>

record extent =
  ext_start :: int
  ext_end :: int

record media_edit =
  media_time :: int
  edit_duration :: int
  movie_timescale :: int
  media_timescale :: int

definition edit_trims :: "media_edit \<Rightarrow> extent \<Rightarrow> bool" where
  "edit_trims edit ext =
     (if media_time edit > ext_start ext then True
      else (edit_duration edit + 1) * media_timescale edit \<le> (ext_end ext - media_time edit) * movie_timescale edit)"

text \<open>When a frame is shown and until when, relative to the segment; a missing offset is a TypeError.\<close>

definition frame_span :: "timing_values \<Rightarrow> nat \<Rightarrow> (int \<times> int) option" where
  "frame_span t i = (case at (video_cts t) i of None \<Rightarrow> None | Some c \<Rightarrow>
     let dts = video_dts t ! i;
         nxt = (case at (video_dts t) (i + 1) of Some d \<Rightarrow> d | None \<Rightarrow> video_end t);
         shown = dts + c
     in Some (shown, shown + (nxt - dts)))"

definition widen :: "int option \<times> int option \<Rightarrow> int \<times> int \<Rightarrow> int option \<times> int option" where
  "widen acc span = (case (acc, span) of ((start, finish), (shown, until)) \<Rightarrow>
     ((case start of None \<Rightarrow> Some shown | Some s \<Rightarrow> Some (if shown < s then shown else s)),
      (case finish of None \<Rightarrow> Some until | Some e \<Rightarrow> Some (if until > e then until else e))))"

definition video_extent :: "timing_values \<Rightarrow> int \<Rightarrow> extent option" where
  "video_extent t dts0 = do {
     spans \<leftarrow> omap (frame_span t) [0..<length (video_dts t)];
     let (start, finish) = foldl widen (None, None) spans;
     Some \<lparr>ext_start = dts0 + (case start of Some s \<Rightarrow> s | None \<Rightarrow> 0),
           ext_end = dts0 + (case finish of Some e \<Rightarrow> e | None \<Rightarrow> video_end t)\<rparr> }"

text \<open>The outer \<open>None\<close> is the TypeError of a missing duration, the inner one the code's \<open>null\<close>.\<close>

definition audio_extent :: "timing_values \<Rightarrow> int \<Rightarrow> extent option option" where
  "audio_extent t adts0 = (if audio_dts t = [] then Some None
     else let l = length (audio_dts t) - 1 in
       case at (audio_dur t) l of None \<Rightarrow> None
       | Some d \<Rightarrow> Some (Some \<lparr>ext_start = adts0, ext_end = adts0 + audio_dts t ! l + d\<rparr>))"

section \<open>The record has one reading\<close>

definition dec_int64 :: "bytes \<Rightarrow> (int \<times> bytes) option" where
  "dec_int64 bs = map_option (\<lambda>(n, r). (signed_of 8 n, r)) (take_be 8 bs)"

definition in_int64 :: "int \<Rightarrow> bool" where "in_int64 v = (- (2 ^ 63) \<le> v \<and> v < 2 ^ 63)"

lemma signed_of_int64: "in_int64 v \<Longrightarrow> signed_of 8 (nat (v mod 2 ^ 64)) = v"
proof (cases "0 \<le> v")
  case True
  assume "in_int64 v"
  then have "v mod 2 ^ 64 = v" using True by (simp add: in_int64_def)
  then show ?thesis using \<open>in_int64 v\<close> True by (simp add: signed_of_def in_int64_def nat_less_iff)
next
  case False
  assume v: "in_int64 v"
  then have "(v + 2 ^ 64) mod 2 ^ 64 = v + 2 ^ 64" using False by (intro mod_pos_pos_trivial) (simp_all add: in_int64_def)
  then have "v mod 2 ^ 64 = v + 2 ^ 64" by simp
  then show ?thesis using v False by (simp add: signed_of_def in_int64_def)
qed

interpretation int64: stream_codec enc_int64 dec_int64 in_int64
proof unfold_locales
  fix v r
  assume v: "in_int64 v"
  have "nat (v mod 2 ^ 64) < 256 ^ 8"
    using pos_mod_bound [of "2 ^ 64" v] pos_mod_sign [of "2 ^ 64" v] by (simp add: nat_less_iff)
  then show "dec_int64 (enc_int64 v @ r) = Some (v, r)"
    using signed_of_int64 [OF v] be_field.dec_enc_append [of "nat (v mod 2 ^ 64)" 8 r]
    by (simp add: dec_int64_def enc_int64_def)
qed

text \<open>Two self-delimiting fields after each other are one.\<close>

locale stream_pair = a: stream_codec ea da oka + b: stream_codec eb db okb
  for ea :: "'a \<Rightarrow> 'c list" and da oka and eb :: "'b \<Rightarrow> 'c list" and db okb
begin

definition enc_pair :: "'a \<times> 'b \<Rightarrow> 'c list" where "enc_pair p = ea (fst p) @ eb (snd p)"

definition dec_pair :: "'c list \<Rightarrow> (('a \<times> 'b) \<times> 'c list) option" where
  "dec_pair bs = do { (x, r) \<leftarrow> da bs; (y, s) \<leftarrow> db r; Some ((x, y), s) }"

lemma dec_pair_enc: "oka (fst p) \<and> okb (snd p) \<Longrightarrow> dec_pair (enc_pair p @ r) = Some (p, r)"
  by (simp add: dec_pair_def enc_pair_def a.dec_enc_append b.dec_enc_append)

end

sublocale stream_pair \<subseteq> pair: stream_codec enc_pair dec_pair "\<lambda>p. oka (fst p) \<and> okb (snd p)"
  by unfold_locales (rule dec_pair_enc)

definition enc_uint32 :: "int \<Rightarrow> bytes" where "enc_uint32 v = be_bytes 4 (nat v)"
definition dec_uint32 :: "bytes \<Rightarrow> (int \<times> bytes) option" where
  "dec_uint32 bs = map_option (\<lambda>(n, r). (int n, r)) (take_be 4 bs)"
definition in_uint32 :: "int \<Rightarrow> bool" where "in_uint32 v = (0 \<le> v \<and> v < 2 ^ 32)"

interpretation uint32: stream_codec enc_uint32 dec_uint32 in_uint32
proof unfold_locales
  fix v r
  assume v: "in_uint32 v"
  then have "nat v < 256 ^ 4" by (simp add: in_uint32_def nat_less_iff)
  then show "dec_uint32 (enc_uint32 v @ r) = Some (v, r)"
    using v be_field.dec_enc_append [of "nat v" 4 r] by (simp add: dec_uint32_def enc_uint32_def in_uint32_def)
qed

interpretation vsample: stream_pair enc_int64 dec_int64 in_int64 enc_int64 dec_int64 in_int64
  by unfold_locales

interpretation asample: stream_pair enc_int64 dec_int64 in_int64 enc_uint32 dec_uint32 in_uint32
  by unfold_locales

lemma int64_Inr: "int64 v = Inr b \<longleftrightarrow> in_int64 v \<and> b = enc_int64 v"
  by (auto simp: int64_def in_int64_def)

lemma uint32_Inr: "uint32 v = Inr b \<longleftrightarrow> in_uint32 v \<and> b = enc_uint32 v"
  by (auto simp: uint32_def in_uint32_def enc_uint32_def)

lemma uint64_Inr: "uint64 v = Inr b \<longleftrightarrow> 0 \<le> v \<and> v < 2 ^ 64 \<and> b = be_bytes 8 (nat v)"
  by (auto simp: uint64_def)

lemma video_sample_Inr: "video_sample p = Inr b \<longleftrightarrow> in_int64 (fst p) \<and> in_int64 (snd p) \<and> b = vsample.enc_pair p"
  by (auto simp: video_sample_def int64_Inr vsample.enc_pair_def)

lemma audio_sample_Inr: "audio_sample p = Inr b \<longleftrightarrow> in_int64 (fst p) \<and> in_uint32 (snd p) \<and> b = asample.enc_pair p"
  by (auto simp: audio_sample_def int64_Inr uint32_Inr asample.enc_pair_def)

lemma rmap_enc:
  assumes "\<And>p b. f p = Inr b \<longleftrightarrow> ok p \<and> b = enc p"
  shows "rmap f ps = Inr bs \<longleftrightarrow> (\<forall>p \<in> set ps. ok p) \<and> bs = map enc ps"
  unfolding rmap_Inr_iff assms by (induction ps arbitrary: bs) (auto simp: list_all2_Cons1)

lemma timing_record_Inr:
  "timing_record t = Inr b \<longleftrightarrow>
     length (video_dts t) = length (video_cts t) \<and> length (audio_dts t) = length (audio_dur t)
     \<and> in_uint32 (int (length (video_dts t))) \<and> in_uint32 (int (length (audio_dts t)))
     \<and> 0 \<le> video_end t \<and> video_end t < 2 ^ 64
     \<and> (\<forall>p \<in> set (zip (video_dts t) (video_cts t)). in_int64 (fst p) \<and> in_int64 (snd p))
     \<and> (\<forall>p \<in> set (zip (audio_dts t) (audio_dur t)). in_int64 (fst p) \<and> in_uint32 (snd p))
     \<and> b = enc_uint32 (int (length (video_dts t)))
         @ concat (map vsample.enc_pair (zip (video_dts t) (video_cts t)))
         @ be_bytes 8 (nat (video_end t)) @ enc_uint32 (int (length (audio_dts t)))
         @ concat (map asample.enc_pair (zip (audio_dts t) (audio_dur t)))"
  using rmap_enc [of video_sample, OF video_sample_Inr [unfolded conj_assoc [symmetric]]]
    rmap_enc [of audio_sample, OF audio_sample_Inr [unfolded conj_assoc [symmetric]]]
  by (auto simp: timing_record_def uint32_Inr uint64_Inr)

lemma timing_record_inj:
  fixes t u :: timing_values
  assumes "timing_record t = Inr b" "timing_record u = Inr b"
  shows "t = u"
proof -
  note t = assms(1) [unfolded timing_record_Inr] and u = assms(2) [unfolded timing_record_Inr]
  have i: "in_uint32 (int (length (video_dts t)))" "in_uint32 (int (length (video_dts u)))"
    "in_uint32 (int (length (audio_dts t)))" "in_uint32 (int (length (audio_dts u)))"
    using t u by blast+
  define rest where "rest = (\<lambda>t :: timing_values. be_bytes 8 (nat (video_end t)) @ enc_uint32 (int (length (audio_dts t)))
         @ concat (map asample.enc_pair (zip (audio_dts t) (audio_dur t))))"
  have n: "int (length (video_dts t)) = int (length (video_dts u))"
    and c: "concat (map vsample.enc_pair (zip (video_dts t) (video_cts t))) @ rest t
      = concat (map vsample.enc_pair (zip (video_dts u) (video_cts u))) @ rest u"
    using uint32.no_shift [OF i(1,2)] t u unfolding rest_def by metis+
  have "zip (video_dts t) (video_cts t) = zip (video_dts u) (video_cts u) \<and> rest t = rest u"
    by (rule vsample.pair.concat_inj [OF _ _ _ c]) (use t u n in auto)
  then have v: "video_dts t = video_dts u" "video_cts t = video_cts u" and r: "rest t = rest u"
    using t u n by (metis (no_types) map_fst_zip map_snd_zip)+
  have e: "nat (video_end t) < 256 ^ 8" "nat (video_end u) < 256 ^ 8"
    using t u by (simp_all add: nat_less_iff)
  from r have k: "nat (video_end t) = nat (video_end u)"
    and m: "enc_uint32 (int (length (audio_dts t))) @ concat (map asample.enc_pair (zip (audio_dts t) (audio_dur t)))
      = enc_uint32 (int (length (audio_dts u))) @ concat (map asample.enc_pair (zip (audio_dts u) (audio_dur u)))"
    using be_field.no_shift [OF e] unfolding rest_def by blast+
  have a: "int (length (audio_dts t)) = int (length (audio_dts u))"
    and d: "concat (map asample.enc_pair (zip (audio_dts t) (audio_dur t))) @ []
      = concat (map asample.enc_pair (zip (audio_dts u) (audio_dur u))) @ []"
    using uint32.no_shift [OF i(3,4) m] unfolding append_Nil2 by blast+
  have "zip (audio_dts t) (audio_dur t) = zip (audio_dts u) (audio_dur u) \<and> ([] :: bytes) = []"
    by (rule asample.pair.concat_inj [OF _ _ _ d]) (use t u a in auto)
  then have "audio_dts t = audio_dts u" "audio_dur t = audio_dur u"
    using t u a by (metis (no_types) map_fst_zip map_snd_zip of_nat_eq_iff)+
  moreover have "0 \<le> video_end t" "0 \<le> video_end u" using t u by blast+
  then have "video_end t = video_end u" using k by simp
  ultimately show ?thesis using v by simp
qed

section \<open>What a timing hash binds\<close>

text \<open>Two counts of ticks, in two timescales, are one instant.\<close>

definition same_instant :: "int \<Rightarrow> int \<Rightarrow> int \<Rightarrow> int \<Rightarrow> bool" where
  "same_instant ts ts' v w = (v * ts' = w * ts)"

definition same_timing :: "timing_values \<Rightarrow> timescales \<Rightarrow> timing_values \<Rightarrow> timescales \<Rightarrow> bool" where
  "same_timing t r u s =
     (list_all2 (same_instant (ts_video r) (ts_video s)) (video_dts t) (video_dts u)
      \<and> list_all2 (same_instant (ts_video r) (ts_video s)) (video_cts t) (video_cts u)
      \<and> same_instant (ts_video r) (ts_video s) (video_end t) (video_end u)
      \<and> (if audio_dts t = [] then audio_dts u = [] else \<exists>a b. ts_audio r = Some a \<and> ts_audio s = Some b
           \<and> list_all2 (same_instant a b) (audio_dts t) (audio_dts u)
           \<and> list_all2 (same_instant a b) (audio_dur t) (audio_dur u)))"

lemma scale_same: "scale (Some f) (Some g) v = Some w \<Longrightarrow> same_instant f g v w"
  by (auto simp: scale_def same_instant_def split: if_splits dest!: mod_0_imp_dvd)

lemma scale_ts: "scale from_ts to_ts v = Some w \<Longrightarrow> \<exists>f g. from_ts = Some f \<and> to_ts = Some g"
  by (auto simp: scale_def split: option.splits)

lemma omap_scale: "omap (scale (Some f) (Some g)) vs = Some ws \<Longrightarrow> list_all2 (same_instant f g) vs ws"
  unfolding omap_Some_iff by (erule list_all2_mono) (rule scale_same)

lemma convert_timing_same:
  assumes "convert_timing t r s = Some u"
  shows "same_timing t r u s"
proof -
  from assms have v: "omap (scale (Some (ts_video r)) (Some (ts_video s))) (video_dts t) = Some (video_dts u)"
    "omap (scale (Some (ts_video r)) (Some (ts_video s))) (video_cts t) = Some (video_cts u)"
    "scale (Some (ts_video r)) (Some (ts_video s)) (video_end t) = Some (video_end u)"
    and a: "omap (scale (ts_audio r) (ts_audio s)) (audio_dts t) = Some (audio_dts u)"
      "omap (scale (ts_audio r) (ts_audio s)) (audio_dur t) = Some (audio_dur u)"
    by (auto simp: convert_timing_def Let_def bind_eq_Some_conv)
  have "if audio_dts t = [] then audio_dts u = [] else \<exists>f g. ts_audio r = Some f \<and> ts_audio s = Some g
      \<and> list_all2 (same_instant f g) (audio_dts t) (audio_dts u) \<and> list_all2 (same_instant f g) (audio_dur t) (audio_dur u)"
  proof (cases "audio_dts t")
    case (Cons x xs)
    then obtain y where "scale (ts_audio r) (ts_audio s) x = Some y" using a(1) by (auto split: option.splits)
    then obtain f g where "ts_audio r = Some f" "ts_audio s = Some g" using scale_ts by blast
    then show ?thesis using Cons a omap_scale by auto
  qed (use a in simp)
  then show ?thesis using v omap_scale scale_same by (simp add: same_timing_def)
qed

text \<open>C22. A received segment whose hash is the signed one is shown at the signed instants: every decode time,
  composition offset, end and audio time is the same instant in the two timescales, unless the two records are a
  collision of SHA-256.\<close>

theorem timing_hash_binds:
  assumes "received_timing_hash P t received sealed = Inr (Some h)" "timing_hash P u = Inr h"
  shows "same_timing t received u sealed \<or>
    (\<exists>c b b'. convert_timing t received sealed = Some c \<and> timing_record c = Inr b \<and> timing_record u = Inr b' \<and> collision P b b')"
proof -
  from assms(1) obtain c where c: "convert_timing t received sealed = Some c" "timing_hash P c = Inr h"
    by (auto simp: received_timing_hash_def split: option.splits sum.splits timing_error.splits)
  from c(2) obtain b where b: "timing_record c = Inr b" "h = sha256 P b" by (auto simp: timing_hash_def)
  from assms(2) obtain b' where b': "timing_record u = Inr b'" "h = sha256 P b'" by (auto simp: timing_hash_def)
  show ?thesis
  proof (cases "b = b'")
    case True
    then have "c = u" using timing_record_inj b(1) b'(1) by blast
    then show ?thesis using convert_timing_same [OF c(1)] by simp
  qed (use b b' c in \<open>auto simp: collision_def\<close>)
qed

text \<open>A re-mux that multiplies the timescales.\<close>

definition rescale :: "int \<Rightarrow> int \<Rightarrow> timing_values \<Rightarrow> timing_values" where
  "rescale k l t = \<lparr>video_dts = map (\<lambda>v. v * k) (video_dts t), video_cts = map (\<lambda>v. v * k) (video_cts t),
     video_end = video_end t * k, audio_dts = map (\<lambda>v. v * l) (audio_dts t), audio_dur = map (\<lambda>v. v * l) (audio_dur t)\<rparr>"

lemma scale_mult: "0 < k \<Longrightarrow> scale (Some (f * k)) (Some g) (v * k) = scale (Some f) (Some g) v"
proof -
  assume k: "0 < k"
  have e: "v * k * g = (v * g) * k" by simp
  show ?thesis using k
    by (simp add: scale_def e mult_le_0_iff)
qed

lemma omap_map: "omap f (map g xs) = omap (\<lambda>x. f (g x)) xs"
  by (induction xs) (auto split: option.split)

text \<open>A re-mux that multiplies each track's timescale and every tick of it by the same factor keeps the hash of
  every segment: exact conversion undoes it.\<close>

theorem rescaled_timing_hash:
  assumes "0 < k" "0 < l"
  shows "received_timing_hash P (rescale k l t)
      \<lparr>ts_video = ts_video r * k, ts_audio = map_option (\<lambda>a. a * l) (ts_audio r)\<rparr> s
    = received_timing_hash P t \<lparr>ts_video = ts_video r, ts_audio = ts_audio r\<rparr> s"
proof -
  have a: "scale (map_option (\<lambda>a. a * l) (ts_audio r)) (ts_audio s) (v * l) = scale (ts_audio r) (ts_audio s) v" for v
    using scale_mult [OF assms(2)] by (cases "ts_audio r"; cases "ts_audio s") (simp_all add: scale_def)
  show ?thesis
    by (simp add: received_timing_hash_def convert_timing_def Let_def rescale_def omap_map scale_mult [OF assms(1)] a)
qed

section \<open>What an edit that does not trim shows\<close>

lemma foldl_widen:
  assumes "foldl widen acc spans = (start, finish)"
  shows "(\<forall>s. fst acc = Some s \<longrightarrow> (\<exists>s'. start = Some s' \<and> s' \<le> s)) \<and>
    (\<forall>e. snd acc = Some e \<longrightarrow> (\<exists>e'. finish = Some e' \<and> e \<le> e')) \<and>
    (\<forall>(a, b) \<in> set spans. (\<exists>s'. start = Some s' \<and> s' \<le> a) \<and> (\<exists>e'. finish = Some e' \<and> b \<le> e'))"
  using assms
proof (induction spans arbitrary: acc)
  case (Cons x spans)
  obtain a b where x: "x = (a, b)" by fastforce
  obtain p q where acc: "acc = (p, q)" by fastforce
  obtain s0 where s0: "fst (widen acc x) = Some s0" "s0 \<le> a" "\<And>s. p = Some s \<Longrightarrow> s0 \<le> s"
    by (cases p) (auto simp: widen_def x acc)
  obtain e0 where e0: "snd (widen acc x) = Some e0" "b \<le> e0" "\<And>e. q = Some e \<Longrightarrow> e \<le> e0"
    by (cases q) (auto simp: widen_def x acc)
  from Cons.IH [of "widen acc x"] Cons.prems
  have ih: "\<exists>s'. start = Some s' \<and> s' \<le> s0" "\<exists>e'. finish = Some e' \<and> e0 \<le> e'"
    "\<forall>(a, b) \<in> set spans. (\<exists>s'. start = Some s' \<and> s' \<le> a) \<and> (\<exists>e'. finish = Some e' \<and> b \<le> e')"
    using s0(1) e0(1) by simp_all
  show ?case using ih s0 e0 x acc by fastforce
qed simp

text \<open>When the edit list does not trim inside a segment's extent, every frame of the segment is shown whole: it
  starts at or after the edit's media time and ends less than one movie tick after the edit does.\<close>

theorem untrimmed_frames_shown:
  assumes "video_extent t dts0 = Some ext" "\<not> edit_trims edit ext" "0 \<le> movie_timescale edit"
    and "i < length (video_dts t)" "frame_span t i = Some (shown, until)"
  shows "media_time edit \<le> dts0 + shown
    \<and> (dts0 + until - media_time edit) * movie_timescale edit < (edit_duration edit + 1) * media_timescale edit"
proof -
  from assms(1) obtain spans start finish where sp: "omap (frame_span t) [0..<length (video_dts t)] = Some spans"
    "foldl widen (None, None) spans = (start, finish)"
    "ext = \<lparr>ext_start = dts0 + (case start of Some s \<Rightarrow> s | None \<Rightarrow> 0),
           ext_end = dts0 + (case finish of Some e \<Rightarrow> e | None \<Rightarrow> video_end t)\<rparr>"
    unfolding video_extent_def bind_eq_Some_conv Let_def by (auto split: prod.splits) (metis surj_pair)
  have "list_all2 (\<lambda>x y. frame_span t x = Some y) [0..<length (video_dts t)] spans"
    using sp(1) by (simp add: omap_Some_iff)
  then have "spans ! i = (shown, until)" "i < length spans"
    using assms(4,5) by (auto simp: list_all2_conv_all_nth)
  then have "(shown, until) \<in> set spans" by (metis nth_mem)
  then obtain s e where se: "start = Some s" "s \<le> shown" "finish = Some e" "until \<le> e"
    using foldl_widen [OF sp(2)] by fastforce
  then have x: "ext_start ext \<le> dts0 + shown" "dts0 + until \<le> ext_end ext" by (simp_all add: sp(3))
  from assms(2) have n: "media_time edit \<le> ext_start ext"
    "(ext_end ext - media_time edit) * movie_timescale edit < (edit_duration edit + 1) * media_timescale edit"
    by (auto simp: edit_trims_def split: if_splits)
  have "(dts0 + until - media_time edit) * movie_timescale edit \<le> (ext_end ext - media_time edit) * movie_timescale edit"
    using x(2) assms(3) by (intro mult_right_mono) simp_all
  then show ?thesis using n x(1) by linarith
qed

section \<open>Concrete segments\<close>

text \<open>Two video frames at 30 per second in a timescale of 30, and one audio frame.\<close>

definition sample_timing :: timing_values where
  "sample_timing = \<lparr>video_dts = [0, 1], video_cts = [1, 0], video_end = 2, audio_dts = [0], audio_dur = [1024]\<rparr>"

definition sample_scales :: timescales where
  "sample_scales = \<lparr>ts_video = 30, ts_audio = Some 48000\<rparr>"

lemma sample_converts: "convert_timing sample_timing sample_scales sample_scales = Some sample_timing"
  by code_simp

theorem timing_hash_binds_witness:
  "same_timing sample_timing sample_scales sample_timing sample_scales"
proof -
  define P where "P = \<lparr>sha256 = id, create_public_key = (\<lambda>_. None), verify_p1363 = (\<lambda>_ _ _. False), buffer_of_object = (\<lambda>_. None)\<rparr>"
  obtain b where b: "timing_record sample_timing = Inr b"
    by (auto simp: timing_record_Inr sample_timing_def in_uint32_def in_int64_def)
  then have "timing_hash P sample_timing = Inr b" by (simp add: timing_hash_def P_def)
  moreover from this have "received_timing_hash P sample_timing sample_scales sample_scales = Inr (Some b)"
    by (simp add: received_timing_hash_def sample_converts)
  moreover have "\<not> collision P x y" for x y by (simp add: collision_def P_def)
  ultimately show ?thesis using timing_hash_binds by blast
qed

theorem rescaled_timing_hash_witness:
  "\<exists>P. received_timing_hash P (rescale 2 1 sample_timing) \<lparr>ts_video = 60, ts_audio = Some 48000\<rparr> sample_scales
    = received_timing_hash P sample_timing sample_scales sample_scales"
  using rescaled_timing_hash [of 2 1 _ sample_timing sample_scales sample_scales]
  by (simp add: sample_scales_def)

theorem untrimmed_frames_shown_witness:
  "\<exists>ext. video_extent sample_timing 10 = Some ext \<and> (10 + 2 - 11) * 600 < (20 + 1) * (30 :: int)"
proof -
  have e: "video_extent sample_timing 10 = Some \<lparr>ext_start = 11, ext_end = 12\<rparr>" by code_simp
  have "\<not> edit_trims \<lparr>media_time = 11, edit_duration = 20, movie_timescale = 600, media_timescale = 30\<rparr> \<lparr>ext_start = 11, ext_end = 12\<rparr>"
    by code_simp
  moreover have "frame_span sample_timing 0 = Some (1, 2)" by code_simp
  ultimately show ?thesis
    using untrimmed_frames_shown [OF e, of "\<lparr>media_time = 11, edit_duration = 20, movie_timescale = 600, media_timescale = 30\<rparr>" 0 1 2] e
    by (simp add: sample_timing_def)
qed

end
