(* ===== verification/Merkle.thy ===== *)
theory Merkle
  imports Prelude
begin

text \<open>
  The inclusion walk of \<open>verifyInclusion\<close> (\<open>tools/src/registry.ts\<close>), over any node hash, beside the tree
  head and the inclusion path as RFC 6962 section 2.1 defines them. The locale \<open>merkle\<close> is the interface
  \<open>Registry\<close> and \<open>Anchor\<close> use: with it the walk accepts the path of every leaf, and what it accepts is
  the leaf at that index or exhibits two different pairs with one node hash.
\<close>

section \<open>The walk\<close>

text \<open>The loop of the code; \<open>step\<close> is how much of the path has been dropped.\<close>

function incl_walk :: "('h \<Rightarrow> 'h \<Rightarrow> 'h) \<Rightarrow> 'h \<Rightarrow> nat \<Rightarrow> nat \<Rightarrow> 'h list \<Rightarrow> 'h option" where
  "incl_walk node hash position width path =
     (if width \<le> 1 then (if path = [] then Some hash else None)
      else case path of [] \<Rightarrow> None
      | sibling # rest \<Rightarrow>
          if position mod 2 = 1 \<or> position + 1 < width
          then incl_walk node (if position mod 2 = 1 then node sibling hash else node hash sibling)
                 (position div 2) ((width + 1) div 2) rest
          else incl_walk node hash (position div 2) ((width + 1) div 2) path)"
  by pat_completeness auto
termination by (relation "measure (\<lambda>(node, hash, position, width, path). width)") auto

declare incl_walk.simps [simp del]

section \<open>The tree of RFC 6962\<close>

text \<open>The largest power of two below \<open>n\<close>, for \<open>n > 1\<close>.\<close>

fun split_at :: "nat \<Rightarrow> nat" where
  "split_at n = (if n \<le> 2 then 1 else 2 * split_at ((n + 1) div 2))"

declare split_at.simps [simp del]

lemma split_at_bounds: "1 < n \<Longrightarrow> 1 \<le> split_at n \<and> split_at n < n \<and> n \<le> 2 * split_at n"
proof (induction n rule: split_at.induct)
  case (1 n)
  show ?case
  proof (cases "n \<le> 2")
    case False
    then have "1 \<le> split_at ((n + 1) div 2) \<and> split_at ((n + 1) div 2) < (n + 1) div 2
      \<and> (n + 1) div 2 \<le> 2 * split_at ((n + 1) div 2)"
      using 1 by simp
    moreover have "split_at n = 2 * split_at ((n + 1) div 2)" using False by (simp add: split_at.simps [of n])
    ultimately show ?thesis using False by linarith
  qed (use 1 in \<open>simp add: split_at.simps\<close>)
qed

lemma split_at_half: "2 < n \<Longrightarrow> split_at n = 2 * split_at ((n + 1) div 2)"
  by (simp add: split_at.simps [of n])

lemma split_at_shorter: "Suc 0 < n \<Longrightarrow> split_at n < n" "Suc 0 < n \<Longrightarrow> n - split_at n < n"
  using split_at_bounds [of n] by linarith+

lemma split_at_power: "1 < n \<Longrightarrow> \<exists>k. split_at n = 2 ^ k"
proof (induction n rule: split_at.induct)
  case (1 n)
  show ?case
  proof (cases "n \<le> 2")
    case True
    then show ?thesis by (simp add: split_at.simps exI [of _ 0])
  next
    case False
    then have "1 < (n + 1) div 2" by linarith
    then obtain k where "split_at ((n + 1) div 2) = 2 ^ k" using 1 False by blast
    then have "split_at n = 2 ^ Suc k" using False by (simp add: split_at.simps [of n])
    then show ?thesis by blast
  qed
qed

text \<open>The tree head and the path of a leaf over a non-empty list of leaf hashes.\<close>

function mth :: "('h \<Rightarrow> 'h \<Rightarrow> 'h) \<Rightarrow> 'h list \<Rightarrow> 'h" where
  "mth node hs = (if length hs \<le> 1 then hd hs
     else node (mth node (take (split_at (length hs)) hs)) (mth node (drop (split_at (length hs)) hs)))"
  by pat_completeness auto
termination
  by (relation "measure (\<lambda>(node, hs). length hs)") (auto simp: min_def not_le split_at_shorter)

function mpath :: "('h \<Rightarrow> 'h \<Rightarrow> 'h) \<Rightarrow> nat \<Rightarrow> 'h list \<Rightarrow> 'h list" where
  "mpath node m hs = (if length hs \<le> 1 then []
     else let k = split_at (length hs) in
       if m < k then mpath node m (take k hs) @ [mth node (drop k hs)]
       else mpath node (m - k) (drop k hs) @ [mth node (take k hs)])"
  by pat_completeness auto
termination
  by (relation "measure (\<lambda>(node, m, hs). length hs)") (auto simp: min_def not_le split_at_shorter)

declare mth.simps [simp del] mpath.simps [simp del]

section \<open>Level by level\<close>

text \<open>The walk goes up one level at a time; the definitions above split at a power of two. The bridge is that
  pairing up a list does not change its tree head.\<close>

fun pair_up :: "('h \<Rightarrow> 'h \<Rightarrow> 'h) \<Rightarrow> 'h list \<Rightarrow> 'h list" where
  "pair_up node (x # y # r) = node x y # pair_up node r"
| "pair_up node r = r"

lemma length_pair_up: "length (pair_up node hs) = (length hs + 1) div 2"
  by (induction node hs rule: pair_up.induct) simp_all

lemma pair_up_append: "even (length xs) \<Longrightarrow> pair_up node (xs @ ys) = pair_up node xs @ pair_up node ys"
  by (induction node xs rule: pair_up.induct) simp_all

lemma pair_up_nth:
  "i < length hs \<Longrightarrow> pair_up node hs ! (i div 2) =
     (if i mod 2 = 1 then node (hs ! (i - 1)) (hs ! i) else if i + 1 < length hs then node (hs ! i) (hs ! (i + 1)) else hs ! i)"
proof (induction node hs arbitrary: i rule: pair_up.induct)
  case (1 node x y r)
  show ?case
  proof (cases "i < 2")
    case True
    then have "i = 0 \<or> i = 1" by linarith
    then show ?thesis by auto
  next
    case False
    then obtain j where j: "i = Suc (Suc j)" by (metis add_2_eq_Suc le_Suc_ex not_less)
    have e: "Suc (Suc j) - 1 = Suc j" "j mod 2 = 1 \<Longrightarrow> Suc j = Suc (Suc (j - 1))" by (simp, cases j) simp_all
    show ?thesis using "1.IH" [of j] "1.prems" e by (auto simp: j)
  qed
qed auto

lemma mth_pair_up: "1 < length hs \<Longrightarrow> mth node hs = mth node (pair_up node hs)"
proof (induction hs rule: measure_induct_rule [where f = length])
  case (less hs)
  let ?n = "length hs" and ?k = "split_at (length hs)"
  have b: "1 \<le> ?k" "?k < ?n" "?n \<le> 2 * ?k" using split_at_bounds less.prems by auto
  have m: "mth node hs = node (mth node (take ?k hs)) (mth node (drop ?k hs))"
    using less.prems by (simp add: mth.simps [of node hs])
  show ?case
  proof (cases "?n = 2")
    case True
    then obtain x y where "hs = [x, y]" by (auto simp: length_Suc_conv numeral_2_eq_2)
    then show ?thesis by (simp add: mth.simps split_at.simps)
  next
    case False
    then have n: "2 < ?n" using less.prems by simp
    let ?j = "split_at ((?n + 1) div 2)"
    have k: "?k = 2 * ?j" using n by (rule split_at_half)
    have j: "1 \<le> ?j" using split_at_bounds [of "(?n + 1) div 2"] n by simp
    have t: "length (take ?k hs) = ?k" "length (drop ?k hs) = ?n - ?k" using b by simp_all
    have p: "pair_up node hs = pair_up node (take ?k hs) @ pair_up node (drop ?k hs)"
      using pair_up_append [of "take ?k hs" node "drop ?k hs"] t k by simp
    have lp: "length (pair_up node (take ?k hs)) = ?j" using t k by (simp add: length_pair_up)
    have a: "mth node (take ?k hs) = mth node (pair_up node (take ?k hs))"
      by (rule less.IH) (use t b k j in linarith)+
    have d: "mth node (drop ?k hs) = mth node (pair_up node (drop ?k hs))"
    proof (cases "?n - ?k = 1")
      case True
      then obtain x where "drop ?k hs = [x]" using t(2) by (metis One_nat_def length_0_conv length_Suc_conv)
      then show ?thesis by simp
    next
      case False
      then show ?thesis by (intro less.IH) (use t b in linarith)+
    qed
    have tk: "take ?j (pair_up node hs) = pair_up node (take ?k hs)" "drop ?j (pair_up node hs) = pair_up node (drop ?k hs)"
      unfolding p using lp by simp_all
    have "\<not> (?n + 1) div 2 \<le> 1" using n by linarith
    then have "mth node (pair_up node hs) = node (mth node (pair_up node (take ?k hs))) (mth node (pair_up node (drop ?k hs)))"
      unfolding mth.simps [of node "pair_up node hs"] length_pair_up tk by (rule if_not_P)
    then show ?thesis using m a d by simp
  qed
qed

lemma even_offset: "2 * j \<le> (i :: nat) \<Longrightarrow> (i - 2 * j) mod 2 = i mod 2" "2 * j \<le> i \<Longrightarrow> (i - 2 * j) div 2 = i div 2 - j"
  by (auto simp: le_iff_add)

lemma append_step: "p = a @ e \<Longrightarrow> q = m @ e \<Longrightarrow> a = x @ m \<Longrightarrow> p = x @ q"
  by simp

lemma mpath_pair_up:
  "1 < length hs \<Longrightarrow> i < length hs \<Longrightarrow> mpath node i hs =
     (if i mod 2 = 1 then [hs ! (i - 1)] else if i + 1 < length hs then [hs ! (i + 1)] else [])
       @ mpath node (i div 2) (pair_up node hs)"
proof (induction hs arbitrary: i rule: measure_induct_rule [where f = length])
  case (less hs)
  let ?n = "length hs" and ?k = "split_at (length hs)"
  have b: "1 \<le> ?k" "?k < ?n" "?n \<le> 2 * ?k" using split_at_bounds less.prems by auto
  have n1: "\<not> ?n \<le> 1" using less.prems by simp
  note m = mpath.simps [of node i hs, unfolded if_not_P [OF n1] Let_def]
  show ?case
  proof (cases "?n = 2")
    case True
    then obtain x y where hs: "hs = [x, y]" by (auto simp: length_Suc_conv numeral_2_eq_2)
    then have "i = 0 \<or> i = 1" using less.prems(2) by auto
    then show ?thesis by (auto simp: hs mpath.simps mth.simps split_at.simps)
  next
    case False
    then have n: "2 < ?n" using less.prems by simp
    let ?j = "split_at ((?n + 1) div 2)"
    have k: "?k = 2 * ?j" using n by (rule split_at_half)
    have j: "1 \<le> ?j" using split_at_bounds [of "(?n + 1) div 2"] n by simp
    have t: "length (take ?k hs) = ?k" "length (drop ?k hs) = ?n - ?k" using b by simp_all
    have p: "pair_up node hs = pair_up node (take ?k hs) @ pair_up node (drop ?k hs)"
      using pair_up_append [of "take ?k hs" node "drop ?k hs"] t k by simp
    have lp: "length (pair_up node (take ?k hs)) = ?j" using t k by (simp add: length_pair_up)
    have tk: "take ?j (pair_up node hs) = pair_up node (take ?k hs)" "drop ?j (pair_up node hs) = pair_up node (drop ?k hs)"
      unfolding p using lp by simp_all
    have n2: "\<not> (?n + 1) div 2 \<le> 1" using n by linarith
    note mp = mpath.simps [of node "i div 2" "pair_up node hs", unfolded length_pair_up if_not_P [OF n2] Let_def tk]
    have mt: "mth node (take ?k hs) = mth node (pair_up node (take ?k hs))"
      by (rule mth_pair_up) (use t b k j in linarith)
    have md: "mth node (drop ?k hs) = mth node (pair_up node (drop ?k hs))"
    proof (cases "?n - ?k = 1")
      case True
      then obtain x where "drop ?k hs = [x]" using t(2) by (metis One_nat_def length_0_conv length_Suc_conv)
      then show ?thesis by simp
    next
      case False
      then show ?thesis by (intro mth_pair_up) (use t b in linarith)
    qed
    show ?thesis
    proof (cases "i < ?k")
      case True
      then have d: "i div 2 < ?j" using k by linarith
      have ih: "mpath node i (take ?k hs) =
          (if i mod 2 = 1 then [take ?k hs ! (i - 1)] else if i + 1 < ?k then [take ?k hs ! (i + 1)] else [])
          @ mpath node (i div 2) (pair_up node (take ?k hs))"
        using less.IH [of "take ?k hs" i] t b k j True by (simp only: t)
      have e: "i mod 2 = 0 \<Longrightarrow> i + 1 < ?k" using True k by presburger
      have f: "(if i mod 2 = 1 then [take ?k hs ! (i - 1)] else if i + 1 < ?k then [take ?k hs ! (i + 1)] else [])
        = (if i mod 2 = 1 then [hs ! (i - 1)] else if i + 1 < ?n then [hs ! (i + 1)] else [])"
        using True b e by (cases "i mod 2 = 1") simp_all
      have "mpath node i hs = mpath node i (take ?k hs) @ [mth node (drop ?k hs)]"
        unfolding m by (rule if_P [OF True])
      moreover have "mpath node (i div 2) (pair_up node hs) =
          mpath node (i div 2) (pair_up node (take ?k hs)) @ [mth node (drop ?k hs)]"
        unfolding mp md by (rule if_P [OF d])
      ultimately show ?thesis by (rule append_step [OF _ _ ih [unfolded f]])
    next
      case False
      then have d: "\<not> i div 2 < ?j" using k by linarith
      have ik: "?k \<le> i" using False by simp
      have q: "(i - ?k) mod 2 = i mod 2" "(i - ?k) div 2 = i div 2 - ?j"
        unfolding k by (rule even_offset, use ik k in linarith)+
      have g: "drop ?k hs ! (i - ?k + 1) = hs ! (i + 1)" if "i + 1 < ?n"
        using ik that b by simp
      have g': "drop ?k hs ! (i - ?k - 1) = hs ! (i - 1)" if "i mod 2 = 1"
      proof -
        have "?k + 1 \<le> i" using that ik k by presburger
        then show ?thesis using less.prems(2) by simp
      qed
      have ih: "mpath node (i - ?k) (drop ?k hs) =
          (if i mod 2 = 1 then [hs ! (i - 1)] else if i + 1 < ?n then [hs ! (i + 1)] else [])
          @ mpath node (i div 2 - ?j) (pair_up node (drop ?k hs))"
      proof (cases "?n - ?k = 1")
        case True
        then obtain x where x: "drop ?k hs = [x]" using t(2) by (metis One_nat_def length_0_conv length_Suc_conv)
        have "i = ?k" "i + 1 = ?n" using True ik less.prems(2) b by linarith+
        then have "i mod 2 = 0" "\<not> i + 1 < ?n" using k by presburger+
        then show ?thesis using x by (simp add: mpath.simps)
      next
        case False
        have "mpath node (i - ?k) (drop ?k hs) =
          (if (i - ?k) mod 2 = 1 then [drop ?k hs ! (i - ?k - 1)] else if i - ?k + 1 < ?n - ?k then [drop ?k hs ! (i - ?k + 1)] else [])
          @ mpath node ((i - ?k) div 2) (pair_up node (drop ?k hs))"
          using less.IH [of "drop ?k hs" "i - ?k"] t b False ik less.prems(2) by (simp only: t)
        moreover have "i - ?k + 1 < ?n - ?k \<longleftrightarrow> i + 1 < ?n" using ik b by linarith
        ultimately show ?thesis unfolding q using g g' by (cases "i mod 2 = 1") simp_all
      qed
      have "mpath node i hs = mpath node (i - ?k) (drop ?k hs) @ [mth node (take ?k hs)]"
        unfolding m by (rule if_not_P [OF False])
      moreover have "mpath node (i div 2) (pair_up node hs) =
          mpath node (i div 2 - ?j) (pair_up node (drop ?k hs)) @ [mth node (take ?k hs)]"
        unfolding mp mt by (rule if_not_P [OF d])
      ultimately show ?thesis by (rule append_step [OF _ _ ih])
    qed
  qed
qed

lemma mpath_nonempty: "1 < length hs \<Longrightarrow> mpath node i hs \<noteq> []"
  by (subst mpath.simps) (simp add: Let_def)

section \<open>Every leaf has a path\<close>

lemma incl_walk_complete:
  "i < length hs \<Longrightarrow> incl_walk node (hs ! i) i (length hs) (mpath node i hs) = Some (mth node hs)"
proof (induction hs arbitrary: i rule: measure_induct_rule [where f = length])
  case (less hs)
  show ?case
  proof (cases "length hs \<le> 1")
    case True
    then have "hs = [hs ! 0]" "i = 0" using less.prems by (cases hs; simp)+
    moreover have "hd hs = hs ! 0" using less.prems by (cases hs) auto
    ultimately show ?thesis using True by (simp add: incl_walk.simps mpath.simps mth.simps)
  next
    case False
    then have n: "1 < length hs" by simp
    let ?p = "pair_up node hs"
    have lp: "length ?p = (length hs + 1) div 2" by (rule length_pair_up)
    have "length ?p < length hs" "i div 2 < length ?p" using n less.prems lp by linarith+
    from less.IH [OF this] have ih: "incl_walk node (?p ! (i div 2)) (i div 2) ((length hs + 1) div 2) (mpath node (i div 2) ?p)
        = Some (mth node hs)"
      using mth_pair_up [OF n, of node] by (simp only: lp)
    note mp = mpath_pair_up [OF n less.prems, of node] and pn = pair_up_nth [OF less.prems, of node]
    show ?thesis
    proof (cases "i mod 2 = 1 \<or> i + 1 < length hs")
      case True
      then obtain s where s: "mpath node i hs = s # mpath node (i div 2) ?p"
        "(if i mod 2 = 1 then node s (hs ! i) else node (hs ! i) s) = ?p ! (i div 2)"
        using mp pn by (cases "i mod 2 = 1") auto
      show ?thesis unfolding incl_walk.simps [of node "hs ! i" i "length hs"] s(1)
        using True False s(2) ih by simp
    next
      case skip: False
      then have "mpath node i hs = mpath node (i div 2) ?p" "?p ! (i div 2) = hs ! i" using mp pn by simp_all
      moreover obtain x r where "mpath node i hs = x # r" using mpath_nonempty [OF n] by (meson neq_Nil_conv)
      ultimately show ?thesis unfolding incl_walk.simps [of node "hs ! i" i "length hs"]
        using skip False ih by (auto split: list.split)
    qed
  qed
qed

section \<open>What the walk accepts\<close>

text \<open>
  Where an accepted walk from another hash first meets the real tree: two different pairs with one node hash,
  as the byte strings \<open>pre\<close> hashes.
\<close>

function incl_break :: "('h \<Rightarrow> 'h \<Rightarrow> 'h) \<Rightarrow> ('h \<Rightarrow> 'h \<Rightarrow> 'b) \<Rightarrow> 'h \<Rightarrow> nat \<Rightarrow> 'h list \<Rightarrow> 'h list \<Rightarrow> 'b \<times> 'b" where
  "incl_break node pre h i hs path =
     (if length hs \<le> 1 \<or> path = [] then (pre h h, pre h h)
      else if i mod 2 = 1 \<or> i + 1 < length hs then
        let mine = (if i mod 2 = 1 then (hd path, h) else (h, hd path));
            real = (if i mod 2 = 1 then (hs ! (i - 1), hs ! i) else (hs ! i, hs ! (i + 1)))
        in if mine \<noteq> real \<and> node (fst mine) (snd mine) = node (fst real) (snd real)
           then (pre (fst mine) (snd mine), pre (fst real) (snd real))
           else incl_break node pre (node (fst mine) (snd mine)) (i div 2) (pair_up node hs) (tl path)
      else incl_break node pre h (i div 2) (pair_up node hs) path)"
  by pat_completeness auto
termination by (relation "measure (\<lambda>(node, pre, h, i, hs, path). length hs)") (auto simp: length_pair_up)

declare incl_break.simps [simp del]

text \<open>
  The contract of a node hash: hashes have a shape \<open>ok\<close>, a node is the hash of a string that determines both
  its children, and a node of two hashes has the shape again.
\<close>

locale merkle =
  fixes node :: "'h \<Rightarrow> 'h \<Rightarrow> 'h" and pre :: "'h \<Rightarrow> 'h \<Rightarrow> 'b" and hash :: "'b \<Rightarrow> 'h" and ok :: "'h \<Rightarrow> bool"
  assumes node_hash: "node a b = hash (pre a b)"
    and node_ok: "ok a \<Longrightarrow> ok b \<Longrightarrow> ok (node a b)"
    and pre_inj: "ok a \<Longrightarrow> ok b \<Longrightarrow> ok c \<Longrightarrow> ok d \<Longrightarrow> pre a b = pre c d \<Longrightarrow> a = c \<and> b = d"
begin

lemma pair_up_ok: "\<forall>h \<in> set hs. ok h \<Longrightarrow> \<forall>h \<in> set (pair_up node hs). ok h"
  by (induction hs rule: induct_list012) (auto simp: node_ok)

lemma walk_sound:
  "incl_walk node h i (length hs) path = Some (mth node hs) \<Longrightarrow> i < length hs \<Longrightarrow> ok h \<Longrightarrow>
   \<forall>x \<in> set hs. ok x \<Longrightarrow> \<forall>x \<in> set path. ok x \<Longrightarrow> h \<noteq> hs ! i \<Longrightarrow>
   fst (incl_break node pre h i hs path) \<noteq> snd (incl_break node pre h i hs path)
   \<and> hash (fst (incl_break node pre h i hs path)) = hash (snd (incl_break node pre h i hs path))"
proof (induction hs arbitrary: h i path rule: measure_induct_rule [where f = length])
  case (less hs)
  show ?case
  proof (cases "length hs \<le> 1")
    case True
    then have "hs = [hs ! 0]" "i = 0" using less.prems(2) by (cases hs; simp)+
    moreover have "hd hs = hs ! 0" using less.prems(2) by (cases hs) auto
    ultimately have "incl_walk node h i (length hs) path = (if path = [] then Some h else None)" "mth node hs = hs ! i"
      using True by (simp_all add: incl_walk.simps mth.simps)
    then show ?thesis using less.prems(1,6) by (auto split: if_splits)
  next
    case False
    then have n: "1 < length hs" by simp
    let ?p = "pair_up node hs"
    have lp: "length ?p = (length hs + 1) div 2" by (rule length_pair_up)
    have sh: "length ?p < length hs" "i div 2 < length ?p" using n less.prems(2) lp by linarith+
    have m: "mth node hs = mth node ?p" using n by (rule mth_pair_up)
    note pn = pair_up_nth [OF less.prems(2), of node] and okp = pair_up_ok [OF less.prems(4)]
    obtain s rest where path: "path = s # rest" using less.prems(1) False by (cases path) (simp_all add: incl_walk.simps)
    note w = less.prems(1) [unfolded m path incl_walk.simps [of node h i "length hs"]]
    show ?thesis
    proof (cases "i mod 2 = 1 \<or> i + 1 < length hs")
      case True
      define mine where "mine = (if i mod 2 = 1 then (s, h) else (h, s))"
      define real where "real = (if i mod 2 = 1 then (hs ! (i - 1), hs ! i) else (hs ! i, hs ! (i + 1)))"
      have ne: "mine \<noteq> real" using less.prems(6) by (auto simp: mine_def real_def)
      have okm: "ok (fst mine)" "ok (snd mine)" using less.prems(3,5) path by (auto simp: mine_def)
      have okr: "ok (fst real)" "ok (snd real)" using less.prems(2,4) True by (auto simp: real_def)
      have wk: "incl_walk node (node (fst mine) (snd mine)) (i div 2) (length ?p) rest = Some (mth node ?p)"
        using w True False by (auto simp: mine_def lp)
      have rp: "node (fst real) (snd real) = ?p ! (i div 2)" using pn True by (auto simp: real_def)
      have br: "incl_break node pre h i hs path =
          (if node (fst mine) (snd mine) = node (fst real) (snd real)
           then (pre (fst mine) (snd mine), pre (fst real) (snd real))
           else incl_break node pre (node (fst mine) (snd mine)) (i div 2) ?p rest)"
        unfolding path incl_break.simps [of node pre h i hs "s # rest"] Let_def
        using True False ne by (cases "i mod 2 = 1") (simp_all add: mine_def real_def)
      show ?thesis
      proof (cases "node (fst mine) (snd mine) = node (fst real) (snd real)")
        case True
        moreover have "pre (fst mine) (snd mine) \<noteq> pre (fst real) (snd real)"
          using pre_inj [OF okm okr] ne by (auto simp: prod_eq_iff)
        ultimately show ?thesis unfolding br by (simp add: node_hash)
      next
        case False
        then have "node (fst mine) (snd mine) \<noteq> ?p ! (i div 2)" using rp by simp
        from less.IH [OF sh(1) wk sh(2) node_ok [OF okm] okp _ this] show ?thesis
          using less.prems(5) False path unfolding br by simp
      qed
    next
      case skip: False
      then have p: "?p ! (i div 2) = hs ! i" using pn by simp
      have wk: "incl_walk node h (i div 2) (length ?p) path = Some (mth node ?p)"
        using w skip False path by (simp add: lp)
      have br: "incl_break node pre h i hs path = incl_break node pre h (i div 2) ?p path"
        unfolding incl_break.simps [of node pre h i hs path] using skip False path by simp
      show ?thesis unfolding br
        by (rule less.IH [OF sh(1) wk sh(2) less.prems(3) okp less.prems(5)]) (use p less.prems(6) in simp)
    qed
  qed
qed

lemma walk_complete:
  "i < length hs \<Longrightarrow> incl_walk node (hs ! i) i (length hs) (mpath node i hs) = Some (mth node hs)"
  by (rule incl_walk_complete)

end

end
