(* ===== verification/Registry.thy ===== *)
theory Registry
  imports Core Merkle
begin

text \<open>
  \<open>tools/src/registry.ts\<close> and the trusted logs of \<open>tools/src/trust.ts\<close>: the transparency log's tree
  head, inclusion proof and leaf, the online key status, and the registry's integrity statement. An
  attachment is the JSON value the proof carries. An exception the code does not catch (a negative or
  missing tree size, a missing leaf) is the left of a sum.
\<close>

section \<open>Trusted logs\<close>

record trusted_log =
  log_id :: jsstr
  log_spki :: jsstr
  app_signing_digests :: "jsstr list option"

definition find_log :: "trusted_log list \<Rightarrow> json option \<Rightarrow> trusted_log option" where
  "find_log logs v = List.find (\<lambda>l. v = Some (JStr (log_id l))) logs"

definition log_key :: "platform \<Rightarrow> trusted_log \<Rightarrow> key_object option" where
  "log_key P l = public_key_from_spki P (b64_decode (log_spki l))"

text \<open>\<open>logs.some(...)\<close>: some usable key of a trusted log made the signature.\<close>

definition signed_by_log :: "platform \<Rightarrow> trusted_log list \<Rightarrow> bytes \<Rightarrow> bytes \<Rightarrow> bool" where
  "signed_by_log P logs message sg =
     list_ex (\<lambda>l. case log_key P l of None \<Rightarrow> False | Some key \<Rightarrow> verify_es256 P message sg key) logs"

section \<open>The Merkle tree\<close>

definition leaf_hash :: "platform \<Rightarrow> bytes \<Rightarrow> bytes" where
  "leaf_hash P bs = sha256 P (0 # bs)"

definition node_hash :: "platform \<Rightarrow> bytes \<Rightarrow> bytes \<Rightarrow> bytes" where
  "node_hash P left right = sha256 P (1 # left @ right)"

definition verify_inclusion :: "platform \<Rightarrow> bytes \<Rightarrow> json option \<Rightarrow> json option \<Rightarrow> bytes list \<Rightarrow> bytes \<Rightarrow> bool" where
  "verify_inclusion P leaf index tree_size path root = (case (int_of index, int_of tree_size) of
     (Some i, Some n) \<Rightarrow>
       if i < 0 \<or> n \<le> 0 \<or> i \<ge> n then False
       else incl_walk (node_hash P) leaf (nat i) (nat n) path = Some root
   | _ \<Rightarrow> False)"

section \<open>Signed messages\<close>

definition STH_SEPARATOR :: bytes where "STH_SEPARATOR = ascii ''vcap/1.0/sth''"
definition STATUS_SEPARATOR :: bytes where "STATUS_SEPARATOR = ascii ''vcap/1.0/status''"
definition ATTESTATION_STATUS_SEPARATOR :: bytes where
  "ATTESTATION_STATUS_SEPARATOR = ascii ''vcap/1.0/attestation-status''"
definition INTEGRITY_SEPARATOR :: bytes where "INTEGRITY_SEPARATOR = ascii ''vcap/1.0/integrity''"

text \<open>\<open>writeBigUInt64BE(BigInt(value))\<close>.\<close>

definition u64be :: "int \<Rightarrow> fault + bytes" where
  "u64be v = (case put_be 8 v of None \<Rightarrow> Inl Range_error | Some b \<Rightarrow> Inr b)"

definition u64be_json :: "json option \<Rightarrow> fault + bytes" where
  "u64be_json v = (case v of None \<Rightarrow> Inl Type_error | Some JNull \<Rightarrow> Inl Type_error
     | Some (JNum (NInt i)) \<Rightarrow> u64be i | Some (JNum _) \<Rightarrow> Inl Range_error | _ \<Rightarrow> Inl Untyped)"

definition tree_head_message :: "json option \<Rightarrow> json option \<Rightarrow> bytes \<Rightarrow> fault + bytes" where
  "tree_head_message tree_size timestamp root =
     rbind (u64be_json tree_size) (\<lambda>a. rbind (u64be_json timestamp) (\<lambda>b. Inr (STH_SEPARATOR @ a @ b @ root)))"

text \<open>\<open>jcs\<close> of a value that may be missing: \<open>Object.keys(undefined)\<close> is a TypeError.\<close>

definition jcs_of :: "json option \<Rightarrow> fault + bytes" where
  "jcs_of v = (case v of None \<Rightarrow> Inl Type_error | Some j \<Rightarrow> (case jcs j of None \<Rightarrow> Inl Plain_error | Some b \<Rightarrow> Inr b))"

definition key_status_message :: "bytes \<Rightarrow> int \<Rightarrow> int \<Rightarrow> nat \<Rightarrow> fault + bytes" where
  "key_status_message kid instant tree_size status =
     rbind (u64be instant) (\<lambda>a. rbind (u64be tree_size) (\<lambda>b. Inr (STATUS_SEPARATOR @ kid @ a @ b @ [of_nat status])))"

definition attestation_status_message :: "bytes \<Rightarrow> json \<Rightarrow> int \<Rightarrow> fault + bytes" where
  "attestation_status_message core entries fetched_at =
     rbind (jcs_of (Some entries)) (\<lambda>e. rbind (u64be fetched_at) (\<lambda>f.
       Inr (ATTESTATION_STATUS_SEPARATOR @ core @ e @ f)))"

text \<open>\<open>const { sig: _sig, ...rest } = body\<close>.\<close>

fun without_sig :: "json \<Rightarrow> json" where
  "without_sig (JObj ms) = JObj (filter (\<lambda>m. fst m \<noteq> js ''sig'') ms)"
| "without_sig v = v"

definition integrity_message :: "bytes \<Rightarrow> json \<Rightarrow> fault + bytes" where
  "integrity_message core body =
     rbind (jcs_of (Some (without_sig body))) (\<lambda>b. Inr (INTEGRITY_SEPARATOR @ core @ b))"

section \<open>The registry attachment\<close>

datatype registry_reason = Log_not_trusted | Log_key_unusable | Attachment_not_base64url | Root_not_32_bytes
  | Path_hash_not_32_bytes | Tree_head_signature | Leaf_not_included | Leaf_type | Key_id_not_32_bytes
  | Leaf_other_key | Leaf_key_not_base64 | Leaf_other_public_key

datatype registry_outcome = Registry_ok "json option" "json option" int
  | Registry_bad registry_reason bool

definition hex_of :: "bytes \<Rightarrow> jsstr" where
  "hex_of bs = js (concat (map (\<lambda>b. [hex_char (unat b div 16), hex_char (unat b mod 16)]) bs))"

definition leaf_key_id :: "jsstr \<Rightarrow> jsstr option" where
  "leaf_key_id device_key_id = (let bs = b64_decode device_key_id in if length bs = 32 then Some (hex_of bs) else None)"

definition head_fields :: "platform \<Rightarrow> json \<Rightarrow> (bytes \<times> bytes \<times> bytes list) option" where
  "head_fields P att = do {
     th \<leftarrow> member att ''tree_head'';
     root \<leftarrow> buffer_from P (member th ''root_hash'');
     sg \<leftarrow> buffer_from P (member th ''signature'');
     hashes \<leftarrow> arr_of (member att ''inclusion_path'');
     path \<leftarrow> omap (\<lambda>h. buffer_from P (Some h)) hashes;
     Some (root, sg, path) }"

text \<open>What is checked about the leaf once it is known to be in the tree.\<close>

definition check_leaf :: "platform \<Rightarrow> json \<Rightarrow> jsstr \<Rightarrow> bytes \<Rightarrow> json option \<Rightarrow> fault + registry_outcome" where
  "check_leaf P leaf kid sig_pub timestamp =
     (if leaf = JNull then Inl Type_error
      else if member leaf ''type'' \<noteq> Some (JStr (js ''key'')) then Inr (Registry_bad Leaf_type True)
      else case leaf_key_id kid of None \<Rightarrow> Inr (Registry_bad Key_id_not_32_bytes True)
      | Some wanted \<Rightarrow>
        if member leaf ''key_id'' \<noteq> Some (JStr wanted) then Inr (Registry_bad Leaf_other_key True)
        else case buffer_from P (member leaf ''public_key'') of None \<Rightarrow> Inr (Registry_bad Leaf_key_not_base64 True)
        | Some leaf_key \<Rightarrow>
          if leaf_key \<noteq> sig_pub then Inr (Registry_bad Leaf_other_public_key True)
          else case int_of timestamp of None \<Rightarrow> Inl Untyped
          | Some t \<Rightarrow> Inr (Registry_ok (member leaf ''secure_hw'') (member leaf ''registered_at'') t))"

definition verify_registry :: "platform \<Rightarrow> json \<Rightarrow> jsstr \<Rightarrow> bytes \<Rightarrow> trusted_log list \<Rightarrow> fault + registry_outcome" where
  "verify_registry P att kid sig_pub logs = (case find_log logs (member att ''log_id'') of
     None \<Rightarrow> Inr (Registry_bad Log_not_trusted False)
   | Some log \<Rightarrow> (case log_key P log of
       None \<Rightarrow> Inr (Registry_bad Log_key_unusable False)
     | Some key \<Rightarrow> (case head_fields P att of
         None \<Rightarrow> Inr (Registry_bad Attachment_not_base64url True)
       | Some (root, sg, path) \<Rightarrow>
           if length root \<noteq> 32 then Inr (Registry_bad Root_not_32_bytes True)
           else if \<exists>h \<in> set path. length h \<noteq> 32 then Inr (Registry_bad Path_hash_not_32_bytes True)
           else let th = the (member att ''tree_head'');
                    tree_size = member th ''tree_size''; timestamp = member th ''timestamp'' in
           rbind (tree_head_message tree_size timestamp root) (\<lambda>head.
           if \<not> verify_es256 P head sg key then Inr (Registry_bad Tree_head_signature True)
           else rbind (jcs_of (member att ''leaf'')) (\<lambda>leaf_bytes.
             if \<not> verify_inclusion P (leaf_hash P leaf_bytes) (member att ''leaf_index'') tree_size path root
             then Inr (Registry_bad Leaf_not_included True)
             else check_leaf P (the (member att ''leaf'')) kid sig_pub timestamp)))))"

section \<open>The online key status\<close>

record key_status_statement =
  ks_log_id :: jsstr
  ks_at :: int
  ks_tree_size :: int
  ks_status :: int
  ks_signature :: jsstr

datatype key_status_reason = Status_log_not_trusted | Status_key_unusable | Other_instant | Unknown_status | Status_signature

datatype key_status_outcome = Key_status nat | Key_status_bad key_status_reason

definition verify_key_status :: "platform \<Rightarrow> key_status_statement \<Rightarrow> bytes \<Rightarrow> int \<Rightarrow> trusted_log list \<Rightarrow> fault + key_status_outcome" where
  "verify_key_status P st kid instant logs = (case find_log logs (Some (JStr (ks_log_id st))) of
     None \<Rightarrow> Inr (Key_status_bad Status_log_not_trusted)
   | Some log \<Rightarrow> (case log_key P log of
       None \<Rightarrow> Inr (Key_status_bad Status_key_unusable)
     | Some key \<Rightarrow>
         if ks_at st \<noteq> instant then Inr (Key_status_bad Other_instant)
         else if ks_status st \<noteq> 0 \<and> ks_status st \<noteq> 1 \<and> ks_status st \<noteq> 2 then Inr (Key_status_bad Unknown_status)
         else rbind (key_status_message kid (ks_at st) (ks_tree_size st) (nat (ks_status st))) (\<lambda>message.
           if \<not> verify_es256 P message (b64_decode (ks_signature st)) key then Inr (Key_status_bad Status_signature)
           else Inr (Key_status (nat (ks_status st))))))"

section \<open>Integrity\<close>

definition INTEGRITY_VERDICTS :: "string list" where
  "INTEGRITY_VERDICTS = [''hardware'', ''basic'', ''unevaluated'', ''failed'']"
definition INTEGRITY_SOURCES :: "string list" where
  "INTEGRITY_SOURCES = [''playIntegrity'', ''appAttest'', ''none'']"

text \<open>\<open>SET.has(v)\<close>, giving the string of the set that \<open>v\<close> is.\<close>

definition one_of :: "string list \<Rightarrow> json option \<Rightarrow> string option" where
  "one_of names v = List.find (\<lambda>n. v = Some (JStr (js n))) names"

datatype integrity_outcome = Integrity_ok string string int
  | Integrity_bad bool bool

definition verify_integrity :: "platform \<Rightarrow> json \<Rightarrow> bytes \<Rightarrow> trusted_log list \<Rightarrow> fault + integrity_outcome" where
  "verify_integrity P att core logs = (case one_of INTEGRITY_SOURCES (member att ''source'') of
     None \<Rightarrow> Inr (Integrity_bad False False)
   | Some source \<Rightarrow> (case buffer_from P (member att ''sig'') of
       None \<Rightarrow> Inr (Integrity_bad True True)
     | Some sg \<Rightarrow> rbind (integrity_message core att) (\<lambda>message.
         if \<not> signed_by_log P logs message sg then Inr (Integrity_bad False True)
         else case one_of INTEGRITY_VERDICTS (member att ''verdict'') of
           None \<Rightarrow> Inr (Integrity_bad True True)
         | Some verdict \<Rightarrow> (case int_of (member att ''evaluated_at'') of
             None \<Rightarrow> Inr (Integrity_bad True True)
           | Some t \<Rightarrow> if \<not> safe_int t then Inr (Integrity_bad True True)
               else Inr (Integrity_ok source verdict t)))))"

section \<open>The log's tree\<close>

interpretation log_tree: merkle "node_hash P" "\<lambda>a b. 1 # a @ b" "sha256 P" "\<lambda>h. hash_ok P \<and> length h = 32" for P
  by unfold_locales (auto simp: node_hash_def hash_ok_def)

definition json_nat :: "nat \<Rightarrow> json option" where "json_nat n = Some (JNum (NInt (int n)))"

lemma verify_inclusion_nat:
  "verify_inclusion P leaf (json_nat i) (json_nat n) path root \<longleftrightarrow>
    i < n \<and> incl_walk (node_hash P) leaf i n path = Some root"
  by (auto simp: verify_inclusion_def json_nat_def int_of_def)

lemma verify_inclusion_json:
  "verify_inclusion P leaf index tree_size path root \<Longrightarrow>
    \<exists>i n. index = json_nat i \<and> tree_size = json_nat n \<and> i < n \<and> incl_walk (node_hash P) leaf i n path = Some root"
proof -
  assume v: "verify_inclusion P leaf index tree_size path root"
  then obtain i n where "int_of index = Some i" "int_of tree_size = Some n" "0 \<le> i" "i < n"
    "incl_walk (node_hash P) leaf (nat i) (nat n) path = Some root"
    by (auto simp: verify_inclusion_def split: option.splits if_splits)
  then show ?thesis by (intro exI [of _ "nat i"] exI [of _ "nat n"]) (auto simp: json_nat_def)
qed

text \<open>Every entry of the log is provable: the RFC 6962 path of a leaf, at its index and the tree's size, leads the
  verifier's walk to the RFC 6962 tree head, whatever the hash and the number of leaves.\<close>

theorem inclusion_complete:
  assumes "i < length hs"
  shows "verify_inclusion P (hs ! i) (json_nat i) (json_nat (length hs)) (mpath (node_hash P) i hs) (mth (node_hash P) hs)"
  using assms log_tree.walk_complete [of i hs P] by (simp add: verify_inclusion_nat)

theorem inclusion_complete_witness:
  "\<exists>P. verify_inclusion P [2] (json_nat 2) (json_nat 3) (mpath (node_hash P) 2 [[0], [1], [2]]) (mth (node_hash P) [[0], [1], [2]])"
  using inclusion_complete [of 2 "[[0], [1], [2]]"] by (simp add: numeral_3_eq_3)

lemma inclusion_sound_hash:
  assumes "verify_inclusion P h (json_nat i) (json_nat (length hs)) path (mth (node_hash P) hs)"
    and "hash_ok P" "length h = 32" "\<forall>x \<in> set hs. length x = 32" "\<forall>x \<in> set path. length x = 32" "h \<noteq> hs ! i"
  shows "collision P (fst (incl_break (node_hash P) (\<lambda>a b. 1 # a @ b) h i hs path))
      (snd (incl_break (node_hash P) (\<lambda>a b. 1 # a @ b) h i hs path))"
proof -
  from assms(1) have w: "incl_walk (node_hash P) h i (length hs) path = Some (mth (node_hash P) hs)" and i: "i < length hs"
    by (simp_all add: verify_inclusion_nat)
  show ?thesis unfolding collision_def
    by (rule log_tree.walk_sound [OF w i]) (use assms in auto)
qed

lemma inclusion_sound_or:
  assumes "verify_inclusion P (leaf_hash P x) (json_nat i) (json_nat (length es)) path (mth (node_hash P) (map (leaf_hash P) es))"
    and "hash_ok P" "\<forall>h \<in> set path. length h = 32"
  shows "x = es ! i \<or> collision P (0 # x) (0 # es ! i)
    \<or> (let (a, b) = incl_break (node_hash P) (\<lambda>a b. 1 # a @ b) (leaf_hash P x) i (map (leaf_hash P) es) path in collision P a b)"
proof -
  have i: "i < length es" using assms(1) by (simp add: verify_inclusion_nat)
  have l: "length (leaf_hash P y) = 32" for y using assms(2) by (simp add: leaf_hash_def hash_ok_def)
  show ?thesis
  proof (cases "leaf_hash P x = map (leaf_hash P) es ! i")
    case True
    then have "sha256 P (0 # x) = sha256 P (0 # es ! i)" using i by (simp add: leaf_hash_def)
    then show ?thesis by (auto simp: collision_def)
  next
    case False
    have "verify_inclusion P (leaf_hash P x) (json_nat i) (json_nat (length (map (leaf_hash P) es))) path (mth (node_hash P) (map (leaf_hash P) es))"
      using assms(1) by simp
    from inclusion_sound_hash [OF this assms(2) l _ assms(3) False] l show ?thesis
      by (simp add: case_prod_unfold Let_def)
  qed
qed

text \<open>C27. Nothing else is provable: a path accepted against the tree head of a list of entries proves the entry at that
  very index, or it exhibits two inputs SHA-256 maps to one hash - the two leaves, or the two nodes \<open>incl_break\<close>
  finds where the path leaves the tree. A proof cannot be moved to another position or another leaf.\<close>

theorem inclusion_sound:
  assumes "verify_inclusion P (leaf_hash P x) (json_nat i) (json_nat (length es)) path (mth (node_hash P) (map (leaf_hash P) es))"
    and "hash_ok P" "\<forall>h \<in> set path. length h = 32"
  shows "x = es ! i \<or> collision P (0 # x) (0 # es ! i)
    \<or> (let (a, b) = incl_break (node_hash P) (\<lambda>a b. 1 # a @ b) (leaf_hash P x) i (map (leaf_hash P) es) path in collision P a b)"
  using assms by (rule inclusion_sound_or)

text \<open>A platform whose hash keeps the last 32 bytes, and accepts every signature.\<close>

definition tail_platform :: platform where
  "tail_platform = \<lparr>sha256 = (\<lambda>b. drop (length b) (replicate 32 0 @ b)),
     create_public_key = (\<lambda>spki. Some \<lparr>key_spki = spki, key_type = ''ec'', key_curve = Some ''prime256v1''\<rparr>),
     verify_p1363 = (\<lambda>_ _ _. True), buffer_of_object = (\<lambda>_. None)\<rparr>"

lemma tail_platform_hash: "hash_ok tail_platform"
  by (simp add: hash_ok_def tail_platform_def del: drop_append)

theorem inclusion_sound_witness:
  "let x = replicate 31 5; es = [replicate 31 4, replicate 31 5];
       path = mpath (node_hash tail_platform) 1 (map (leaf_hash tail_platform) es)
   in x = es ! 1 \<or> collision tail_platform (0 # x) (0 # es ! 1)
    \<or> (let (a, b) = incl_break (node_hash tail_platform) (\<lambda>a b. 1 # a @ b) (leaf_hash tail_platform x) 1
         (map (leaf_hash tail_platform) es) path in collision tail_platform a b)"
proof -
  let ?es = "[replicate 31 4, replicate 31 5] :: bytes list"
  let ?hs = "map (leaf_hash tail_platform) ?es" and ?path = "mpath (node_hash tail_platform) 1 (map (leaf_hash tail_platform) [replicate 31 4, replicate 31 5])"
  have c: "verify_inclusion tail_platform (?hs ! 1) (json_nat 1) (json_nat (length ?hs)) ?path (mth (node_hash tail_platform) ?hs)"
    using log_tree.walk_complete [of 1 ?hs tail_platform] by (simp add: verify_inclusion_nat)
  then have v: "verify_inclusion tail_platform (leaf_hash tail_platform (replicate 31 5)) (json_nat 1) (json_nat (length ?es)) ?path
      (mth (node_hash tail_platform) ?hs)" by simp
  have "?path = [?hs ! 0]" by (simp add: mpath.simps mth.simps split_at.simps)
  moreover have "length (?hs ! 0) = 32" using tail_platform_hash by (simp add: leaf_hash_def hash_ok_def)
  ultimately have p: "\<forall>h \<in> set ?path. length h = 32" by (metis empty_iff empty_set set_ConsD)
  from inclusion_sound [OF v tail_platform_hash p] show ?thesis by (simp only: Let_def)
qed

section \<open>What an accepted registry attachment says\<close>

lemma find_log_Some: "find_log logs v = Some l \<Longrightarrow> l \<in> set logs \<and> v = Some (JStr (log_id l))"
  by (auto simp: find_log_def find_Some_iff)

lemma jcs_of_Inr: "jcs_of v = Inr b \<longleftrightarrow> (\<exists>j. v = Some j \<and> jcs j = Some b)"
  by (auto simp: jcs_of_def split: option.splits)

lemma check_leaf_ok:
  "check_leaf P leaf kid pub ts = Inr (Registry_ok hw reg t) \<Longrightarrow>
    member leaf ''type'' = Some (JStr (js ''key''))
    \<and> (\<exists>w. leaf_key_id kid = Some w \<and> member leaf ''key_id'' = Some (JStr w))
    \<and> buffer_from P (member leaf ''public_key'') = Some pub
    \<and> hw = member leaf ''secure_hw'' \<and> reg = member leaf ''registered_at'' \<and> ts = Some (JNum (NInt t))"
  by (auto simp: check_leaf_def split: if_splits option.splits)

lemma verify_registry_okD:
  assumes "verify_registry P att kid pub logs = Inr (Registry_ok hw reg t)"
  obtains l key root sg path head lb leaf where
    "l \<in> set logs" "member att ''log_id'' = Some (JStr (log_id l))" "log_key P l = Some key"
    "head_fields P att = Some (root, sg, path)" "length root = 32" "\<forall>h \<in> set path. length h = 32"
    "tree_head_message (member (the (member att ''tree_head'')) ''tree_size'')
       (member (the (member att ''tree_head'')) ''timestamp'') root = Inr head"
    "verify_es256 P head sg key" "member att ''leaf'' = Some leaf" "jcs leaf = Some lb"
    "verify_inclusion P (leaf_hash P lb) (member att ''leaf_index'')
       (member (the (member att ''tree_head'')) ''tree_size'') path root"
    "check_leaf P leaf kid pub (member (the (member att ''tree_head'')) ''timestamp'') = Inr (Registry_ok hw reg t)"
proof -
  from assms obtain l where l: "find_log logs (member att ''log_id'') = Some l"
    by (auto simp: verify_registry_def split: option.splits)
  from assms l obtain key where k: "log_key P l = Some key"
    by (auto simp: verify_registry_def split: option.splits)
  from assms l k obtain root sg path where f: "head_fields P att = Some (root, sg, path)"
    by (auto simp: verify_registry_def split: option.splits)
  note a = assms [unfolded verify_registry_def l k f option.case prod.case Let_def]
  from a have b: "length root = 32" "\<forall>h \<in> set path. length h = 32"
    by (auto split: if_splits)
  from a b obtain head where h: "tree_head_message (member (the (member att ''tree_head'')) ''tree_size'')
       (member (the (member att ''tree_head'')) ''timestamp'') root = Inr head" "verify_es256 P head sg key"
    by (auto split: if_splits)
  from a b h obtain lb where lb: "jcs_of (member att ''leaf'') = Inr lb"
      "verify_inclusion P (leaf_hash P lb) (member att ''leaf_index'')
       (member (the (member att ''tree_head'')) ''tree_size'') path root"
      "check_leaf P (the (member att ''leaf'')) kid pub (member (the (member att ''tree_head'')) ''timestamp'') = Inr (Registry_ok hw reg t)"
    by (auto split: if_splits)
  from lb(1) obtain leaf where leaf: "member att ''leaf'' = Some leaf" "jcs leaf = Some lb" by (auto simp: jcs_of_Inr)
  show thesis
    using find_log_Some [OF l] lb(2,3) leaf by (intro that [OF _ _ k f b h leaf]) simp_all
qed

text \<open>C26. End to end: an accepted registry attachment names a trusted log, carries a tree head that log's key signed,
  and shows a leaf of type \<open>key\<close> whose id is the device's key id and whose public key is the one the proof is
  signed with; if the signed root is the head of a list of entries, that leaf is the entry at the claimed index,
  unless the attachment exhibits a collision of SHA-256.\<close>

theorem registry_sound:
  assumes "verify_registry P att kid pub logs = Inr (Registry_ok hw reg t)" "hash_ok P"
    and "head_fields P att = Some (mth (node_hash P) (map (leaf_hash P) es), sg, path)"
    and "member (the (member att ''tree_head'')) ''tree_size'' = json_nat (length es)"
  shows "\<exists>l key head leaf lb i. l \<in> set logs \<and> log_key P l = Some key
    \<and> tree_head_message (json_nat (length es)) (Some (JNum (NInt t))) (mth (node_hash P) (map (leaf_hash P) es)) = Inr head
    \<and> verify_es256 P head sg key
    \<and> member att ''leaf'' = Some leaf \<and> member leaf ''type'' = Some (JStr (js ''key''))
    \<and> (\<exists>w. leaf_key_id kid = Some w \<and> member leaf ''key_id'' = Some (JStr w))
    \<and> buffer_from P (member leaf ''public_key'') = Some pub
    \<and> member att ''leaf_index'' = json_nat i \<and> i < length es \<and> jcs leaf = Some lb
    \<and> (lb = es ! i \<or> collision P (0 # lb) (0 # es ! i)
       \<or> (let (a, b) = incl_break (node_hash P) (\<lambda>a b. 1 # a @ b) (leaf_hash P lb) i (map (leaf_hash P) es) path in collision P a b))"
proof (rule verify_registry_okD [OF assms(1)])
  fix l key root sg' path' head lb leaf
  assume h: "l \<in> set logs" "log_key P l = Some key"
    "head_fields P att = Some (root, sg', path')" "\<forall>h \<in> set path'. length h = 32"
    "tree_head_message (member (the (member att ''tree_head'')) ''tree_size'')
       (member (the (member att ''tree_head'')) ''timestamp'') root = Inr head"
    "verify_es256 P head sg' key" "member att ''leaf'' = Some leaf" "jcs leaf = Some lb"
    "verify_inclusion P (leaf_hash P lb) (member att ''leaf_index'')
       (member (the (member att ''tree_head'')) ''tree_size'') path' root"
    "check_leaf P leaf kid pub (member (the (member att ''tree_head'')) ''timestamp'') = Inr (Registry_ok hw reg t)"
  have e: "root = mth (node_hash P) (map (leaf_hash P) es)" "sg' = sg" "path' = path" using h(3) assms(3) by simp_all
  note c = check_leaf_ok [OF h(10)]
  obtain i where i: "member att ''leaf_index'' = json_nat i" "i < length es"
    using verify_inclusion_json [OF h(9)] assms(4) by (auto simp: json_nat_def)
  have v: "verify_inclusion P (leaf_hash P lb) (json_nat i) (json_nat (length es)) path (mth (node_hash P) (map (leaf_hash P) es))"
    using h(9) unfolding e i(1) assms(4) .
  have p: "\<forall>h \<in> set path. length h = 32" using h(4) e by simp
  show ?thesis
    using h(1,2,5-8) c i inclusion_sound_or [OF v assms(2) p] unfolding e assms(4)
    by (intro exI [of _ l] exI [of _ key] exI [of _ head] exI [of _ leaf] exI [of _ lb] exI [of _ i]) simp
qed

text \<open>A registration: a log with one entry, the leaf of a key of 32 zero bytes.\<close>

definition sample_leaf :: json where
  "sample_leaf = JObj [(js ''type'', JStr (js ''key'')), (js ''key_id'', JStr (hex_of (replicate 32 0))),
     (js ''public_key'', JStr (b64url_encode [9])), (js ''secure_hw'', JStr (js ''tee''))]"

definition sample_leaf_bytes :: bytes where "sample_leaf_bytes = utf8_encode (serialize sample_leaf)"

definition sample_attachment :: "int \<Rightarrow> json" where
  "sample_attachment n = JObj [(js ''log_id'', JStr (js ''log'')), (js ''leaf_index'', JNum (NInt 0)),
     (js ''leaf'', sample_leaf), (js ''inclusion_path'', JArr []),
     (js ''tree_head'', JObj [(js ''tree_size'', JNum (NInt n)), (js ''timestamp'', JNum (NInt 5)),
       (js ''root_hash'', JStr (b64url_encode (leaf_hash tail_platform sample_leaf_bytes))),
       (js ''signature'', JStr (b64url_encode (replicate 64 0)))])]"

definition sample_logs :: "trusted_log list" where
  "sample_logs = [\<lparr>log_id = js ''log'', log_spki = [], app_signing_digests = None\<rparr>]"

lemma sample_leaf_jcs: "jcs sample_leaf = Some sample_leaf_bytes"
  by (simp add: jcs_def sample_leaf_bytes_def sample_leaf_def)

lemma sample_head_fields:
  "head_fields tail_platform (sample_attachment n) = Some (leaf_hash tail_platform sample_leaf_bytes, replicate 64 0, [])"
  by (simp add: head_fields_def sample_attachment_def b64_decode_encode del: b64url_encode.simps)

lemma sample_log: "find_log sample_logs (member (sample_attachment n) ''log_id'') = Some (hd sample_logs)"
  "\<exists>key. log_key tail_platform (hd sample_logs) = Some key"
  by (simp_all add: sample_logs_def sample_attachment_def find_log_def log_key_def public_key_from_spki_def tail_platform_def)

lemma sample_members [simp]:
  "the (member (sample_attachment n) ''tree_head'') = JObj [(js ''tree_size'', JNum (NInt n)), (js ''timestamp'', JNum (NInt 5)),
       (js ''root_hash'', JStr (b64url_encode (leaf_hash tail_platform sample_leaf_bytes))),
       (js ''signature'', JStr (b64url_encode (replicate 64 0)))]"
  "member (sample_attachment n) ''leaf'' = Some sample_leaf"
  "member (sample_attachment n) ''leaf_index'' = Some (JNum (NInt 0))"
  by (simp_all add: sample_attachment_def)

lemma sample_leaf_ok:
  "check_leaf tail_platform sample_leaf (b64url_encode (replicate 32 0)) [9] (Some (JNum (NInt 5)))
    = Inr (Registry_ok (Some (JStr (js ''tee''))) None 5)"
  by (simp add: check_leaf_def sample_leaf_def leaf_key_id_def b64_decode_encode del: b64url_encode.simps)

lemma sample_registry_ok:
  "verify_registry tail_platform (sample_attachment 1) (b64url_encode (replicate 32 0)) [9] sample_logs
    = Inr (Registry_ok (Some (JStr (js ''tee''))) None 5)"
proof -
  obtain key where k: "log_key tail_platform (hd sample_logs) = Some key" using sample_log(2) by blast
  have l: "length (leaf_hash tail_platform sample_leaf_bytes) = 32"
    using tail_platform_hash by (simp add: leaf_hash_def hash_ok_def)
  have v: "verify_es256 tail_platform m (replicate 64 0) key" for m by (simp add: verify_es256_def tail_platform_def)
  have i: "verify_inclusion tail_platform h (Some (JNum (NInt 0))) (Some (JNum (NInt 1))) [] h" for h
    by (simp add: verify_inclusion_def int_of_def incl_walk.simps)
  show ?thesis unfolding verify_registry_def sample_log(1) k sample_head_fields option.case prod.case Let_def
    by (simp add: l tree_head_message_def u64be_json_def u64be_def put_be_def v jcs_of_def sample_leaf_jcs i sample_leaf_ok)
qed

theorem registry_sound_witness:
  "\<exists>key head. log_key tail_platform (hd sample_logs) = Some key \<and> verify_es256 tail_platform head (replicate 64 0) key"
proof -
  have m: "mth (node_hash tail_platform) (map (leaf_hash tail_platform) [sample_leaf_bytes]) = leaf_hash tail_platform sample_leaf_bytes"
    by (simp add: mth.simps)
  have f: "head_fields tail_platform (sample_attachment 1)
      = Some (mth (node_hash tail_platform) (map (leaf_hash tail_platform) [sample_leaf_bytes]), replicate 64 0, [])"
    unfolding m by (rule sample_head_fields)
  have n: "member (the (member (sample_attachment 1) ''tree_head'')) ''tree_size'' = json_nat (length [sample_leaf_bytes])"
    by (simp add: json_nat_def)
  from registry_sound [OF sample_registry_ok tail_platform_hash f n] obtain l key head where
    "l \<in> set sample_logs" "log_key tail_platform l = Some key" "verify_es256 tail_platform head (replicate 64 0) key" by blast
  then show ?thesis by (auto simp: sample_logs_def)
qed

text \<open>C32. A tree head nobody signed can stop the verifier instead of weakening its verdict: with a trusted log named and
  the fields well formed, a negative \<open>tree_size\<close> leaves \<open>verifyRegistry\<close> as an uncaught RangeError, before the
  signature is looked at.\<close>

theorem registry_negative_tree_size_throws:
  assumes "find_log logs (member att ''log_id'') = Some l" "log_key P l = Some key"
    and "head_fields P att = Some (root, sg, path)" "length root = 32" "\<forall>h \<in> set path. length h = 32"
    and "member (the (member att ''tree_head'')) ''tree_size'' = Some (JNum (NInt n))" "n < 0"
  shows "verify_registry P att kid pub logs = Inl Range_error"
  using assms
  by (auto simp: verify_registry_def Let_def tree_head_message_def u64be_json_def u64be_def put_be_def)

theorem registry_negative_tree_size_throws_witness:
  "verify_registry tail_platform (sample_attachment (- 1)) [] [] sample_logs = Inl Range_error"
proof -
  obtain key where k: "log_key tail_platform (hd sample_logs) = Some key" using sample_log(2) by blast
  have l: "length (leaf_hash tail_platform sample_leaf_bytes) = 32"
    using tail_platform_hash by (simp add: leaf_hash_def hash_ok_def)
  show ?thesis
    by (rule registry_negative_tree_size_throws [where n = "- 1", OF sample_log(1) k sample_head_fields l])
      (simp_all only: sample_members, simp_all)
qed

end
