(* ===== verification/Location.thy ===== *)
theory Location
  imports Registry
begin

text \<open>
  \<open>tools/src/location.ts\<close>: the levels of a position and the check of a \<open>location_corroboration\<close>
  attachment. The outcome keeps the two flags the labels depend on: evaluated, and signed by a trusted key.
\<close>

definition LOCATION_LEVELS :: "string list" where
  "LOCATION_LEVELS = [''declared'', ''corroborated'', ''authenticated'']"

definition LOCATION_RANK :: "string \<Rightarrow> nat" where
  "LOCATION_RANK s = (if s = ''declared'' then 1 else if s = ''corroborated'' then 2
     else if s = ''authenticated'' then 3 else 0)"

definition LOCATION_SEPARATOR :: bytes where "LOCATION_SEPARATOR = ascii ''vcap/1.0/location''"

definition CORROBORATION_METHODS :: "string list" where
  "CORROBORATION_METHODS = [''camara-location-verification'', ''camara-number-verification'', ''camara-sim-swap'']"
definition CORROBORATION_RESULTS :: "string list" where
  "CORROBORATION_RESULTS = [''match'', ''no-match'', ''unknown'']"

definition corroboration_message :: "bytes \<Rightarrow> json \<Rightarrow> fault + bytes" where
  "corroboration_message core att = rbind (jcs_of (Some (without_sig att))) (\<lambda>b. Inr (LOCATION_SEPARATOR @ core @ b))"

datatype corroboration_outcome = Corroborated string string "int option" | Uncorroborated bool bool

definition verify_location_corroboration :: "platform \<Rightarrow> json \<Rightarrow> bytes \<Rightarrow> trusted_log list \<Rightarrow> fault + corroboration_outcome" where
  "verify_location_corroboration P att core logs =
     (if logs = [] then Inr (Uncorroborated False False)
      else case one_of CORROBORATION_METHODS (member att ''method'') of None \<Rightarrow> Inr (Uncorroborated False False)
      | Some method \<Rightarrow> (case buffer_from P (member att ''sig'') of None \<Rightarrow> Inr (Uncorroborated True False)
        | Some sg \<Rightarrow> rbind (corroboration_message core att) (\<lambda>message.
            if \<not> signed_by_log P logs message sg then Inr (Uncorroborated True False)
            else case one_of CORROBORATION_RESULTS (member att ''result'') of None \<Rightarrow> Inr (Uncorroborated True True)
            | Some result \<Rightarrow>
                if int_of (member att ''at'') = None then Inr (Uncorroborated True True)
                else let radius = int_of (member att ''radius_m'') in
                if method = ''camara-location-verification'' \<and> (case radius of None \<Rightarrow> True | Some r \<Rightarrow> r < 1)
                then Inr (Uncorroborated True True)
                else Inr (Corroborated method result radius))))"

lemma corroborated_signed:
  assumes "verify_location_corroboration P att core logs = Inr (Corroborated m r radius)"
  shows "\<exists>sg message. buffer_from P (member att ''sig'') = Some sg \<and> corroboration_message core att = Inr message
    \<and> signed_by_log P logs message sg \<and> m \<in> set CORROBORATION_METHODS \<and> r \<in> set CORROBORATION_RESULTS"
  using assms
  by (auto simp: verify_location_corroboration_def Let_def one_of_def find_Some_iff split: if_splits option.splits)

end
