(* ===== verification/Messages.thy ===== *)
theory Messages
  imports Location Segments
begin

text \<open>
  Every message a key of this format signs beside the core: a segment (\<open>segments.ts\<close>), a tree head, a key
  status, an attestation status and an integrity statement (\<open>registry.ts\<close>), a corroboration
  (\<open>location.ts\<close>). One key signs several kinds; their separators are a prefix-free code, so a signature
  over one statement is never a signature over another.
\<close>

datatype statement =
    Segment_of bytes int bytes bytes
  | Tree_head int int bytes
  | Key_status_of bytes int int nat
  | Attestation_status bytes json int
  | Integrity_of bytes json
  | Location_of bytes json

definition ok_bytes :: "fault + bytes \<Rightarrow> bytes option" where
  "ok_bytes r = (case r of Inr b \<Rightarrow> Some b | Inl _ \<Rightarrow> None)"

fun statement_bytes :: "statement \<Rightarrow> bytes option" where
  "statement_bytes (Segment_of cid i h p) = segment_message cid i h p"
| "statement_bytes (Tree_head n t root) = ok_bytes (tree_head_message (Some (JNum (NInt n))) (Some (JNum (NInt t))) root)"
| "statement_bytes (Key_status_of kid t n s) = ok_bytes (key_status_message kid t n s)"
| "statement_bytes (Attestation_status core entries t) = ok_bytes (attestation_status_message core entries t)"
| "statement_bytes (Integrity_of core body) = ok_bytes (integrity_message core body)"
| "statement_bytes (Location_of core body) = ok_bytes (corroboration_message core body)"

text \<open>What the callers guarantee: hashes of 32 bytes, values the proof reader produced.\<close>

definition good_body :: "json \<Rightarrow> bool" where
  "good_body v = (proof_value v \<and> depth v \<le> 64)"

fun statement_ok :: "statement \<Rightarrow> bool" where
  "statement_ok (Segment_of cid i h p) = True"
| "statement_ok (Tree_head n t root) = True"
| "statement_ok (Key_status_of kid t n s) = (length kid = 32 \<and> s < 256)"
| "statement_ok (Attestation_status core entries t) = (length core = 32 \<and> good_body entries)"
| "statement_ok (Integrity_of core body) = (length core = 32 \<and> good_body (without_sig body))"
| "statement_ok (Location_of core body) = (length core = 32 \<and> good_body (without_sig body))"

text \<open>The same statement: bodies up to the order of members, without the signature they carry.\<close>

fun same_statement :: "statement \<Rightarrow> statement \<Rightarrow> bool" where
  "same_statement (Attestation_status c e t) (Attestation_status c' e' t') = (c = c' \<and> canon e = canon e' \<and> t = t')"
| "same_statement (Integrity_of c b) (Integrity_of c' b') = (c = c' \<and> canon (without_sig b) = canon (without_sig b'))"
| "same_statement (Location_of c b) (Location_of c' b') = (c = c' \<and> canon (without_sig b) = canon (without_sig b'))"
| "same_statement s t = (s = t)"

section \<open>The separators are a prefix-free code\<close>

definition SEPARATORS :: "bytes list" where
  "SEPARATORS = [SEPARATOR, STH_SEPARATOR, STATUS_SEPARATOR, ATTESTATION_STATUS_SEPARATOR, INTEGRITY_SEPARATOR, LOCATION_SEPARATOR]"

definition strip_separator :: "bytes \<Rightarrow> (bytes \<times> bytes) option" where
  "strip_separator bs = map_option (\<lambda>s. (s, drop (length s) bs)) (List.find (\<lambda>s. take (length s) bs = s) SEPARATORS)"

lemmas separator_defs = SEPARATOR_def STH_SEPARATOR_def STATUS_SEPARATOR_def ATTESTATION_STATUS_SEPARATOR_def
  INTEGRITY_SEPARATOR_def LOCATION_SEPARATOR_def

lemma separators_prefix_free: "s \<in> set SEPARATORS \<Longrightarrow> t \<in> set SEPARATORS \<Longrightarrow> take (length t) (s @ r) = t \<Longrightarrow> t = s"
  unfolding SEPARATORS_def separator_defs ascii_def by auto

interpretation separators: stream_codec "\<lambda>s. s" strip_separator "\<lambda>s. s \<in> set SEPARATORS"
proof unfold_locales
  fix s r :: bytes
  assume s: "s \<in> set SEPARATORS"
  have "List.find (\<lambda>t. take (length t) (s @ r) = t) SEPARATORS \<noteq> None"
    using s by (auto simp: find_None_iff)
  then obtain t where t: "List.find (\<lambda>t. take (length t) (s @ r) = t) SEPARATORS = Some t" by blast
  then have "take (length t) (s @ r) = t" "t \<in> set SEPARATORS" by (auto simp: find_Some_iff)
  then have "t = s" using separators_prefix_free s by blast
  then show "strip_separator (s @ r) = Some (s, r)" using t by (simp add: strip_separator_def)
qed

fun separator_of :: "statement \<Rightarrow> bytes" where
  "separator_of (Segment_of cid i h p) = SEPARATOR"
| "separator_of (Tree_head n t root) = STH_SEPARATOR"
| "separator_of (Key_status_of kid t n s) = STATUS_SEPARATOR"
| "separator_of (Attestation_status core entries t) = ATTESTATION_STATUS_SEPARATOR"
| "separator_of (Integrity_of core body) = INTEGRITY_SEPARATOR"
| "separator_of (Location_of core body) = LOCATION_SEPARATOR"

lemma separator_of_in: "separator_of s \<in> set SEPARATORS"
  by (cases s) (simp_all add: SEPARATORS_def)

lemma separator_of_eq: "separator_of s = separator_of t \<Longrightarrow>
  (case s of Segment_of _ _ _ _ \<Rightarrow> (\<exists>a b c d. t = Segment_of a b c d) | Tree_head _ _ _ \<Rightarrow> (\<exists>a b c. t = Tree_head a b c)
   | Key_status_of _ _ _ _ \<Rightarrow> (\<exists>a b c d. t = Key_status_of a b c d)
   | Attestation_status _ _ _ \<Rightarrow> (\<exists>a b c. t = Attestation_status a b c)
   | Integrity_of _ _ \<Rightarrow> (\<exists>a b. t = Integrity_of a b) | Location_of _ _ \<Rightarrow> (\<exists>a b. t = Location_of a b))"
  by (cases s; cases t) (simp_all add: separator_defs ascii_def)

section \<open>One reading per message\<close>

lemma u64be_Inr: "u64be v = Inr b \<longleftrightarrow> put_be 8 v = Some b"
  by (auto simp: u64be_def split: option.splits)

lemma ok_bytes_Some [simp]: "ok_bytes r = Some b \<longleftrightarrow> r = Inr b"
  by (auto simp: ok_bytes_def split: sum.splits)

lemma tree_head_bytes:
  "tree_head_message (Some (JNum (NInt n))) (Some (JNum (NInt t))) root = Inr m \<longleftrightarrow>
    (\<exists>a b. put_be 8 n = Some a \<and> put_be 8 t = Some b \<and> m = STH_SEPARATOR @ a @ b @ root)"
  by (auto simp: tree_head_message_def u64be_json_def u64be_Inr)

lemma key_status_bytes:
  "key_status_message kid t n s = Inr m \<longleftrightarrow>
    (\<exists>a b. put_be 8 t = Some a \<and> put_be 8 n = Some b \<and> m = STATUS_SEPARATOR @ kid @ a @ b @ [of_nat s])"
  by (auto simp: key_status_message_def u64be_Inr)

lemma attestation_status_bytes:
  "attestation_status_message core e t = Inr m \<longleftrightarrow>
    (\<exists>a b. jcs e = Some a \<and> put_be 8 t = Some b \<and> m = ATTESTATION_STATUS_SEPARATOR @ core @ a @ b)"
  by (auto simp: attestation_status_message_def u64be_Inr jcs_of_Inr)

lemma integrity_bytes:
  "integrity_message core v = Inr m \<longleftrightarrow> (\<exists>a. jcs (without_sig v) = Some a \<and> m = INTEGRITY_SEPARATOR @ core @ a)"
  by (auto simp: integrity_message_def jcs_of_Inr)

lemma corroboration_bytes:
  "corroboration_message core v = Inr m \<longleftrightarrow> (\<exists>a. jcs (without_sig v) = Some a \<and> m = LOCATION_SEPARATOR @ core @ a)"
  by (auto simp: corroboration_message_def jcs_of_Inr)

lemmas message_bytes = tree_head_bytes key_status_bytes attestation_status_bytes integrity_bytes corroboration_bytes

lemma statement_separator: "statement_bytes s = Some m \<Longrightarrow> \<exists>r. m = separator_of s @ r"
  by (cases s) (auto simp: message_bytes segment_message_Some)

lemma same_separator:
  assumes "statement_bytes s = Some m" "statement_bytes t = Some m"
  shows "separator_of s = separator_of t"
proof -
  obtain r r' where "m = separator_of s @ r" "m = separator_of t @ r'"
    using assms statement_separator by blast
  then show ?thesis using separators.no_shift [OF separator_of_in separator_of_in] by metis
qed

lemma jcs_canon: "good_body a \<Longrightarrow> good_body b \<Longrightarrow> jcs a = Some m \<Longrightarrow> jcs b = Some m \<Longrightarrow> canon a = canon b"
  using jcs_eq_canon by (metis good_body_def)

lemma of_nat_byte_inj: "s < 256 \<Longrightarrow> t < 256 \<Longrightarrow> (of_nat s :: byte) = of_nat t \<Longrightarrow> s = t"
  by (metis byte_unat)

text \<open>C29. A signed message is one statement: two statements of this format with the same bytes are of the same kind and
  agree on every field - capture, index, tree size, root, key, instant, status, core hash and body. No signature
  over a segment, a tree head, a status, an integrity verdict or a corroboration can be replayed as another.\<close>

theorem statement_bytes_inj:
  assumes "statement_bytes s = Some m" "statement_bytes t = Some m" "statement_ok s" "statement_ok t"
  shows "same_statement s t"
proof -
  note sep = separator_of_eq [OF same_separator [OF assms(1,2)]]
  show ?thesis
  proof (cases s)
    case (Segment_of a b c d)
    then obtain a' b' c' d' where "t = Segment_of a' b' c' d'" using sep by auto
    then show ?thesis using Segment_of assms segment_message_eq by auto
  next
    case (Tree_head n i root)
    then obtain n' i' root' where t: "t = Tree_head n' i' root'" using sep by auto
    from assms(1,2) obtain a b a' b' where e: "put_be 8 n = Some a" "put_be 8 i = Some b" "put_be 8 n' = Some a'" "put_be 8 i' = Some b'"
      "a @ b @ root = a' @ b' @ root'"
      unfolding Tree_head t by (auto simp: message_bytes)
    then have "a = a' \<and> b = b' \<and> root = root'" by (auto dest!: put_be_length)
    then show ?thesis using e Tree_head t by (auto dest: put_be_inj)
  next
    case (Key_status_of kid i n st)
    then obtain kid' i' n' st' where t: "t = Key_status_of kid' i' n' st'" using sep by auto
    from assms(1,2) obtain a b a' b' where e: "put_be 8 i = Some a" "put_be 8 n = Some b" "put_be 8 i' = Some a'" "put_be 8 n' = Some b'"
      "kid @ a @ b @ [of_nat st :: byte] = kid' @ a' @ b' @ [of_nat st']"
      unfolding Key_status_of t by (auto simp: message_bytes)
    have l: "length kid = length kid'" "st < 256" "st' < 256" using assms(3,4) Key_status_of t by simp_all
    then have "kid = kid' \<and> a = a' \<and> b = b' \<and> (of_nat st :: byte) = of_nat st'" using e by (auto dest!: put_be_length)
    then show ?thesis using e l Key_status_of t by (auto dest: put_be_inj of_nat_byte_inj)
  next
    case (Attestation_status core v i)
    then obtain core' v' i' where t: "t = Attestation_status core' v' i'" using sep by auto
    from assms(1,2) obtain a b a' b' where e: "jcs v = Some a" "put_be 8 i = Some b" "jcs v' = Some a'" "put_be 8 i' = Some b'"
      "core @ a @ b = core' @ a' @ b'"
      unfolding Attestation_status t by (auto simp: message_bytes)
    have l: "length core = length core'" "good_body v" "good_body v'" using assms(3,4) Attestation_status t by simp_all
    have "core = core' \<and> a @ b = a' @ b'" using e(5) l(1) by simp
    then have "core = core'" "a @ b = a' @ b'" by blast+
    moreover from this have ab: "a = a'" "b = b'"
      using put_be_length [OF e(2)] put_be_length [OF e(4)] by simp_all
    moreover have "i = i'" by (rule put_be_inj [OF e(2)]) (simp only: ab e(4))
    moreover have "canon v = canon v'" by (rule jcs_canon [OF l(2,3) e(1)]) (simp only: ab e(3))
    ultimately show ?thesis by (simp add: Attestation_status t)
  next
    case (Integrity_of core v)
    then obtain core' v' where t: "t = Integrity_of core' v'" using sep by auto
    from assms(1,2) obtain a a' where e: "jcs (without_sig v) = Some a" "jcs (without_sig v') = Some a'" "core @ a = core' @ a'"
      unfolding Integrity_of t by (auto simp: message_bytes)
    have l: "length core = length core'" "good_body (without_sig v)" "good_body (without_sig v')"
      using assms(3,4) Integrity_of t by simp_all
    have c: "core = core'" "a = a'" using e(3) l(1) by simp_all
    have "canon (without_sig v) = canon (without_sig v')" by (rule jcs_canon [OF l(2,3) e(1)]) (simp only: c e(2))
    then show ?thesis using c by (simp add: Integrity_of t)
  next
    case (Location_of core v)
    then obtain core' v' where t: "t = Location_of core' v'" using sep by auto
    from assms(1,2) obtain a a' where e: "jcs (without_sig v) = Some a" "jcs (without_sig v') = Some a'" "core @ a = core' @ a'"
      unfolding Location_of t by (auto simp: message_bytes)
    have l: "length core = length core'" "good_body (without_sig v)" "good_body (without_sig v')"
      using assms(3,4) Location_of t by simp_all
    have c: "core = core'" "a = a'" using e(3) l(1) by simp_all
    have "canon (without_sig v) = canon (without_sig v')" by (rule jcs_canon [OF l(2,3) e(1)]) (simp only: c e(2))
    then show ?thesis using c by (simp add: Location_of t)
  qed
qed

theorem statement_bytes_inj_witness:
  "\<exists>m. statement_bytes (Tree_head 4 9 (replicate 32 7)) = Some m \<and> same_statement (Tree_head 4 9 (replicate 32 7)) (Tree_head 4 9 (replicate 32 7))"
proof -
  obtain m where m: "statement_bytes (Tree_head 4 9 (replicate 32 7)) = Some m"
    by (simp add: tree_head_message_def u64be_json_def u64be_def put_be_def ok_bytes_def)
  from statement_bytes_inj [OF m m] m show ?thesis by simp
qed

end
