(* ===== verification/Anchor.thy ===== *)
theory Anchor
  imports Registry
begin

text \<open>
  \<open>tools/src/anchor.ts\<close>: the Merkle path of a core hash to an anchored root, and the comparison with what
  the caller read from the chain. The tree is the log's (\<open>Registry\<close>), so its facts apply as they are.
\<close>

record chain_read =
  cr_root :: jsstr
  cr_tree_size :: int
  cr_block_time :: "int option"

datatype anchor_reason = Anchor_not_base64url | Anchor_root_not_32_bytes | Anchor_path_not_32_bytes
  | Anchor_path_misses_root | Anchor_differs_from_chain

datatype anchor_outcome = Anchor_ok bool "int option" | Anchor_bad anchor_reason

definition anchor_fields :: "platform \<Rightarrow> json \<Rightarrow> (bytes \<times> bytes list) option" where
  "anchor_fields P att = do {
     root \<leftarrow> buffer_from P (member att ''root'');
     hashes \<leftarrow> arr_of (member att ''merkle_path'');
     path \<leftarrow> omap (\<lambda>h. buffer_from P (Some h)) hashes;
     Some (root, path) }"

definition verify_anchor :: "platform \<Rightarrow> json \<Rightarrow> bytes \<Rightarrow> chain_read option \<Rightarrow> anchor_outcome" where
  "verify_anchor P att core read = (case anchor_fields P att of
     None \<Rightarrow> Anchor_bad Anchor_not_base64url
   | Some (root, path) \<Rightarrow>
       if length root \<noteq> 32 then Anchor_bad Anchor_root_not_32_bytes
       else if \<exists>h \<in> set path. length h \<noteq> 32 then Anchor_bad Anchor_path_not_32_bytes
       else if \<not> verify_inclusion P (leaf_hash P core) (member att ''index'') (member att ''tree_size'') path root
       then Anchor_bad Anchor_path_misses_root
       else case read of None \<Rightarrow> Anchor_ok False None
       | Some r \<Rightarrow>
           if Some (JNum (NInt (cr_tree_size r))) \<noteq> member att ''tree_size'' \<or> b64_decode (cr_root r) \<noteq> root
           then Anchor_bad Anchor_differs_from_chain
           else Anchor_ok True (cr_block_time r))"

lemma verify_anchor_ok:
  assumes "verify_anchor P att core read = Anchor_ok on_chain bt"
  obtains root path where "anchor_fields P att = Some (root, path)" "length root = 32" "\<forall>h \<in> set path. length h = 32"
    "verify_inclusion P (leaf_hash P core) (member att ''index'') (member att ''tree_size'') path root"
    "case read of None \<Rightarrow> \<not> on_chain \<and> bt = None
     | Some r \<Rightarrow> on_chain \<and> bt = cr_block_time r \<and> member att ''tree_size'' = Some (JNum (NInt (cr_tree_size r)))
         \<and> b64_decode (cr_root r) = root"
proof -
  from assms obtain root path where f: "anchor_fields P att = Some (root, path)"
    by (cases "anchor_fields P att") (auto simp: verify_anchor_def)
  note a = assms [unfolded verify_anchor_def f option.case prod.case]
  have b: "length root = 32" "\<not> (\<exists>h \<in> set path. length h \<noteq> 32)"
    "verify_inclusion P (leaf_hash P core) (member att ''index'') (member att ''tree_size'') path root"
    using a by (simp_all split: if_splits)
  show thesis
    by (rule that [OF f b(1) _ b(3)]) (use a b in \<open>auto split: option.splits if_splits\<close>)
qed

text \<open>C28. An accepted anchor shows its own tree: the root and the path are the attachment's, and when that root and the
  attachment's tree size are those of a batch of core hashes, this core hash is the one at the attachment's index, or
  that path exhibits a collision of SHA-256. It counts as on the chain exactly when the caller read the chain: then the
  root and the size are the recorded ones and the block time is the read's, and nothing in the proof; without a read
  no block time is given.\<close>

theorem anchor_sound:
  assumes "verify_anchor P att core read = Anchor_ok on_chain bt" "hash_ok P"
  shows "\<exists>root path. anchor_fields P att = Some (root, path) \<and> length root = 32 \<and> length ` set path \<subseteq> {32}
    \<and> (root = mth (node_hash P) (map (leaf_hash P) cores) \<and> member att ''tree_size'' = json_nat (length cores) \<longrightarrow>
        (\<exists>i. member att ''index'' = json_nat i \<and> i < length cores \<and> (core = cores ! i \<or> collision P (0 # core) (0 # cores ! i)
          \<or> (let (a, b) = incl_break (node_hash P) (\<lambda>a b. 1 # a @ b) (leaf_hash P core) i (map (leaf_hash P) cores) path
             in collision P a b))))
    \<and> (case read of None \<Rightarrow> \<not> on_chain \<and> bt = None
       | Some r \<Rightarrow> on_chain \<and> bt = cr_block_time r \<and> b64_decode (cr_root r) = root \<and> member att ''tree_size'' = Some (JNum (NInt (cr_tree_size r))))"
proof (rule verify_anchor_ok [OF assms(1)], goal_cases)
  case (1 root path)
  have "\<exists>i. member att ''index'' = json_nat i \<and> i < length cores \<and> (core = cores ! i \<or> collision P (0 # core) (0 # cores ! i)
          \<or> (let (a, b) = incl_break (node_hash P) (\<lambda>a b. 1 # a @ b) (leaf_hash P core) i (map (leaf_hash P) cores) path
             in collision P a b))"
    if c: "root = mth (node_hash P) (map (leaf_hash P) cores)" "member att ''tree_size'' = json_nat (length cores)"
  proof -
    obtain i where i: "member att ''index'' = json_nat i" "i < length cores"
      using verify_inclusion_json [OF 1(4)] c(2) by (auto simp: json_nat_def)
    have "verify_inclusion P (leaf_hash P core) (json_nat i) (json_nat (length cores)) path (mth (node_hash P) (map (leaf_hash P) cores))"
      using 1(4) unfolding i(1) c .
    from inclusion_sound_or [OF this assms(2) 1(3)] i show ?thesis by blast
  qed
  then show ?case using 1(1-3,5) by (intro exI [of _ root] exI [of _ path]) (auto split: option.splits)
qed

theorem anchor_sound_witness:
  "\<exists>att read. verify_anchor tail_platform att (replicate 32 3) (Some read) = Anchor_ok True (Some 77) \<and> cr_block_time read = Some 77"
proof -
  define h where "h = leaf_hash tail_platform (replicate 32 3)"
  define att where "att = JObj [(js ''root'', JStr (b64url_encode h)), (js ''merkle_path'', JArr []),
     (js ''index'', JNum (NInt 0)), (js ''tree_size'', JNum (NInt 1))]"
  define read where "read = \<lparr>cr_root = b64url_encode h, cr_tree_size = 1, cr_block_time = Some 77\<rparr>"
  have l: "length h = 32" using tail_platform_hash by (simp add: h_def leaf_hash_def hash_ok_def)
  have f: "anchor_fields tail_platform att = Some (h, [])"
    by (simp add: anchor_fields_def att_def b64_decode_encode)
  have i: "verify_inclusion tail_platform h (Some (JNum (NInt 0))) (Some (JNum (NInt 1))) [] h"
    by (simp add: verify_inclusion_def int_of_def incl_walk.simps)
  have v: "verify_anchor tail_platform att (replicate 32 3) (Some read) = Anchor_ok True (Some 77)"
    unfolding verify_anchor_def f h_def [symmetric] using l i by (simp add: att_def read_def b64_decode_encode)
  from anchor_sound [OF v tail_platform_hash, of "[replicate 32 3]"] have "cr_block_time read = Some 77" by auto
  then show ?thesis using v by blast
qed

end
