(* ===== verification/Cbor.thy ===== *)
theory Cbor
  imports Core
begin

text \<open>
  \<open>tools/src/cbor.ts\<close>: the CBOR a carrier reader needs. Every \<open>CborError\<close> is \<open>None\<close>, as the one
  caller treats them. The reader's position is the rest of the input; the depth is counted down from 32.
  Numbers and bigints are one integer; a float keeps its width and bits, which nothing reads.
\<close>

datatype cbor = CInt int | CBytes bytes | CText jsstr | CArray "cbor list" | CMap "(jsstr \<times> cbor) list"
  | CBool bool | CNull | CUndefined | CFloat nat nat

definition CBOR_MAX_DEPTH :: nat where "CBOR_MAX_DEPTH = 32"

text \<open>The argument of a head, and a length that must fit what is left.\<close>

definition argument :: "nat \<Rightarrow> bytes \<Rightarrow> (nat \<times> bytes) option" where
  "argument info bs =
     (if info < 24 then Some (info, bs)
      else if info = 24 then take_be 1 bs
      else if info = 25 then take_be 2 bs
      else if info = 26 then take_be 4 bs
      else if info = 27 then take_be 8 bs
      else None)"

definition c_length :: "nat \<Rightarrow> bytes \<Rightarrow> (nat \<times> bytes) option" where
  "c_length info bs = (case argument info bs of None \<Rightarrow> None
     | Some (n, r) \<Rightarrow> if int n > max_safe \<or> n > length r then None else Some (n, r))"

text \<open>The items without others inside; \<open>None\<close> is an error.\<close>

definition c_simple :: "nat \<Rightarrow> bytes \<Rightarrow> (cbor \<times> bytes) option" where
  "c_simple info bs =
     (if info = 20 then Some (CBool False, bs)
      else if info = 21 then Some (CBool True, bs)
      else if info = 22 then Some (CNull, bs)
      else if info = 23 then Some (CUndefined, bs)
      else if info = 25 then map_option (map_prod (CFloat 2) id) (take_be 2 bs)
      else if info = 26 then map_option (map_prod (CFloat 4) id) (take_be 4 bs)
      else if info = 27 then map_option (map_prod (CFloat 8) id) (take_be 8 bs)
      else None)"

definition c_text :: "nat \<Rightarrow> bytes \<Rightarrow> (cbor \<times> bytes) option" where
  "c_text n bs = (case text_decode (take n bs) of None \<Rightarrow> None | Some s \<Rightarrow> Some (CText s, drop n bs))"

text \<open>\<open>levels\<close> is how many more levels the item may open, itself included.\<close>

fun c_item :: "nat \<Rightarrow> bytes \<Rightarrow> (cbor \<times> bytes) option"
  and c_items :: "nat \<Rightarrow> nat \<Rightarrow> bytes \<Rightarrow> (cbor list \<times> bytes) option"
  and c_members :: "nat \<Rightarrow> nat \<Rightarrow> jsstr set \<Rightarrow> bytes \<Rightarrow> ((jsstr \<times> cbor) list \<times> bytes) option" where
  "c_item 0 bs = None"
| "c_item (Suc levels) [] = None"
| "c_item (Suc levels) (head # r) = (let major = unat head div 32; info = unat head mod 32 in
     if major = 0 then map_option (map_prod (\<lambda>n. CInt (int n)) id) (argument info r)
     else if major = 1 then map_option (map_prod (\<lambda>n. CInt (- 1 - int n)) id) (argument info r)
     else if major = 2 then (case c_length info r of None \<Rightarrow> None | Some (n, r') \<Rightarrow> Some (CBytes (take n r'), drop n r'))
     else if major = 3 then (case c_length info r of None \<Rightarrow> None | Some (n, r') \<Rightarrow> c_text n r')
     else if major = 4 then (case c_length info r of None \<Rightarrow> None
       | Some (n, r') \<Rightarrow> map_option (map_prod CArray id) (c_items levels n r'))
     else if major = 5 then (case c_length info r of None \<Rightarrow> None
       | Some (n, r') \<Rightarrow> map_option (map_prod CMap id) (c_members levels n {} r'))
     else if major = 6 then (case argument info r of None \<Rightarrow> None | Some (n, r') \<Rightarrow> c_item levels r')
     else c_simple info r)"
| "c_items levels 0 bs = Some ([], bs)"
| "c_items levels (Suc n) bs = (case c_item levels bs of None \<Rightarrow> None
     | Some (v, r) \<Rightarrow> map_option (map_prod (Cons v) id) (c_items levels n r))"
| "c_members levels 0 seen bs = Some ([], bs)"
| "c_members levels (Suc n) seen bs = (case c_item levels bs of
       Some (CText key, r) \<Rightarrow>
         if key \<in> seen then None
         else (case c_item levels r of None \<Rightarrow> None
           | Some (v, r') \<Rightarrow> map_option (map_prod (Cons (key, v)) id) (c_members levels n (insert key seen) r'))
     | _ \<Rightarrow> None)"

definition decode_cbor :: "bytes \<Rightarrow> cbor option" where
  "decode_cbor bs = (case c_item (Suc CBOR_MAX_DEPTH) bs of Some (v, []) \<Rightarrow> Some v | _ \<Rightarrow> None)"

section \<open>Reading consumes what it allocates\<close>

text \<open>The weight of a value: its items, and the bytes and code units it holds.\<close>

fun weight :: "cbor \<Rightarrow> nat" where
  "weight (CBytes b) = Suc (length b)"
| "weight (CText s) = Suc (length s)"
| "weight (CArray vs) = Suc (sum_list (map weight vs))"
| "weight (CMap ms) = Suc (sum_list (map (\<lambda>m. Suc (length (fst m)) + weight (snd m)) ms))"
| "weight _ = 1"

text \<open>How deep a value's containers nest, and distinct keys everywhere.\<close>

fun cbor_ok :: "nat \<Rightarrow> cbor \<Rightarrow> bool" where
  "cbor_ok levels (CArray vs) = (0 < levels \<and> (\<forall>v \<in> set vs. cbor_ok (levels - 1) v))"
| "cbor_ok levels (CMap ms) = (0 < levels \<and> distinct (map fst ms) \<and> (\<forall>m \<in> set ms. cbor_ok (levels - 1) (snd m)))"
| "cbor_ok levels _ = (0 < levels)"

lemma cbor_ok_mono: "cbor_ok l v \<Longrightarrow> l \<le> l' \<Longrightarrow> cbor_ok l' v"
  by (induction l v arbitrary: l' rule: cbor_ok.induct) (auto intro: diff_le_mono)

lemma argument_shorter: "argument info bs = Some (n, r) \<Longrightarrow> length r \<le> length bs"
  by (auto simp: argument_def take_be_def split: if_splits)

lemma c_length_bound: "c_length info bs = Some (n, r) \<Longrightarrow> length r \<le> length bs \<and> n \<le> length r"
  by (auto simp: c_length_def split: option.splits if_splits dest: argument_shorter)

lemma utf8_decode_short: "utf8_decode bs = Some s \<Longrightarrow> length s \<le> length bs"
proof (induction bs arbitrary: s rule: utf8_decode.induct)
  case (1 bs)
  show ?case
  proof (cases "bs = []")
    case True
    then show ?thesis using "1.prems" by simp
  next
    case False
    then obtain c r t where h: "next_cp bs = Some (c, r)" "utf8_decode r = Some t" "s = units_of c @ t"
      using "1.prems" by (subst (asm) utf8_decode.simps) (auto split: option.splits)
    have t: "length t \<le> length r" by (rule "1.IH" [OF False h(1) refl h(2)])
    have "scalar c" "bs = cp_bytes c @ r" using next_cp_sound [OF h(1)] by auto
    moreover have "length (units_of c) \<le> length (cp_bytes c)" by (simp add: units_of_def cp_bytes_def)
    ultimately show ?thesis using t h(3) by simp
  qed
qed

lemma text_decode_short: "text_decode bs = Some s \<Longrightarrow> length s \<le> length bs"
  using utf8_decode_short by (fastforce simp: text_decode_def split: if_splits)

lemma c_simple_weight: "c_simple info bs = Some (v, r) \<Longrightarrow> weight v = 1 \<and> length r \<le> length bs \<and> (0 < levels \<longrightarrow> cbor_ok levels v)"
  by (auto simp: c_simple_def take_be_def split: if_splits)

lemma c_weight:
  "c_item levels bs = Some (v, r) \<Longrightarrow> weight v + length r \<le> length bs \<and> cbor_ok levels v"
  "c_items levels n bs = Some (vs, r) \<Longrightarrow> sum_list (map weight vs) + length r \<le> length bs \<and> (\<forall>v \<in> set vs. cbor_ok levels v)"
  "c_members levels n seen bs = Some (ms, r) \<Longrightarrow>
     sum_list (map (\<lambda>m. Suc (length (fst m)) + weight (snd m)) ms) + length r \<le> length bs
     \<and> distinct (map fst ms) \<and> set (map fst ms) \<inter> seen = {} \<and> (\<forall>m \<in> set ms. cbor_ok levels (snd m))"
proof (induction levels bs and levels n bs and levels n seen bs arbitrary: v r and vs r and ms r
    rule: c_item_c_items_c_members.induct)
  case (3 levels head r0)
  define major where "major = unat head div 32"
  define info where "info = unat head mod 32"
  note p = "3.prems" [unfolded c_item.simps Let_def, folded major_def info_def]
  note ih = "3.IH" [OF major_def info_def]
  have "major < 8" using unat_byte_less [of head] unfolding major_def by linarith
  then consider "major = 0" | "major = 1" | "major = 2" | "major = 3" | "major = 4" | "major = 5" | "major = 6" | "major = 7"
    by linarith
  then show ?case
  proof cases
    case 1
    then show ?thesis using p by (auto dest: argument_shorter)
  next
    case 2
    then show ?thesis using p by (auto dest: argument_shorter)
  next
    case 3
    then show ?thesis using p by (auto split: option.splits dest: c_length_bound)
  next
    case 4
    then obtain n r' where "c_length info r0 = Some (n, r')" "c_text n r' = Some (v, r)"
      using p by (auto split: option.splits)
    then show ?thesis
      by (auto simp: c_text_def split: option.splits dest!: c_length_bound text_decode_short)
  next
    case 5
    then obtain n r' vs where h: "c_length info r0 = Some (n, r')" "c_items levels n r' = Some (vs, r)" "v = CArray vs"
      using p by (auto split: option.splits)
    have "sum_list (map weight vs) + length r \<le> length r' \<and> (\<forall>v \<in> set vs. cbor_ok levels v)"
      by (rule ih(1)) (use 5 h in simp_all)
    then show ?thesis using c_length_bound [OF h(1)] h(3) by simp
  next
    case 6
    then obtain n r' ms where h: "c_length info r0 = Some (n, r')" "c_members levels n {} r' = Some (ms, r)" "v = CMap ms"
      using p by (auto split: option.splits)
    have "sum_list (map (\<lambda>m. Suc (length (fst m)) + weight (snd m)) ms) + length r \<le> length r'
      \<and> distinct (map fst ms) \<and> set (map fst ms) \<inter> {} = {} \<and> (\<forall>m \<in> set ms. cbor_ok levels (snd m))"
      by (rule ih(2)) (use 6 h in simp_all)
    then show ?thesis using c_length_bound [OF h(1)] h(3) by simp
  next
    case 7
    then obtain n r' where h: "argument info r0 = Some (n, r')" "c_item levels r' = Some (v, r)"
      using p by (auto split: option.splits)
    have "weight v + length r \<le> length r' \<and> cbor_ok levels v"
      by (rule ih(3)) (use 7 h in simp_all)
    moreover have "cbor_ok levels v \<Longrightarrow> cbor_ok (Suc levels) v"
      using cbor_ok_mono [of levels v "Suc levels"] by simp
    ultimately show ?thesis using argument_shorter [OF h(1)] by simp
  next
    case 8
    then show ?thesis using p c_simple_weight [of info r0 v r "Suc levels"] by simp
  qed
next
  case (5 levels n bs)
  then obtain v r1 vs' where h: "c_item levels bs = Some (v, r1)" "c_items levels n r1 = Some (vs', r)" "vs = v # vs'"
    by (auto split: option.splits)
  from "5.IH"(1) [OF h(1)] "5.IH"(2) [OF h(1) refl h(2)] show ?case using h(3) by auto
next
  case (7 levels n seen bs)
  then obtain key r1 where k: "c_item levels bs = Some (CText key, r1)" "key \<notin> seen"
    by (auto split: option.splits cbor.splits if_splits)
  then obtain v r2 ms' where h: "c_item levels r1 = Some (v, r2)" "c_members levels n (insert key seen) r2 = Some (ms', r)" "ms = (key, v) # ms'"
    using "7.prems" by (auto split: option.splits)
  from "7.IH"(1) [OF k(1)] have a: "Suc (length key) + length r1 \<le> length bs" by simp
  from "7.IH"(2) [OF k(1) refl refl k(2) h(1)] have b: "weight v + length r2 \<le> length r1 \<and> cbor_ok levels v" .
  from "7.IH"(3) [OF k(1) refl refl k(2) h(1) refl h(2)] a b k(2) show ?case using h(3) by auto
qed simp_all

text \<open>C31. A hostile head cannot make the reader allocate more than the input holds: the items, bytes and characters of
  a decoded value are at most the bytes read; and what it returns nests at most 33 levels, with distinct keys in
  every map.\<close>

theorem decode_cbor_bounded:
  "case decode_cbor bs of None \<Rightarrow> True | Some v \<Rightarrow> weight v \<le> length bs \<and> cbor_ok (Suc CBOR_MAX_DEPTH) v"
proof (cases "decode_cbor bs")
  case (Some v)
  then have "c_item (Suc CBOR_MAX_DEPTH) bs = Some (v, [])"
    by (auto simp: decode_cbor_def split: option.splits list.splits)
  from c_weight(1) [OF this] show ?thesis using Some by simp
qed simp

end
