(* ===== verification/Boxes.thy ===== *)
theory Boxes
  imports Core Timing
begin

text \<open>
  The box walk of \<open>tools/src/container.ts\<close>: \<open>boxes\<close>, \<open>find\<close> and \<open>children\<close> over an ISO-BMFF
  file. The walk stops silently at a box that does not fit; the one exception it can throw is the
  RangeError of a 64-bit size that is not in the file (\<open>None\<close>).
\<close>

section \<open>Reads\<close>

abbreviation u32 :: "bytes \<Rightarrow> nat \<Rightarrow> nat option" where "u32 \<equiv> read_be 4"

section \<open>boxes\<close>

record box =
  bx_type :: string
  bx_start :: nat
  bx_end :: nat
  bx_payload :: nat

text \<open>Size and payload of the box at \<open>at\<close>; the size read from the file is not yet checked.\<close>

definition box_head :: "bytes \<Rightarrow> nat \<Rightarrow> nat \<Rightarrow> (nat \<times> nat) option" where
  "box_head whole p fin = do {
     sz \<leftarrow> u32 whole p;
     if sz = 1 then do { large \<leftarrow> read_be 8 whole (p + 8); Some (large, p + 16) }
     else if sz = 0 then Some (fin - p, p + 8)
     else Some (sz, p + 8) }"

function boxes :: "bytes \<Rightarrow> nat \<Rightarrow> nat \<Rightarrow> box list option" where
  "boxes whole p fin =
     (if p + 8 > fin then Some []
      else case box_head whole p fin of None \<Rightarrow> None
      | Some (sz, payload) \<Rightarrow>
          if sz < 8 \<or> p + sz > fin then Some []
          else map_option (Cons \<lparr>bx_type = latin1 (slice whole (p + 4) (p + 8)), bx_start = p, bx_end = p + sz, bx_payload = payload\<rparr>)
                 (boxes whole (p + sz) fin))"
  by pat_completeness auto
termination by (relation "measure (\<lambda>(whole, p, fin). fin - p)") auto

declare boxes.simps [simp del]

definition find_box :: "box list \<Rightarrow> string \<Rightarrow> box option" where
  "find_box bs ty = List.find (\<lambda>b. bx_type b = ty) bs"

definition children :: "bytes \<Rightarrow> box \<Rightarrow> box list option" where
  "children whole b = boxes whole (bx_payload b) (bx_end b)"

section \<open>The boxes tile what they cover\<close>

text \<open>Every box found lies in the span, they follow each other without a gap, and each is at least eight bytes.\<close>

fun tiles :: "nat \<Rightarrow> nat \<Rightarrow> box list \<Rightarrow> bool" where
  "tiles p fin [] = True"
| "tiles p fin (b # bs) = (bx_start b = p \<and> p + 8 \<le> bx_end b \<and> bx_end b \<le> fin \<and> tiles (bx_end b) fin bs)"

lemma boxes_tile: "boxes whole p fin = Some bs \<Longrightarrow> tiles p fin bs"
proof (induction whole p fin arbitrary: bs rule: boxes.induct)
  case (1 whole p fin)
  show ?case
  proof (cases "p + 8 > fin")
    case False
    then obtain sz payload where h: "box_head whole p fin = Some (sz, payload)"
      using "1.prems" by (cases "box_head whole p fin") (auto simp: boxes.simps [of whole p fin])
    show ?thesis
    proof (cases "sz < 8 \<or> p + sz > fin")
      case True
      then show ?thesis using "1.prems" False h by (simp add: boxes.simps [of whole p fin])
    next
      case ok: False
      then obtain rest where r: "boxes whole (p + sz) fin = Some rest"
        "bs = \<lparr>bx_type = latin1 (slice whole (p + 4) (p + 8)), bx_start = p, bx_end = p + sz, bx_payload = payload\<rparr> # rest"
        using "1.prems" False h by (auto simp: boxes.simps [of whole p fin])
      from "1.IH" [OF False h refl ok r(1)] show ?thesis using ok r(2) by simp
    qed
  qed (use "1.prems" in \<open>simp add: boxes.simps [of whole p fin]\<close>)
qed

lemma tiles_bounds: "tiles p fin bs \<Longrightarrow> b \<in> set bs \<Longrightarrow> p \<le> bx_start b \<and> bx_start b + 8 \<le> bx_end b \<and> bx_end b \<le> fin"
  by (induction bs arbitrary: p) fastforce+

lemma tiles_disjoint: "tiles p fin bs \<Longrightarrow> i < j \<Longrightarrow> j < length bs \<Longrightarrow> bx_end (bs ! i) \<le> bx_start (bs ! j)"
proof (induction bs arbitrary: p i j)
  case (Cons b bs)
  show ?case
  proof (cases i)
    case 0
    then obtain k where k: "j = Suc k" "k < length bs" using Cons.prems by (cases j) auto
    have "bs ! k \<in> set bs" using k(2) by simp
    then have "bx_end b \<le> bx_start (bs ! k)" using tiles_bounds Cons.prems(1) by fastforce
    then show ?thesis using 0 k by simp
  next
    case (Suc m)
    then show ?thesis using Cons.IH [of "bx_end b" m "j - 1"] Cons.prems by (cases j) auto
  qed
qed simp

text \<open>The boxes read from a span are disjoint, in file order, each at least eight bytes and inside the span:
  no byte is read as part of two boxes, and none outside the span as part of one.\<close>

theorem boxes_disjoint:
  assumes "boxes whole p fin = Some bs" "i < j" "j < length bs"
  shows "p \<le> bx_start (bs ! i) \<and> bx_start (bs ! i) + 8 \<le> bx_end (bs ! i)
    \<and> bx_end (bs ! i) \<le> bx_start (bs ! j) \<and> bx_end (bs ! j) \<le> fin"
  using tiles_bounds [OF boxes_tile [OF assms(1)] nth_mem [of i bs]]
    tiles_bounds [OF boxes_tile [OF assms(1)] nth_mem [of j bs]] tiles_disjoint [OF boxes_tile [OF assms(1)] assms(2,3)] assms(2,3)
  by auto

theorem boxes_disjoint_witness:
  "\<exists>bs. boxes (be_bytes 4 8 @ ascii ''free'' @ be_bytes 4 0 @ ascii ''mdat'') 0 16 = Some bs \<and> bx_end (bs ! 0) \<le> bx_start (bs ! 1)"
proof -
  have "boxes (be_bytes 4 8 @ ascii ''free'' @ be_bytes 4 0 @ ascii ''mdat'') 0 16 =
    Some [\<lparr>bx_type = ''free'', bx_start = 0, bx_end = 8, bx_payload = 8\<rparr>, \<lparr>bx_type = ''mdat'', bx_start = 8, bx_end = 16, bx_payload = 16\<rparr>]"
    by code_simp
  then show ?thesis using boxes_disjoint [of _ 0 16 _ 0 1] by fastforce
qed

end
