(* ===== verification/Jumbf.thy ===== *)
theory Jumbf
  imports Boxes
begin

text \<open>
  \<open>tools/src/jumbf.ts\<close>: the JUMBF boxes of a C2PA Manifest Store and where a store sits in a JPEG or an
  ISO-BMFF file. A \<open>JumbfError\<close>, and the plain error of a malformed JPEG, are \<open>None\<close>. A type is its
  16 bytes instead of their hexadecimal text.
\<close>

section \<open>Types\<close>

definition ISO_SUFFIX :: bytes where
  "ISO_SUFFIX = [0x00, 0x11, 0x00, 0x10, 0x80, 0x00, 0x00, 0xaa, 0x00, 0x38, 0x9b, 0x71]"

definition iso :: "string \<Rightarrow> bytes" where "iso fourcc = ascii fourcc @ ISO_SUFFIX"

definition TYPE_store :: bytes where "TYPE_store = iso ''c2pa''"
definition TYPE_manifest :: bytes where "TYPE_manifest = iso ''c2ma''"
definition TYPE_updateManifest :: bytes where "TYPE_updateManifest = iso ''c2um''"
definition TYPE_legacyManifest :: bytes where "TYPE_legacyManifest = iso ''c2md''"
definition TYPE_compressedManifest :: bytes where "TYPE_compressedManifest = iso ''c2cm''"
definition TYPE_assertionStore :: bytes where "TYPE_assertionStore = iso ''c2as''"
definition TYPE_claim :: bytes where "TYPE_claim = iso ''c2cl''"
definition TYPE_json :: bytes where "TYPE_json = iso ''json''"

definition C2PA_BMFF_UUID :: bytes where
  "C2PA_BMFF_UUID = [0xd8, 0xfe, 0xc3, 0xd6, 0x1b, 0x0e, 0x48, 0x3c, 0x92, 0x97, 0x58, 0x28, 0x87, 0x7e, 0xc4, 0x81]"

definition JUMBF_MAX_DEPTH :: nat where "JUMBF_MAX_DEPTH = 16"

datatype jumbf = Superbox bytes nat "jsstr option" "jumbf list" | Content_box string bytes

fun sb_type :: "jumbf \<Rightarrow> bytes" where "sb_type (Superbox t _ _ _) = t" | "sb_type (Content_box _ _) = []"
fun sb_toggles :: "jumbf \<Rightarrow> nat" where "sb_toggles (Superbox _ t _ _) = t" | "sb_toggles (Content_box _ _) = 0"
fun sb_label :: "jumbf \<Rightarrow> jsstr option" where "sb_label (Superbox _ _ l _) = l" | "sb_label (Content_box _ _) = None"
fun sb_children :: "jumbf \<Rightarrow> jumbf list" where "sb_children (Superbox _ _ _ c) = c" | "sb_children (Content_box _ _) = []"
fun is_super :: "jumbf \<Rightarrow> bool" where "is_super (Superbox _ _ _ _) = True" | "is_super (Content_box _ _) = False"

section \<open>Boxes\<close>

text \<open>The checked size and the payload of the box at \<open>p\<close>.\<close>

definition jumbf_head :: "bytes \<Rightarrow> nat \<Rightarrow> nat \<Rightarrow> (nat \<times> nat) option" where
  "jumbf_head buf p fin =
     (if fin - p < 8 then None
      else do {
        sz \<leftarrow> u32 buf p;
        (sz', payload) \<leftarrow>
          (if sz = 1 then
             (if fin - p < 16 then None
              else do { large \<leftarrow> read_be 8 buf (p + 8); if large > fin - p then None else Some (large, p + 16) })
           else if sz = 0 then Some (fin - p, p + 8)
           else Some (sz, p + 8));
        if sz' < payload - p \<or> sz' > fin - p then None else Some (sz', payload) })"

lemma jumbf_head_size: "jumbf_head buf p fin = Some (sz, payload) \<Longrightarrow> 8 \<le> sz \<and> sz \<le> fin - p \<and> p + 8 \<le> payload \<and> payload \<le> p + sz"
  by (auto simp: jumbf_head_def bind_eq_Some_conv split: if_splits)

function box_list :: "bytes \<Rightarrow> nat \<Rightarrow> nat \<Rightarrow> box list option" where
  "box_list buf p fin =
     (if p \<ge> fin then Some []
      else case jumbf_head buf p fin of None \<Rightarrow> None
      | Some (sz, payload) \<Rightarrow>
          map_option (Cons \<lparr>bx_type = latin1 (slice buf (p + 4) (p + 8)), bx_start = p, bx_end = p + sz, bx_payload = payload\<rparr>)
            (box_list buf (p + sz) fin))"
  by pat_completeness auto
termination by (relation "measure (\<lambda>(buf, p, fin). fin - p)") (auto dest!: jumbf_head_size)

declare box_list.simps [simp del]

definition index_of_zero :: "bytes \<Rightarrow> nat option" where
  "index_of_zero bs = List.find (\<lambda>i. bs ! i = 0) [0..<length bs]"

text \<open>The label of a description box: \<open>None\<close> is an error, \<open>Some None\<close> no label.\<close>

definition description_label :: "bytes \<Rightarrow> jsstr option option" where
  "description_label d =
     (if \<not> bit (d ! 16) 1 then Some None
      else case index_of_zero (drop 17 d) of None \<Rightarrow> None
      | Some n \<Rightarrow> (case text_decode (take n (drop 17 d)) of None \<Rightarrow> None | Some s \<Rightarrow> Some (Some s)))"

fun parse_superbox :: "nat \<Rightarrow> bytes \<Rightarrow> jumbf option" where
  "parse_superbox 0 buf = None"
| "parse_superbox (Suc levels) buf = (case box_list buf 0 (length buf) of
     Some [outer] \<Rightarrow>
       if bx_type outer \<noteq> ''jumb'' then None
       else (case box_list buf (bx_payload outer) (bx_end outer) of
         Some (description # contents) \<Rightarrow>
           if bx_type description \<noteq> ''jumd'' then None
           else let d = slice buf (bx_payload description) (bx_end description) in
           if length d < 17 then None
           else (case description_label d of None \<Rightarrow> None
           | Some lbl \<Rightarrow>
               map_option (Superbox (take 16 d) (unat (d ! 16)) lbl)
                 (omap (\<lambda>b. if bx_type b = ''jumb'' then parse_superbox levels (slice buf (bx_start b) (bx_end b))
                        else Some (Content_box (bx_type b) (slice buf (bx_payload b) (bx_end b)))) contents))
       | _ \<Rightarrow> None)
   | _ \<Rightarrow> None)"

definition super_children :: "jumbf \<Rightarrow> jumbf list" where
  "super_children b = filter is_super (sb_children b)"

section \<open>JPEG\<close>

record jpeg_segment =
  js_marker :: byte
  js_start :: nat
  js_end :: nat

definition skipped_marker :: "byte \<Rightarrow> bool" where
  "skipped_marker m = (m = 0xff \<or> m = 0x01 \<or> 0xd0 \<le> unat m \<and> unat m \<le> 0xd7)"

function segments_from :: "bytes \<Rightarrow> nat \<Rightarrow> jpeg_segment list option" where
  "segments_from jpeg pos =
     (if pos + 4 > length jpeg then Some []
      else if jpeg ! pos \<noteq> 0xff then None
      else let marker = jpeg ! (pos + 1) in
      if skipped_marker marker then segments_from jpeg (pos + (if marker = 0xff then 1 else 2))
      else if marker = 0xda then Some []
      else let len = be_val (slice jpeg (pos + 2) (pos + 4)) in
      if len < 2 \<or> pos + 2 + len > length jpeg then None
      else map_option (Cons \<lparr>js_marker = marker, js_start = pos, js_end = pos + 2 + len\<rparr>) (segments_from jpeg (pos + 2 + len)))"
  by pat_completeness auto
termination by (relation "measure (\<lambda>(jpeg, pos). length jpeg - pos)") auto

declare segments_from.simps [simp del]

definition jpeg_segments :: "bytes \<Rightarrow> jpeg_segment list option" where
  "jpeg_segments jpeg = segments_from jpeg 2"

record jumbf_segment =
  seg_start :: nat
  seg_end :: nat
  seg_z :: "nat option"
  seg_packet :: bytes

record jumbf_group =
  grp_en :: "nat option"
  grp_type :: "bytes option"
  grp_segments :: "jumbf_segment list"

definition packet_type :: "bytes \<Rightarrow> bytes option" where
  "packet_type packet =
     (if length packet < 8 \<or> latin1 (slice packet 4 8) \<noteq> ''jumb'' then None
      else let header = (if be_val (take 4 packet) = 1 then 16 else 8) in
      if length packet < header + 24 \<or> latin1 (slice packet (header + 4) (header + 8)) \<noteq> ''jumd'' then None
      else Some (slice packet (header + 8) (header + 24)))"

text \<open>\<open>groups.find((g) => g.en === en)\<close> and the push onto the group found, or onto a new one.\<close>

fun add_to_groups :: "nat option \<Rightarrow> jumbf_segment \<Rightarrow> jumbf_group list \<Rightarrow> jumbf_group list" where
  "add_to_groups en s [] = [\<lparr>grp_en = en, grp_type = None, grp_segments = [s]\<rparr>]"
| "add_to_groups en s (g # gs) =
     (if en \<noteq> None \<and> grp_en g = en then g\<lparr>grp_segments := grp_segments g @ [s]\<rparr> # gs
      else g # add_to_groups en s gs)"

definition group_step :: "bytes \<Rightarrow> jumbf_group list \<Rightarrow> jpeg_segment \<Rightarrow> jumbf_group list" where
  "group_step jpeg gs s =
     (if js_marker s \<noteq> 0xeb then gs
      else let payload = slice jpeg (js_start s + 4) (js_end s) in
      if take 2 payload \<noteq> ascii ''JP'' then gs
      else let en = (if length payload \<ge> 8 then Some (be_val (slice payload 2 4)) else None);
               z = (if length payload \<ge> 8 then Some (be_val (slice payload 4 8)) else None)
        in add_to_groups en \<lparr>seg_start = js_start s, seg_end = js_end s, seg_z = z, seg_packet = drop 8 payload\<rparr> gs)"

definition type_group :: "jumbf_group \<Rightarrow> jumbf_group" where
  "type_group g = g\<lparr>grp_type := (case List.find (\<lambda>s. seg_z s = Some 1) (grp_segments g) of
     None \<Rightarrow> None | Some first \<Rightarrow> packet_type (seg_packet first))\<rparr>"

definition jumbf_groups :: "bytes \<Rightarrow> jpeg_segment list \<Rightarrow> jumbf_group list" where
  "jumbf_groups jpeg segments = map type_group (foldl (group_step jpeg) [] segments)"

text \<open>Packets 1, 2, 3 ... in file order, later ones without the header they repeat.\<close>

fun later_packets :: "nat \<Rightarrow> nat \<Rightarrow> jumbf_segment list \<Rightarrow> bytes option" where
  "later_packets header i [] = Some []"
| "later_packets header i (s # ss) =
     (if seg_z s \<noteq> Some (i + 1) \<or> length (seg_packet s) < header then None
      else map_option (append (drop header (seg_packet s))) (later_packets header (i + 1) ss))"

definition reassemble :: "jumbf_group \<Rightarrow> bytes option" where
  "reassemble g = (case grp_segments g of [] \<Rightarrow> None
     | first # rest \<Rightarrow>
         if length (seg_packet first) < 8 then None
         else let header = (if be_val (take 4 (seg_packet first)) = 1 then 16 else 8) in
         if seg_z first \<noteq> Some 1 then None
         else map_option (append (seg_packet first)) (later_packets header 1 rest))"

section \<open>Where the store is\<close>

definition is_jpeg :: "bytes \<Rightarrow> bool" where
  "is_jpeg whole = (length whole \<ge> 2 \<and> whole ! 0 = 0xff \<and> whole ! 1 = 0xd8)"

definition uuid_store :: "bytes \<Rightarrow> box \<Rightarrow> bytes option list" where
  "uuid_store whole b =
     (if bx_type b \<noteq> ''uuid'' \<or> bx_end b < bx_payload b + 20 then []
      else if slice whole (bx_payload b) (bx_payload b + 16) \<noteq> C2PA_BMFF_UUID then []
      else let body = slice whole (bx_payload b + 20) (bx_end b) in
      case index_of_zero body of None \<Rightarrow> []
      | Some nul \<Rightarrow>
          if latin1 (take nul body) \<in> {''manifest'', ''original'', ''update''}
          then let data = drop (nul + 1) body in [if length data < 8 then None else Some (drop 8 data)]
          else [])"

definition embedded_stores :: "bytes \<Rightarrow> bytes option list" where
  "embedded_stores whole =
     (if is_jpeg whole then
        (case jpeg_segments whole of None \<Rightarrow> []
         | Some segments \<Rightarrow> map reassemble (filter (\<lambda>g. grp_type g = Some TYPE_store) (jumbf_groups whole segments)))
      else if length whole \<ge> 8 \<and> latin1 (slice whole 4 8) = ''ftyp'' then
        (case boxes whole 0 (length whole) of None \<Rightarrow> [] | Some found \<Rightarrow> concat (map (uuid_store whole) found))
      else [])"

definition store_superbox :: "bytes \<Rightarrow> jumbf option" where
  "store_superbox bs =
     (if length bs < 8 then None
      else let lbox = be_val (take 4 bs);
               sz = (if lbox = 1 \<and> length bs \<ge> 16 then be_val (slice bs 8 16) else if lbox = 0 then length bs else lbox)
        in if sz > length bs then None
        else case parse_superbox (Suc JUMBF_MAX_DEPTH) (take sz bs) of None \<Rightarrow> None
        | Some store \<Rightarrow> if sb_type store = TYPE_store then Some store else None)"

lemmas type_defs = TYPE_store_def TYPE_manifest_def TYPE_updateManifest_def TYPE_legacyManifest_def
  TYPE_compressedManifest_def TYPE_assertionStore_def TYPE_claim_def TYPE_json_def

end
