(* ===== verification/Canonical.thy ===== *)
theory Canonical
  imports Jumbf
begin

text \<open>
  \<open>tools/src/canonical.ts\<close>: the canonical bytes a media hash covers. An ISO-BMFF file is taken as it
  is; a JPEG loses the APP11 segments of a C2PA Manifest Store and of JUMBF boxes whose type cannot be
  read. \<open>None\<close> is the error of a JPEG whose segments cannot be walked.
\<close>

datatype container_kind = Jpeg | Bmff | Unknown_container

definition detect_container :: "bytes \<Rightarrow> container_kind" where
  "detect_container bs =
     (if is_jpeg bs then Jpeg
      else if length bs \<ge> 8 \<and> ascii_text (slice bs 4 8) = ''ftyp'' then Bmff
      else Unknown_container)"

text \<open>The starts of the segments that go: every group whose type is unknown or the store's.\<close>

definition dropped_starts :: "jumbf_group list \<Rightarrow> nat list" where
  "dropped_starts groups =
     concat (map (\<lambda>g. map seg_start (grp_segments g)) (filter (\<lambda>g. grp_type g = None \<or> grp_type g = Some TYPE_store) groups))"

text \<open>The loop over the segments: what is kept from position \<open>p\<close> on.\<close>

fun keep_from :: "bytes \<Rightarrow> nat list \<Rightarrow> nat \<Rightarrow> jpeg_segment list \<Rightarrow> bytes" where
  "keep_from jpeg dropped p [] = drop p jpeg"
| "keep_from jpeg dropped p (s # ss) =
     (if js_start s \<notin> set dropped then keep_from jpeg dropped p ss
      else slice jpeg p (js_start s) @ keep_from jpeg dropped (js_end s) ss)"

definition strip_c2pa_from_jpeg :: "bytes \<Rightarrow> bytes option" where
  "strip_c2pa_from_jpeg jpeg = (case jpeg_segments jpeg of None \<Rightarrow> None
     | Some segments \<Rightarrow> Some (keep_from jpeg (dropped_starts (jumbf_groups jpeg segments)) 0 segments))"

definition canonical_bytes :: "bytes \<Rightarrow> bytes option" where
  "canonical_bytes media = (case detect_container media of Jpeg \<Rightarrow> strip_c2pa_from_jpeg media | _ \<Rightarrow> Some media)"

definition media_hash :: "platform \<Rightarrow> bytes \<Rightarrow> jsstr option" where
  "media_hash P media = map_option (\<lambda>b. b64url_encode (sha256 P b)) (canonical_bytes media)"

end
