(* ===== verification/Carrier.thy ===== *)
theory Carrier
  imports Cbor Canonical Trailer
begin

text \<open>
  \<open>tools/src/carrier.ts\<close>: the proof a C2PA Manifest Store carries, the precedence of trailer, manifest,
  sidecar and ancestor, and the sidecar beside an unusable footer. A manifest visited on the way up is its
  position in the store, where the code compares objects. Labels are strings, as in the code.
\<close>

definition PROOF_LABEL :: jsstr where "PROOF_LABEL = js ''io.github.vcap-org.vcap.proof''"
definition CARRIER_MAX_DEPTH :: nat where "CARRIER_MAX_DEPTH = 16"

definition MANIFEST_TYPES :: "bytes list" where
  "MANIFEST_TYPES = [TYPE_manifest, TYPE_updateManifest, TYPE_legacyManifest, TYPE_compressedManifest]"

section \<open>The two regular expressions\<close>

definition strip_prefix :: "jsstr \<Rightarrow> jsstr \<Rightarrow> jsstr option" where
  "strip_prefix p s = (if take (length p) s = p then Some (drop (length p) s) else None)"

definition ascii_digit :: "16 word \<Rightarrow> bool" where "ascii_digit u = (48 \<le> unat u \<and> unat u \<le> 57)"

text \<open>\<open>/^c2pa\.ingredient(\.v[23])?(__\d+)?$/\<close>.\<close>

definition is_ingredient :: "jsstr \<Rightarrow> bool" where
  "is_ingredient s = (case strip_prefix (js ''c2pa.ingredient'') s of None \<Rightarrow> False
     | Some r \<Rightarrow>
        let r' = (case strip_prefix (js ''.v2'') r of Some q \<Rightarrow> q
          | None \<Rightarrow> (case strip_prefix (js ''.v3'') r of Some q \<Rightarrow> q | None \<Rightarrow> r))
        in r' = [] \<or> (case strip_prefix (js ''__'') r' of None \<Rightarrow> False | Some ds \<Rightarrow> ds \<noteq> [] \<and> list_all ascii_digit ds))"

text \<open>\<open>/^self#jumbf=\/c2pa\/([^/]+)\/?$/\<close>, its group.\<close>

definition manifest_label_of :: "jsstr option \<Rightarrow> jsstr option" where
  "manifest_label_of uri = do {
     u \<leftarrow> uri;
     r \<leftarrow> strip_prefix (js ''self#jumbf=/c2pa/'') u;
     let name = takeWhile (\<lambda>c. c \<noteq> 47) r;
     let rest = dropWhile (\<lambda>c. c \<noteq> 47) r;
     if name \<noteq> [] \<and> (rest = [] \<or> rest = [47]) then Some name else None }"

section \<open>Reading a manifest\<close>

definition child_of_type :: "jumbf \<Rightarrow> bytes \<Rightarrow> jumbf option" where
  "child_of_type b ty = (case filter (\<lambda>c. sb_type c = ty) (super_children b) of [x] \<Rightarrow> Some x | _ \<Rightarrow> None)"

definition content_boxes :: "jumbf \<Rightarrow> jumbf list" where
  "content_boxes b = filter (\<lambda>c. \<not> is_super c) (sb_children b)"

definition cbor_of :: "jumbf \<Rightarrow> cbor option" where
  "cbor_of b = (case content_boxes b of [Content_box ty data] \<Rightarrow> if ty = ''cbor'' then decode_cbor data else None | _ \<Rightarrow> None)"

definition map_of_cbor :: "cbor option \<Rightarrow> (jsstr \<Rightarrow> cbor option) option" where
  "map_of_cbor v = (case v of Some (CMap ms) \<Rightarrow> Some (map_of ms) | _ \<Rightarrow> None)"

definition uri_of :: "cbor \<Rightarrow> jsstr option" where
  "uri_of v = (case v of CText s \<Rightarrow> Some s
     | CMap ms \<Rightarrow> (case map_of ms (js ''url'') of Some (CText s) \<Rightarrow> Some s | _ \<Rightarrow> None)
     | _ \<Rightarrow> None)"

definition array_of :: "cbor option \<Rightarrow> cbor list" where
  "array_of v = (case v of Some (CArray vs) \<Rightarrow> vs | _ \<Rightarrow> [])"

definition assertion_uri :: "jsstr \<Rightarrow> jsstr \<Rightarrow> jsstr" where
  "assertion_uri manifest assertion = js ''self#jumbf=/c2pa/'' @ manifest @ js ''/c2pa.assertions/'' @ assertion"

definition manifests_of :: "jumbf \<Rightarrow> jumbf list" where
  "manifests_of store = filter (\<lambda>m. sb_type m \<in> set MANIFEST_TYPES) (super_children store)"

definition by_label :: "jumbf list \<Rightarrow> jsstr \<Rightarrow> nat option" where
  "by_label manifests lbl = (case filter (\<lambda>i. sb_label (manifests ! i) = Some lbl) [0..<length manifests] of
     [i] \<Rightarrow> Some i | _ \<Rightarrow> None)"

definition readable :: "jumbf \<Rightarrow> bool" where
  "readable m = (sb_type m \<noteq> TYPE_compressedManifest \<and> sb_label m \<noteq> None)"

definition claim_of :: "jumbf \<Rightarrow> (jsstr \<Rightarrow> cbor option) option" where
  "claim_of m = (case (if readable m then child_of_type m TYPE_claim else None) of None \<Rightarrow> None
     | Some claim \<Rightarrow> map_of_cbor (cbor_of claim))"

definition redacted_in :: "jumbf list \<Rightarrow> jsstr list" where
  "redacted_in manifests = concat (map (\<lambda>m. case claim_of m of None \<Rightarrow> []
     | Some claim \<Rightarrow> List.map_filter uri_of (array_of (claim (js ''redacted_assertions'')))) manifests)"

definition listed_name :: "jsstr list \<Rightarrow> jsstr \<Rightarrow> cbor \<Rightarrow> jsstr option" where
  "listed_name redacted lbl entry = do {
     uri \<leftarrow> uri_of entry;
     name \<leftarrow> (case strip_prefix (js ''self#jumbf=c2pa.assertions/'') uri of Some n \<Rightarrow> Some n
              | None \<Rightarrow> strip_prefix (js ''self#jumbf=/c2pa/'' @ lbl @ js ''/c2pa.assertions/'') uri);
     if 47 \<notin> set name \<and> assertion_uri lbl name \<notin> set redacted then Some name else None }"

definition listed :: "jsstr list \<Rightarrow> jumbf \<Rightarrow> jsstr list" where
  "listed redacted m = (case claim_of m of None \<Rightarrow> []
     | Some claim \<Rightarrow> concat (map (\<lambda>k. List.map_filter (listed_name redacted (the (sb_label m))) (array_of (claim (js k))))
         [''created_assertions'', ''gathered_assertions'', ''assertions'']))"

definition assertions_in :: "jsstr list \<Rightarrow> jumbf \<Rightarrow> jumbf list" where
  "assertions_in redacted m = (case (if readable m then child_of_type m TYPE_assertionStore else None) of None \<Rightarrow> []
     | Some store \<Rightarrow> filter (\<lambda>a. case sb_label a of None \<Rightarrow> False | Some l \<Rightarrow> l \<in> set (listed redacted m)) (super_children store))"

definition proof_in :: "jsstr list \<Rightarrow> jumbf \<Rightarrow> bytes option" where
  "proof_in redacted m = (case filter (\<lambda>a. sb_label a = Some PROOF_LABEL) (assertions_in redacted m) of
     [b] \<Rightarrow>
       if sb_type b \<noteq> TYPE_json \<or> sb_toggles b \<noteq> 0x03 \<and> sb_toggles b \<noteq> 0x13 then None
       else (case content_boxes b of [Content_box ty data] \<Rightarrow> if ty = ''json'' then Some data else None | _ \<Rightarrow> None)
   | _ \<Rightarrow> None)"

text \<open>\<open>body.activeManifest ?? body.c2pa_manifest\<close>: null and undefined fall through.\<close>

definition parent_uri :: "(jsstr \<Rightarrow> cbor option) \<Rightarrow> jsstr option" where
  "parent_uri body = Option.bind (case body (js ''activeManifest'') of
       None \<Rightarrow> body (js ''c2pa_manifest'') | Some CNull \<Rightarrow> body (js ''c2pa_manifest'')
     | Some CUndefined \<Rightarrow> body (js ''c2pa_manifest'') | Some v \<Rightarrow> Some v) uri_of"

definition parent_of :: "jumbf list \<Rightarrow> jsstr list \<Rightarrow> jumbf \<Rightarrow> nat option" where
  "parent_of manifests redacted m =
     (case filter (\<lambda>body. body (js ''relationship'') = Some (CText (js ''parentOf'')))
        (List.map_filter (\<lambda>a. map_of_cbor (cbor_of a)) (filter (\<lambda>a. is_ingredient (the (sb_label a))) (assertions_in redacted m))) of
       [body] \<Rightarrow> (case manifest_label_of (parent_uri body) of None \<Rightarrow> None | Some l \<Rightarrow> by_label manifests l)
     | _ \<Rightarrow> None)"

section \<open>walk\<close>

record carried_proof =
  cp_bytes :: bytes
  cp_manifest :: "jsstr option"
  cp_depth :: nat

datatype store_kind = Embedded | External | No_store
datatype carrier_reason = More_than_one_store | No_store_found | Store_unreadable | No_manifest

record carrier =
  ca_store :: store_kind
  ca_reason :: "carrier_reason option"
  ca_active :: "carried_proof option"
  ca_ancestor :: "carried_proof option"

definition no_carrier :: "carrier_reason \<Rightarrow> carrier" where
  "no_carrier r = \<lparr>ca_store = No_store, ca_reason = Some r, ca_active = None, ca_ancestor = None\<rparr>"

text \<open>The \<open>for\<close> loop from \<open>depth\<close> to \<open>MAX_DEPTH\<close>, \<open>left\<close> rounds to go.\<close>

fun climb :: "jumbf list \<Rightarrow> jsstr list \<Rightarrow> nat \<Rightarrow> nat \<Rightarrow> nat list \<Rightarrow> nat option \<Rightarrow> carried_proof option" where
  "climb manifests redacted 0 dep visited current = None"
| "climb manifests redacted (Suc left) dep visited current = (case current of None \<Rightarrow> None
     | Some i \<Rightarrow>
         if i \<in> set visited then None
         else (case proof_in redacted (manifests ! i) of
             Some bs \<Rightarrow> Some \<lparr>cp_bytes = bs, cp_manifest = sb_label (manifests ! i), cp_depth = dep\<rparr>
           | None \<Rightarrow> climb manifests redacted left (dep + 1) (i # visited) (parent_of manifests redacted (manifests ! i))))"

definition walk :: "store_kind \<Rightarrow> jumbf \<Rightarrow> carrier" where
  "walk kind store = (let manifests = manifests_of store; redacted = redacted_in manifests in
     if manifests = [] then \<lparr>ca_store = kind, ca_reason = Some No_manifest, ca_active = None, ca_ancestor = None\<rparr>
     else let a = length manifests - 1; active = manifests ! a in
       \<lparr>ca_store = kind, ca_reason = None,
        ca_active = map_option (\<lambda>bs. \<lparr>cp_bytes = bs, cp_manifest = sb_label active, cp_depth = 0\<rparr>) (proof_in redacted active),
        ca_ancestor = climb manifests redacted CARRIER_MAX_DEPTH 1 [a] (parent_of manifests redacted active)\<rparr>)"

definition carrier_of :: "bytes \<Rightarrow> bytes option \<Rightarrow> carrier" where
  "carrier_of media external_store = (case embedded_stores media of
       [] \<Rightarrow> (case external_store of None \<Rightarrow> no_carrier No_store_found
         | Some bs \<Rightarrow> (case store_superbox bs of None \<Rightarrow> no_carrier Store_unreadable | Some s \<Rightarrow> walk External s))
     | [None] \<Rightarrow> no_carrier Store_unreadable
     | [Some bs] \<Rightarrow> (case store_superbox bs of None \<Rightarrow> no_carrier Store_unreadable | Some s \<Rightarrow> walk Embedded s)
     | _ \<Rightarrow> no_carrier More_than_one_store)"

definition same_proof :: "bytes \<Rightarrow> bytes \<Rightarrow> bool" where
  "same_proof a b = (case (parse_proof_json a, parse_proof_json b) of (Inr x, Inr y) \<Rightarrow> jcs x = jcs y | _ \<Rightarrow> False)"

section \<open>Precedence\<close>

datatype proof_source = From_trailer | From_sidecar | From_c2pa "jsstr option" nat

record extracted =
  ex_payload :: bytes
  ex_media :: bytes
  ex_flags :: "nat option"
  ex_source :: proof_source
  ex_labels :: "string list"
  ex_alternate :: "(bytes \<times> string list) option"

datatype extraction = No_proof carrier_reason | No_proof_in_credentials | Corrupted | Unsupported nat | Nested
  | Proof_found extracted

definition manifest_label :: "carried_proof option \<Rightarrow> bytes \<Rightarrow> string list" where
  "manifest_label copy proof = (case copy of None \<Rightarrow> []
     | Some c \<Rightarrow> if same_proof (cp_bytes c) proof then [] else [''manifest copy differs''])"

definition extract_proof :: "bytes \<Rightarrow> bytes option \<Rightarrow> bytes option \<Rightarrow> extraction" where
  "extract_proof whole sidecar external_store = (case parse_trailer whole of
     Corrupted_trailer \<Rightarrow> Corrupted
   | Unsupported_trailer major \<Rightarrow> Unsupported major
   | Trailer payload flags minor media_end \<Rightarrow>
       (let media = take media_end whole in
        if parse_trailer media \<noteq> No_trailer then Nested
        else let copy = ca_active (carrier_of media external_store);
                 differs = (case sidecar of None \<Rightarrow> False | Some s \<Rightarrow> s \<noteq> payload)
          in Proof_found \<lparr>ex_payload = payload, ex_media = media, ex_flags = Some flags, ex_source = From_trailer,
               ex_labels = (if differs then [''sidecar differs''] else []) @ manifest_label copy payload,
               ex_alternate = (if differs then map_option (\<lambda>s. (s, ''trailer copy differs'' # manifest_label copy s)) sidecar else None)\<rparr>)
   | No_trailer \<Rightarrow>
       (let carrier = carrier_of whole external_store in
        case ca_active carrier of
          Some active \<Rightarrow>
            (let differs = (case sidecar of None \<Rightarrow> False | Some s \<Rightarrow> \<not> same_proof s (cp_bytes active))
             in Proof_found \<lparr>ex_payload = cp_bytes active, ex_media = whole, ex_flags = None,
                  ex_source = From_c2pa (cp_manifest active) 0,
                  ex_labels = (if differs then [''sidecar differs''] else []),
                  ex_alternate = (if differs then map_option (\<lambda>s. (s, [''manifest copy differs''])) sidecar else None)\<rparr>)
        | None \<Rightarrow> (case sidecar of
            Some s \<Rightarrow> Proof_found \<lparr>ex_payload = s, ex_media = whole, ex_flags = None, ex_source = From_sidecar,
                 ex_labels = [], ex_alternate = None\<rparr>
          | None \<Rightarrow> (case ca_ancestor carrier of
              Some a \<Rightarrow> Proof_found \<lparr>ex_payload = cp_bytes a, ex_media = whole, ex_flags = None,
                 ex_source = From_c2pa (cp_manifest a) (cp_depth a), ex_labels = [], ex_alternate = None\<rparr>
            | None \<Rightarrow> (case ca_reason carrier of Some r \<Rightarrow> No_proof r | None \<Rightarrow> No_proof_in_credentials)))))"

record alternate =
  alt_payload :: bytes
  alt_media :: bytes
  alt_labels :: "string list"

definition unreadable_alternate :: "bytes \<Rightarrow> bytes option \<Rightarrow> bytes option \<Rightarrow> alternate option" where
  "unreadable_alternate whole sidecar external_store = (case sidecar of None \<Rightarrow> None
     | Some s \<Rightarrow> (case unreadable_trailer_start whole of None \<Rightarrow> None
       | Some start \<Rightarrow>
           (let media = take start whole; copy = ca_active (carrier_of media external_store)
            in Some \<lparr>alt_payload = s, alt_media = media, alt_labels = ''trailer unreadable'' # manifest_label copy s\<rparr>)))"

definition jpeg_carries_store :: "bytes \<Rightarrow> bool" where
  "jpeg_carries_store whole = (is_jpeg whole \<and> embedded_stores whole \<noteq> [])"

end
