(* ===== verification/Nals.thy ===== *)
theory Nals
  imports Boxes
begin

text \<open>
  The NAL units of \<open>tools/src/container.ts\<close>: splitting a sample (\<open>nalsOf\<close>), undoing emulation
  prevention (\<open>rbsp\<close>), the vcap SEI (\<open>vcapSei\<close>) and the IDR test. The walks over a position are written
  over the rest of the bytes.
\<close>

definition SEI_UUID :: bytes where
  "SEI_UUID = [0xca, 0xa6, 0x53, 0xd1, 0xed, 0x17, 0x63, 0xc7, 0xaf, 0x38, 0x8a, 0xea, 0x76, 0x52, 0x73, 0x36]"

text \<open>\<open>ContainerMalformed\<close> is \<open>None\<close>.\<close>

function nals_of :: "nat \<Rightarrow> bytes \<Rightarrow> bytes list option" where
  "nals_of length_size bs =
     (if bs = [] then Some []
      else if length bs < length_size then None
      else let sz = be_val (take length_size bs); r = drop length_size bs in
      if sz = 0 then None
      else if length r < sz then None
      else map_option (Cons (take sz r)) (nals_of length_size (drop sz r)))"
  by pat_completeness auto
termination by (relation "measure (\<lambda>(length_size, bs). length bs)") auto

declare nals_of.simps [simp del]

fun rbsp_from :: "nat \<Rightarrow> bytes \<Rightarrow> bytes" where
  "rbsp_from zeros [] = []"
| "rbsp_from zeros (b # bs) =
     (if zeros \<ge> 2 \<and> b = 3 then rbsp_from 0 bs
      else b # rbsp_from (if b = 0 then zeros + 1 else 0) bs)"

definition rbsp :: "bytes \<Rightarrow> bytes" where "rbsp nal = rbsp_from 0 nal"

definition nal_type :: "bool \<Rightarrow> bytes \<Rightarrow> nat" where
  "nal_type hevc nal = (let header = (if nal = [] then 0 else unat (hd nal)) in
     if hevc then header div 2 mod 64 else header mod 32)"

definition is_idr :: "bool \<Rightarrow> bytes \<Rightarrow> bool" where
  "is_idr hevc nal = (if hevc then nal_type hevc nal = 19 \<or> nal_type hevc nal = 20 else nal_type hevc nal = 5)"

datatype sei_problem = Sei_payload_size nat | Sei_messages nat | Sei_trailing_bytes

datatype sei = Not_vcap | Bad_sei sei_problem | Vcap_sei bytes nat

definition trailing_bits :: "bytes \<Rightarrow> bool" where
  "trailing_bits bs = (case bs of [] \<Rightarrow> False | b # r \<Rightarrow> b = 0x80 \<and> list_all (\<lambda>x. x = 0) r)"

text \<open>A value coded as 0xff bytes and a last byte; \<open>None\<close> when the bytes end first.\<close>

fun ff_value :: "bytes \<Rightarrow> (nat \<times> bytes) option" where
  "ff_value [] = None"
| "ff_value (b # r) = (if b = 0xff then map_option (\<lambda>(n, q). (255 + n, q)) (ff_value r) else Some (unat b, r))"

lemma ff_value_shorter: "ff_value bs = Some (n, r) \<Longrightarrow> length r < length bs"
  by (induction bs arbitrary: n r) (fastforce split: if_splits)+

definition sei_payload :: "nat \<Rightarrow> nat \<Rightarrow> bytes \<Rightarrow> sei option" where
  "sei_payload payload_type sz body =
     (if payload_type = 5 \<and> sz \<ge> 16 \<and> take 16 body = SEI_UUID
      then Some (if sz = 36 then Vcap_sei (slice body 16 32) (be_val (slice body 32 36)) else Bad_sei (Sei_payload_size sz))
      else None)"

text \<open>The loop over the messages: how many, the last vcap payload found, and the bytes left.\<close>

function sei_loop :: "bytes \<Rightarrow> nat \<Rightarrow> sei option \<Rightarrow> nat \<times> sei option \<times> bytes" where
  "sei_loop bs messages found =
     (if bs = [] \<or> trailing_bits bs then (messages, found, bs)
      else case ff_value bs of None \<Rightarrow> (messages, found, [])
      | Some (payload_type, r) \<Rightarrow> (case ff_value r of None \<Rightarrow> (messages, found, [])
        | Some (sz, q) \<Rightarrow>
            if length q < sz then (messages, found, q)
            else sei_loop (drop sz q) (messages + 1)
                   (case sei_payload payload_type sz q of Some s \<Rightarrow> Some s | None \<Rightarrow> found)))"
  by pat_completeness auto
termination
  by (relation "measure (\<lambda>(bs, messages, found). length bs)") (auto dest!: ff_value_shorter)

declare sei_loop.simps [simp del]

definition vcap_sei :: "bool \<Rightarrow> bytes \<Rightarrow> sei" where
  "vcap_sei hevc nal = (let ty = nal_type hevc nal in
     if \<not> (if hevc then ty = 39 \<or> ty = 40 else ty = 6) then Not_vcap
     else case sei_loop (rbsp (drop (if hevc then 2 else 1) nal)) 0 None of (messages, found, rest) \<Rightarrow>
       (case found of None \<Rightarrow> Not_vcap
        | Some f \<Rightarrow>
            if messages \<noteq> 1 then Bad_sei (Sei_messages messages)
            else if \<not> trailing_bits rest then Bad_sei Sei_trailing_bytes
            else f))"

section \<open>The units tile the sample\<close>

lemma nals_of_concat:
  "nals_of n bs = Some us \<Longrightarrow> bs = concat (map (\<lambda>u. be_bytes n (length u) @ u) us) \<and> (\<forall>u \<in> set us. u \<noteq> [] \<and> length u < 256 ^ n)"
proof (induction n bs arbitrary: us rule: nals_of.induct)
  case (1 n bs)
  show ?case
  proof (cases "bs = []")
    case False
    define sz where "sz = be_val (take n bs)"
    have h: "\<not> length bs < n" "sz \<noteq> 0" "\<not> length (drop n bs) < sz"
      using "1.prems" False by (auto simp: nals_of.simps [of n bs] sz_def Let_def split: if_splits)
    then obtain rest where r: "nals_of n (drop sz (drop n bs)) = Some rest" "us = take sz (drop n bs) # rest"
      using "1.prems" False by (auto simp: nals_of.simps [of n bs] sz_def [symmetric] Let_def)
    note ih = "1.IH" [OF False h(1) sz_def refl h(2) h(3) r(1)]
    have l: "length (take n bs) = n" using h(1) by simp
    have "take n bs = be_bytes n sz" using be_bytes_be_val [of "take n bs"] l by (simp add: sz_def)
    moreover have "length (take sz (drop n bs)) = sz" using h(3) by simp
    moreover have "sz < 256 ^ n" using be_val_less [of "take n bs"] l by (simp add: sz_def)
    moreover have "bs = take n bs @ take sz (drop n bs) @ drop sz (drop n bs)" by (simp only: append_take_drop_id)
    ultimately show ?thesis using ih h(2) r(2) by auto
  qed (use "1.prems" in \<open>simp add: nals_of.simps [of n "[]"]\<close>)
qed

text \<open>Splitting a sample accounts for every byte of it: what is returned is a list of non-empty units whose
  length-prefixed concatenation is the sample itself, so no byte of a verified GOP escapes both the hash and the
  exclusion of a vcap SEI.\<close>

theorem nals_tile_sample:
  assumes "nals_of n bs = Some us"
  shows "bs = concat (map (\<lambda>u. be_bytes n (length u) @ u) us) \<and> (\<forall>u \<in> set us. u \<noteq> [] \<and> length u < 256 ^ n)"
  using assms by (rule nals_of_concat)

theorem nals_tile_sample_witness:
  "\<exists>us. nals_of 2 [0, 1, 0x65, 0, 2, 6, 5] = Some us \<and> [0, 1, 0x65, 0, 2, 6, 5] = concat (map (\<lambda>u. be_bytes 2 (length u) @ u) us)"
proof -
  have "nals_of 2 [0, 1, 0x65, 0, 2, 6, 5] = Some [[0x65], [6, 5]]" by code_simp
  then show ?thesis using nals_tile_sample by blast
qed

section \<open>The vcap SEI a writer emits\<close>

text \<open>One \<open>user_data_unregistered\<close> message of 36 bytes, whole, and the trailing bits.\<close>

definition vcap_sei_body :: "bytes \<Rightarrow> nat \<Rightarrow> nat \<Rightarrow> bytes" where
  "vcap_sei_body capture_id index zeros = [5, 36] @ SEI_UUID @ capture_id @ be_bytes 4 index @ 0x80 # replicate zeros 0"

text \<open>Emulation prevention as an encoder applies it (H.264 7.3.1), for the reader's inverse.\<close>

fun emulate :: "nat \<Rightarrow> bytes \<Rightarrow> bytes" where
  "emulate zeros [] = []"
| "emulate zeros (b # bs) =
     (if zeros \<ge> 2 \<and> unat b \<le> 3 then 3 # b # emulate (if b = 0 then 1 else 0) bs
      else b # emulate (if b = 0 then zeros + 1 else 0) bs)"

lemma rbsp_emulate: "rbsp_from z (emulate z bs) = bs"
proof (induction z bs rule: emulate.induct)
  case (2 z b bs)
  show ?case
  proof (cases "z \<ge> 2 \<and> unat b \<le> 3")
    case True
    then show ?thesis using 2 by (cases "b = 0") auto
  next
    case False
    then have "\<not> (z \<ge> 2 \<and> b = 3)" by auto
    then show ?thesis using 2 False by (cases "b = 0") auto
  qed
qed simp

interpretation rbsp: codec "emulate 0" "\<lambda>bs. Some (rbsp bs)" "\<lambda>_. True"
  by unfold_locales (simp add: rbsp_def rbsp_emulate)

lemma length_SEI_UUID [simp]: "length SEI_UUID = 16"
  by (simp add: SEI_UUID_def)

lemma trailing_bits_zeros [simp]: "trailing_bits (0x80 # replicate n 0)"
  by (simp add: trailing_bits_def list_all_iff)

lemma sei_loop_body:
  assumes "length cid = 16" "index < 256 ^ 4"
  shows "sei_loop (vcap_sei_body cid index zeros) 0 None = (1, Some (Vcap_sei cid index), 0x80 # replicate zeros 0)"
proof -
  define q where "q = SEI_UUID @ cid @ be_bytes 4 index @ 0x80 # replicate zeros 0"
  have b: "vcap_sei_body cid index zeros = 5 # 36 # q" by (simp add: vcap_sei_body_def q_def)
  have p: "sei_payload 5 36 q = Some (Vcap_sei cid index)"
    using assms by (simp add: sei_payload_def q_def slice_def)
  have d: "drop 36 q = 0x80 # replicate zeros 0" "\<not> length q < 36" using assms(1) by (simp_all add: q_def)
  have t: "\<not> trailing_bits (5 # 36 # q)" by (simp add: trailing_bits_def)
  have f: "ff_value (5 # 36 # q) = Some (5, 36 # q)" "ff_value (36 # q) = Some (36, q)" by simp_all
  show ?thesis unfolding b sei_loop.simps [of "5 # 36 # q"] f
    using t d p by (simp add: sei_loop.simps)
qed

text \<open>C30. The SEI a writer puts in a GOP is the one the reader finds: a SEI unit whose payload is the vcap message, with
  any number of trailing zero bytes and with emulation prevention applied, names its capture and its segment, in
  H.264 and in H.265.\<close>

theorem vcap_sei_roundtrip:
  assumes "length cid = 16" "index < 256 ^ 4"
  shows "vcap_sei False (0x06 # emulate 0 (vcap_sei_body cid index zeros)) = Vcap_sei cid index
    \<and> vcap_sei True ([0x4e, 0x01] @ emulate 0 (vcap_sei_body cid index zeros)) = Vcap_sei cid index"
  by (simp add: vcap_sei_def nal_type_def rbsp_def rbsp_emulate sei_loop_body [OF assms] Let_def)

theorem vcap_sei_roundtrip_witness:
  "vcap_sei False (0x06 # emulate 0 (vcap_sei_body (replicate 16 0) 7 2)) = Vcap_sei (replicate 16 0) 7"
  using vcap_sei_roundtrip [of "replicate 16 0" 7 2] by simp

end
