(* ===== verification/Samples.thy ===== *)
theory Samples
  imports Boxes
begin

text \<open>
  The track tables of \<open>tools/src/container.ts\<close>: edit lists, codec configuration and the sample tables.
  Every throw on this path (a read past the file, a missing table, a chunk table that does not place every
  sample) reaches \<open>readContainer\<close> as a malformed container, so it is \<open>None\<close>. DTS, durations and
  composition offsets are bigints.
\<close>

record sample =
  sm_offset :: nat
  sm_size :: nat
  sm_dts :: int
  sm_duration :: int
  sm_cts :: int

datatype track_kind = Video_track | Audio_track | Other_track

record codec_info =
  cd_kind :: track_kind
  cd_length_size :: nat
  cd_hevc :: bool

datatype edit_problem = Edit_changes_rate | Edit_more_than_one

record edits =
  ed_delay_num :: int
  ed_delay_den :: int
  ed_media_start :: int
  ed_media_edit :: "(int \<times> int) option"
  ed_unsupported :: "edit_problem option"

record track =
  tk_codec :: codec_info
  tk_timescale :: int
  tk_movie_timescale :: int
  tk_edits :: edits
  tk_samples :: "sample list"

text \<open>\<open>file[i]\<close> compared with 1, and the signed reads.\<close>

definition is_one :: "bytes \<Rightarrow> nat \<Rightarrow> bool" where "is_one whole i = (at whole i = Some 1)"

definition u32_int :: "bytes \<Rightarrow> nat \<Rightarrow> int option" where "u32_int whole p = map_option int (u32 whole p)"

section \<open>Edit lists\<close>

definition no_edits :: edits where
  "no_edits = \<lparr>ed_delay_num = 0, ed_delay_den = 1, ed_media_start = 0, ed_media_edit = None, ed_unsupported = None\<rparr>"

text \<open>The loop over the entries from the \<open>i\<close>-th on, \<open>left\<close> of them.\<close>

fun edit_loop :: "bytes \<Rightarrow> nat \<Rightarrow> bool \<Rightarrow> int \<Rightarrow> nat \<Rightarrow> nat \<Rightarrow> int \<Rightarrow> edits option" where
  "edit_loop whole payload v1 movie_ts i 0 ticks =
     Some \<lparr>ed_delay_num = ticks, ed_delay_den = movie_ts, ed_media_start = 0, ed_media_edit = None, ed_unsupported = None\<rparr>"
| "edit_loop whole payload v1 movie_ts i (Suc left) ticks = (let entry_size = (if v1 then 20 else 12); p = payload + 8 + i * entry_size in do {
     duration \<leftarrow> (if v1 then map_option int (read_be 8 whole p) else u32_int whole p);
     media_time \<leftarrow> (if v1 then read_sbe 8 whole (p + 8) else read_sbe 4 whole (p + 4));
     if media_time < 0 then edit_loop whole payload v1 movie_ts (i + 1) left (ticks + duration)
     else do {
       rate \<leftarrow> read_sbe 2 whole (p + entry_size - 4);
       Some \<lparr>ed_delay_num = ticks, ed_delay_den = movie_ts, ed_media_start = media_time,
             ed_media_edit = Some (media_time, duration),
             ed_unsupported = (if rate \<noteq> 1 then Some Edit_changes_rate else if left > 0 then Some Edit_more_than_one else None)\<rparr> } })"

definition edits_of :: "bytes \<Rightarrow> box \<Rightarrow> int \<Rightarrow> edits option" where
  "edits_of whole trak movie_ts = do {
     ks \<leftarrow> children whole trak;
     case find_box ks ''edts'' of None \<Rightarrow> Some no_edits
     | Some edts \<Rightarrow> do {
         es \<leftarrow> children whole edts;
         case find_box es ''elst'' of None \<Rightarrow> Some no_edits
         | Some elst \<Rightarrow> do {
             count \<leftarrow> u32 whole (bx_payload elst + 4);
             edit_loop whole (bx_payload elst) (is_one whole (bx_payload elst)) movie_ts 0 count 0 } } }"

section \<open>Codecs\<close>

definition other_codec :: codec_info where
  "other_codec = \<lparr>cd_kind = Other_track, cd_length_size = 0, cd_hevc = False\<rparr>"

text \<open>The configuration of one visual entry: \<open>Some None\<close> is the \<open>continue\<close> of the loop.\<close>

definition visual_codec :: "bytes \<Rightarrow> box \<Rightarrow> string \<Rightarrow> nat \<Rightarrow> bool \<Rightarrow> codec_info option option" where
  "visual_codec whole entry config off hevc = do {
     ext \<leftarrow> boxes whole (bx_payload entry + 78) (bx_end entry);
     case find_box ext config of None \<Rightarrow> Some None
     | Some c \<Rightarrow> (case at whole (bx_payload c + off) of None \<Rightarrow> Some None
         | Some width \<Rightarrow> Some (Some \<lparr>cd_kind = Video_track, cd_length_size = unat width mod 4 + 1, cd_hevc = hevc\<rparr>)) }"

fun codec_loop :: "bytes \<Rightarrow> box list \<Rightarrow> codec_info option" where
  "codec_loop whole [] = Some other_codec"
| "codec_loop whole (entry # rest) =
     (if bx_type entry = ''avc1'' \<or> bx_type entry = ''avc3'' then
        (case visual_codec whole entry ''avcC'' 4 False of None \<Rightarrow> None
         | Some None \<Rightarrow> codec_loop whole rest | Some (Some c) \<Rightarrow> Some c)
      else if bx_type entry = ''hvc1'' \<or> bx_type entry = ''hev1'' then
        (case visual_codec whole entry ''hvcC'' 21 True of None \<Rightarrow> None
         | Some None \<Rightarrow> codec_loop whole rest | Some (Some c) \<Rightarrow> Some c)
      else if bx_type entry = ''mp4a'' \<or> bx_type entry = ''ac-3'' \<or> bx_type entry = ''Opus'' then
        Some \<lparr>cd_kind = Audio_track, cd_length_size = 0, cd_hevc = False\<rparr>
      else codec_loop whole rest)"

definition codec_of :: "bytes \<Rightarrow> box \<Rightarrow> codec_info option" where
  "codec_of whole stsd = do { entries \<leftarrow> boxes whole (bx_payload stsd + 8) (bx_end stsd); codec_loop whole entries }"

section \<open>Sample tables\<close>

record sample_tables =
  tb_count :: nat
  tb_sizes :: "nat list"
  tb_chunks :: "nat list"
  tb_runs :: "(nat \<times> nat) list"
  tb_deltas :: "nat list"
  tb_offsets :: "int list"

definition read_entries :: "nat \<Rightarrow> (nat \<Rightarrow> 'a option) \<Rightarrow> 'a list option" where
  "read_entries n f = omap f [0..<n]"

definition read_sizes :: "bytes \<Rightarrow> nat \<Rightarrow> (nat \<times> nat list) option" where
  "read_sizes whole stsz = do {
     count \<leftarrow> u32 whole (stsz + 8);
     uniform \<leftarrow> u32 whole (stsz + 4);
     sizes \<leftarrow> read_entries count (\<lambda>i. if uniform \<noteq> 0 then Some uniform else u32 whole (stsz + 12 + i * 4));
     Some (count, sizes) }"

definition read_chunks :: "bytes \<Rightarrow> box option \<Rightarrow> box option \<Rightarrow> nat list option" where
  "read_chunks whole stco co64 = (case co64 of
       Some b \<Rightarrow> do { count \<leftarrow> u32 whole (bx_payload b + 4); read_entries count (\<lambda>i. read_be 8 whole (bx_payload b + 8 + i * 8)) }
     | None \<Rightarrow> (case stco of None \<Rightarrow> None
         | Some b \<Rightarrow> do { count \<leftarrow> u32 whole (bx_payload b + 4); read_entries count (\<lambda>i. u32 whole (bx_payload b + 8 + i * 4)) }))"

definition read_runs :: "bytes \<Rightarrow> nat \<Rightarrow> (nat \<times> nat) list option" where
  "read_runs whole stsc = do {
     count \<leftarrow> u32 whole (stsc + 4);
     read_entries count (\<lambda>i. let p = stsc + 8 + i * 12 in do { a \<leftarrow> u32 whole p; b \<leftarrow> u32 whole (p + 4); Some (a, b) }) }"

definition read_deltas :: "bytes \<Rightarrow> nat \<Rightarrow> nat list option" where
  "read_deltas whole stts = do {
     runs \<leftarrow> u32 whole (stts + 4);
     ds \<leftarrow> read_entries runs (\<lambda>i. let p = stts + 8 + i * 8 in do { count \<leftarrow> u32 whole p; delta \<leftarrow> u32 whole (p + 4); Some (replicate count delta) });
     Some (concat ds) }"

definition read_offsets :: "bytes \<Rightarrow> box option \<Rightarrow> int list option" where
  "read_offsets whole ctts = (case ctts of None \<Rightarrow> Some []
     | Some b \<Rightarrow> (let signed_table = is_one whole (bx_payload b) in do {
         runs \<leftarrow> u32 whole (bx_payload b + 4);
         os \<leftarrow> read_entries runs (\<lambda>i. let p = bx_payload b + 8 + i * 8 in do {
            count \<leftarrow> u32 whole p;
            off \<leftarrow> (if signed_table then read_sbe 4 whole (p + 4) else u32_int whole (p + 4));
            Some (replicate count off) });
         Some (concat os) }))"

definition per_chunk :: "(nat \<times> nat) list \<Rightarrow> nat \<Rightarrow> nat" where
  "per_chunk runs chunk = (case List.find (\<lambda>r. fst r \<le> chunk + 1) (rev runs) of Some r \<Rightarrow> snd r | None \<Rightarrow> 0)"

definition delta_of :: "sample_tables \<Rightarrow> nat \<Rightarrow> int" where
  "delta_of t n = int (case at (tb_deltas t) n of Some d \<Rightarrow> d | None \<Rightarrow> if tb_deltas t = [] then 0 else last (tb_deltas t))"

text \<open>The inner loop: up to \<open>k\<close> samples of one chunk from \<open>offset\<close>; the state is the samples placed and the next DTS.\<close>

fun place_samples :: "sample_tables \<Rightarrow> nat \<Rightarrow> nat \<Rightarrow> sample list \<times> int \<Rightarrow> sample list \<times> int" where
  "place_samples t 0 offset st = st"
| "place_samples t (Suc k) offset (ss, dts) =
     (if tb_count t \<le> length ss then (ss, dts)
      else let n = length ss;
               sz = (case at (tb_sizes t) n of Some s \<Rightarrow> s | None \<Rightarrow> 0);
               duration = delta_of t n;
               cts = (case at (tb_offsets t) n of Some o' \<Rightarrow> o' | None \<Rightarrow> 0)
        in place_samples t k (offset + sz)
             (ss @ [\<lparr>sm_offset = offset, sm_size = sz, sm_dts = dts, sm_duration = duration, sm_cts = cts\<rparr>], dts + duration))"

fun place_chunks :: "sample_tables \<Rightarrow> nat \<Rightarrow> nat list \<Rightarrow> sample list \<times> int \<Rightarrow> sample list \<times> int" where
  "place_chunks t chunk [] st = st"
| "place_chunks t chunk (offset # rest) st =
     (if tb_count t \<le> length (fst st) then st
      else place_chunks t (chunk + 1) rest (place_samples t (per_chunk (tb_runs t) chunk) offset st))"

definition place_all :: "sample_tables \<Rightarrow> sample list option" where
  "place_all t = (let ss = fst (place_chunks t 0 (tb_chunks t) ([], 0)) in if length ss \<noteq> tb_count t then None else Some ss)"

definition samples_of :: "bytes \<Rightarrow> box \<Rightarrow> sample list option" where
  "samples_of whole stbl = do {
     kids \<leftarrow> children whole stbl;
     stsz \<leftarrow> find_box kids ''stsz'';
     stsc \<leftarrow> find_box kids ''stsc'';
     let stco = find_box kids ''stco'';
     let co64 = find_box kids ''co64'';
     stts \<leftarrow> find_box kids ''stts'';
     let ctts = find_box kids ''ctts'';
     (count, sizes) \<leftarrow> read_sizes whole (bx_payload stsz);
     chunks \<leftarrow> read_chunks whole stco co64;
     runs \<leftarrow> read_runs whole (bx_payload stsc);
     deltas \<leftarrow> read_deltas whole (bx_payload stts);
     offsets \<leftarrow> read_offsets whole ctts;
     place_all \<lparr>tb_count = count, tb_sizes = sizes, tb_chunks = chunks, tb_runs = runs, tb_deltas = deltas, tb_offsets = offsets\<rparr> }"

section \<open>Tracks\<close>

text \<open>\<open>Some None\<close> is the \<open>continue\<close> of a track without the boxes it needs.\<close>

definition track_of :: "bytes \<Rightarrow> int \<Rightarrow> box \<Rightarrow> track option option" where
  "track_of whole movie_ts trak = do {
     ks \<leftarrow> children whole trak;
     case find_box ks ''mdia'' of None \<Rightarrow> Some None
     | Some mdia \<Rightarrow> do {
         ms \<leftarrow> children whole mdia;
         case (find_box ms ''mdhd'', find_box ms ''minf'') of
           (Some mdhd, Some minf) \<Rightarrow> do {
             ts \<leftarrow> u32_int whole (bx_payload mdhd + (if is_one whole (bx_payload mdhd) then 20 else 12));
             ns \<leftarrow> children whole minf;
             case find_box ns ''stbl'' of None \<Rightarrow> Some None
             | Some stbl \<Rightarrow> do {
                 ss \<leftarrow> children whole stbl;
                 case find_box ss ''stsd'' of None \<Rightarrow> Some None
                 | Some stsd \<Rightarrow> do {
                     codec \<leftarrow> codec_of whole stsd;
                     samples \<leftarrow> samples_of whole stbl;
                     es \<leftarrow> edits_of whole trak movie_ts;
                     Some (Some \<lparr>tk_codec = codec, tk_timescale = ts, tk_movie_timescale = movie_ts, tk_edits = es, tk_samples = samples\<rparr>) } } }
         | _ \<Rightarrow> Some None } }"

definition tracks_of :: "bytes \<Rightarrow> track list option" where
  "tracks_of whole = do {
     found \<leftarrow> boxes whole 0 (length whole);
     moov \<leftarrow> find_box found ''moov'';
     ks \<leftarrow> children whole moov;
     mvhd \<leftarrow> find_box ks ''mvhd'';
     movie_ts \<leftarrow> u32_int whole (bx_payload mvhd + (if is_one whole (bx_payload mvhd) then 20 else 12));
     ts \<leftarrow> omap (track_of whole movie_ts) (filter (\<lambda>b. bx_type b = ''trak'') ks);
     Some (List.map_filter id ts) }"

section \<open>What the tables give\<close>

text \<open>Samples follow each other in time: each DTS is the sum of the durations before it.\<close>

definition dts_from :: "int \<Rightarrow> sample list \<Rightarrow> int \<Rightarrow> bool" where
  "dts_from d ss d' = ((\<forall>i < length ss. sm_dts (ss ! i) = d + sum_list (map sm_duration (take i ss)))
     \<and> d' = d + sum_list (map sm_duration ss))"

lemma dts_from_snoc: "dts_from d ss d' \<Longrightarrow> sm_dts s = d' \<Longrightarrow> dts_from d (ss @ [s]) (d' + sm_duration s)"
  by (auto simp: dts_from_def nth_append less_Suc_eq)

definition placed :: "sample_tables \<Rightarrow> sample list \<times> int \<Rightarrow> bool" where
  "placed t st = (length (fst st) \<le> tb_count t \<and> dts_from 0 (fst st) (snd st)
     \<and> (\<forall>i < length (fst st). sm_duration (fst st ! i) = delta_of t i
          \<and> Some (sm_size (fst st ! i)) = (case at (tb_sizes t) i of None \<Rightarrow> Some 0 | s \<Rightarrow> s)))"

lemma placed_step:
  assumes "placed t (ss, dts)" "\<not> tb_count t \<le> length ss"
  shows "placed t (ss @ [\<lparr>sm_offset = p, sm_size = (case at (tb_sizes t) (length ss) of Some s \<Rightarrow> s | None \<Rightarrow> 0), sm_dts = dts,
     sm_duration = delta_of t (length ss), sm_cts = c\<rparr>], dts + delta_of t (length ss))"
  using assms dts_from_snoc [of 0 ss dts "\<lparr>sm_offset = p, sm_size = (case at (tb_sizes t) (length ss) of Some s \<Rightarrow> s | None \<Rightarrow> 0), sm_dts = dts,
     sm_duration = delta_of t (length ss), sm_cts = c\<rparr>"]
  by (auto simp: placed_def nth_append less_Suc_eq split: option.splits)

lemma place_samples_placed: "placed t st \<Longrightarrow> placed t (place_samples t k offset st)"
proof (induction t k offset st rule: place_samples.induct)
  case (2 t k offset ss dts)
  show ?case
  proof (cases "tb_count t \<le> length ss")
    case False
    from "2.IH" [OF False refl refl refl refl placed_step [OF "2.prems" False]] show ?thesis
      using False by (simp add: Let_def)
  qed (use "2.prems" in simp)
qed simp

lemma place_chunks_placed: "placed t st \<Longrightarrow> placed t (place_chunks t chunk offs st)"
  by (induction t chunk offs st rule: place_chunks.induct) (auto intro: place_samples_placed)

lemma place_all_spec:
  assumes "place_all t = Some ss"
  shows "length ss = tb_count t \<and> dts_from 0 ss (sum_list (map sm_duration ss))
    \<and> (\<forall>i < length ss. sm_duration (ss ! i) = delta_of t i)"
proof -
  have "placed t ([], 0)" by (simp add: placed_def dts_from_def)
  from place_chunks_placed [OF this] have "placed t (place_chunks t 0 (tb_chunks t) ([], 0))" .
  then show ?thesis using assms by (auto simp: place_all_def Let_def placed_def dts_from_def split: if_splits)
qed

text \<open>Every sample the size table counts is placed, once, in decode order: a track read without error has exactly
  that many samples, sample \<open>i\<close> lasts what the delta table says (its last entry beyond the end) and is decoded
  when the ones before it are over.\<close>

theorem samples_in_decode_order:
  assumes "place_all t = Some ss" "i < length ss"
  shows "length ss = tb_count t \<and> sm_duration (ss ! i) = delta_of t i
    \<and> sm_dts (ss ! i) = (\<Sum>j<i. delta_of t j)"
proof -
  note p = place_all_spec [OF assms(1)]
  have "sm_dts (ss ! i) = sum_list (map sm_duration (take i ss))"
    using p assms(2) by (simp add: dts_from_def)
  also have "\<dots> = (\<Sum>j<i. sm_duration (ss ! j))"
    using assms(2) by (simp add: sum_list_sum_nth atLeast0LessThan)
  also have "\<dots> = (\<Sum>j<i. delta_of t j)" by (rule sum.cong) (use p assms(2) in auto)
  finally show ?thesis using p assms(2) by blast
qed

definition sample_table_example :: sample_tables where
  "sample_table_example = \<lparr>tb_count = 3, tb_sizes = [10, 20, 30], tb_chunks = [100, 200], tb_runs = [(1, 2), (2, 1)],
     tb_deltas = [5, 7], tb_offsets = []\<rparr>"

theorem samples_in_decode_order_witness:
  "\<exists>ss. place_all sample_table_example = Some ss \<and> sm_dts (ss ! 2) = 12 \<and> sm_offset (ss ! 2) = 200"
proof -
  obtain ss where ss: "place_all sample_table_example = Some ss" "sm_offset (ss ! 2) = 200" "length ss = 3"
    by (simp add: place_all_def sample_table_example_def per_chunk_def delta_of_def numeral_2_eq_2 at_def)
  have "(\<Sum>j<2. delta_of sample_table_example j) = 12"
    by (simp add: numeral_2_eq_2 delta_of_def sample_table_example_def at_def)
  then show ?thesis using samples_in_decode_order [OF ss(1), of 2] ss by auto
qed

end
