(* ===== verification/Presentation.thy ===== *)
theory Presentation
  imports Nals
begin

text \<open>
  The presentation of \<open>tools/src/container.ts\<close>: the parameter sets of \<open>avcC\<close> and \<open>hvcC\<close>
  (\<open>parameterSets\<close>), \<open>presentationMessage\<close>, \<open>esdsOf\<close> and \<open>presentationOf\<close> with the layout
  rule. The plain errors of a configuration record are caught where the message is built, so they are
  \<open>None\<close> there; in \<open>presentation_of\<close> the \<open>None\<close> is the RangeError of a box walk, which nothing on
  this path catches.
\<close>

section \<open>The decoder configuration\<close>

text \<open>\<open>byte()\<close> and \<open>unit()\<close>: the value read and the position after it.\<close>

definition config_byte :: "bytes \<Rightarrow> nat \<Rightarrow> nat \<Rightarrow> (nat \<times> nat) option" where
  "config_byte whole fin p = (if p \<ge> fin then None else map_option (\<lambda>b. (unat b, p + 1)) (at whole p))"

definition config_short :: "bytes \<Rightarrow> nat \<Rightarrow> nat \<Rightarrow> (nat \<times> nat) option" where
  "config_short whole fin p = do {
     (hi, p1) \<leftarrow> config_byte whole fin p;
     (lo, p2) \<leftarrow> config_byte whole fin p1;
     Some (hi * 256 + lo, p2) }"

definition config_unit :: "bytes \<Rightarrow> nat \<Rightarrow> nat \<Rightarrow> (bytes \<times> nat) option" where
  "config_unit whole fin p = do {
     (len, q) \<leftarrow> config_short whole fin p;
     if len = 0 \<or> q + len > fin then None else Some (slice whole q (q + len), q + len) }"

fun config_units :: "bytes \<Rightarrow> nat \<Rightarrow> nat \<Rightarrow> nat \<Rightarrow> (bytes list \<times> nat) option" where
  "config_units whole fin 0 p = Some ([], p)"
| "config_units whole fin (Suc n) p = do {
     (u, q) \<leftarrow> config_unit whole fin p;
     (us, r) \<leftarrow> config_units whole fin n q;
     Some (u # us, r) }"

definition avc_sets :: "bytes \<Rightarrow> nat \<Rightarrow> nat \<Rightarrow> bytes list option" where
  "avc_sets whole fin p = do {
     let profile = at whole (p + 1);
     (nsps, p1) \<leftarrow> config_byte whole fin (p + 5);
     (sps, p2) \<leftarrow> config_units whole fin (nsps mod 32) p1;
     (npps, p3) \<leftarrow> config_byte whole fin p2;
     (pps, p4) \<leftarrow> config_units whole fin npps p3;
     if profile \<in> {Some 100, Some 110, Some 122, Some 144} \<and> p4 + 4 \<le> fin
     then do {
       (next, p5) \<leftarrow> config_byte whole fin (p4 + 3);
       (exts, p6) \<leftarrow> config_units whole fin next p5;
       Some (sps @ pps @ exts) }
     else Some (sps @ pps) }"

fun hevc_arrays :: "bytes \<Rightarrow> nat \<Rightarrow> nat \<Rightarrow> nat \<Rightarrow> bytes list option" where
  "hevc_arrays whole fin 0 p = Some []"
| "hevc_arrays whole fin (Suc arrays) p = do {
     (n, q) \<leftarrow> config_short whole fin (p + 1);
     (us, r) \<leftarrow> config_units whole fin n q;
     rest \<leftarrow> hevc_arrays whole fin arrays r;
     Some (us @ rest) }"

definition hevc_sets :: "bytes \<Rightarrow> nat \<Rightarrow> nat \<Rightarrow> bytes list option" where
  "hevc_sets whole fin p = do {
     (arrays, q) \<leftarrow> config_byte whole fin (p + 22);
     hevc_arrays whole fin arrays q }"

definition parameter_sets :: "bytes \<Rightarrow> box \<Rightarrow> bool \<Rightarrow> bytes list option" where
  "parameter_sets whole config hevc =
     (if hevc then hevc_sets whole (bx_end config) (bx_payload config)
      else avc_sets whole (bx_end config) (bx_payload config))"

section \<open>presentationMessage\<close>

definition box_bytes :: "bytes \<Rightarrow> box \<Rightarrow> bytes" where
  "box_bytes whole b = slice whole (bx_start b) (bx_end b)"

text \<open>The sort by type and position is the stable sort by type; no count or length reaches \<open>2 ^ 32\<close>.\<close>

definition units_message :: "bool \<Rightarrow> bytes list \<Rightarrow> bytes" where
  "units_message hevc us =
     be_bytes 4 (length us) @ concat (map (\<lambda>u. be_bytes 4 (length u) @ u) (sort_key (nal_type hevc) us))"

definition presentation_message :: "bytes \<Rightarrow> box \<Rightarrow> box \<Rightarrow> bool \<Rightarrow> box list \<Rightarrow> bytes option" where
  "presentation_message whole entry config hevc audio_esds = do {
     us \<leftarrow> parameter_sets whole config hevc;
     ext \<leftarrow> boxes whole (bx_payload entry + 78) (bx_end entry);
     let extras = filter (\<lambda>b. bx_type b \<in> {''clap'', ''pasp'', ''colr''}) ext;
     Some (units_message hevc us @ concat (map (box_bytes whole) (extras @ audio_esds))) }"

section \<open>esdsOf\<close>

definition esds_of :: "bytes \<Rightarrow> box \<Rightarrow> box list option" where
  "esds_of whole entry =
     (if bx_type entry \<noteq> ''mp4a'' \<or> bx_payload entry + 28 > bx_end entry then Some []
      else do {
        version \<leftarrow> read_be 2 whole (bx_payload entry + 8);
        let start = bx_payload entry + 28 + (if version = 1 then 16 else if version = 2 then 36 else 0);
        if start > bx_end entry then Some []
        else do {
          kids \<leftarrow> boxes whole start (bx_end entry);
          inner \<leftarrow> (case find_box kids ''wave'' of None \<Rightarrow> Some [] | Some wave \<Rightarrow> Boxes.children whole wave);
          Some (filter (\<lambda>b. bx_type b = ''esds'') (kids @ inner)) } })"

section \<open>presentationOf\<close>

record presentation =
  pr_config :: bytes
  pr_matrix :: "int list"
  pr_display :: "nat \<times> nat"

record handler =
  hd_handler :: string
  hd_enabled :: bool
  hd_entries :: nat

datatype layout_problem = Video_tracks nat | Audio_tracks nat | Many_descriptions | Uncovered_track

text \<open>\<open>b ? find(children(file, b), ty) : undefined\<close>.\<close>

definition child_box :: "bytes \<Rightarrow> box option \<Rightarrow> string \<Rightarrow> box option option" where
  "child_box whole b ty = (case b of None \<Rightarrow> Some None
     | Some x \<Rightarrow> map_option (\<lambda>ks. find_box ks ty) (Boxes.children whole x))"

definition handler_name :: "bytes \<Rightarrow> box option \<Rightarrow> string" where
  "handler_name whole hdlr = (case hdlr of None \<Rightarrow> ''''
     | Some h \<Rightarrow> if bx_payload h + 12 > bx_end h then '''' else latin1 (slice whole (bx_payload h + 8) (bx_payload h + 12)))"

definition entries_of :: "bytes \<Rightarrow> box \<Rightarrow> box list option" where
  "entries_of whole stsd = boxes whole (bx_payload stsd + 8) (bx_end stsd)"

fun soun_esds :: "bytes \<Rightarrow> box list \<Rightarrow> box list option" where
  "soun_esds whole [] = Some []"
| "soun_esds whole (trak # rest) = do {
     mdia \<leftarrow> child_box whole (Some trak) ''mdia'';
     hdlr \<leftarrow> child_box whole mdia ''hdlr'';
     if handler_name whole hdlr \<noteq> ''soun'' then soun_esds whole rest
     else do {
       minf \<leftarrow> child_box whole mdia ''minf'';
       stbl \<leftarrow> child_box whole minf ''stbl'';
       stsd \<leftarrow> child_box whole stbl ''stsd'';
       case stsd of None \<Rightarrow> Some []
       | Some s \<Rightarrow>
           if bx_payload s + 8 > bx_end s then Some []
           else do { es \<leftarrow> entries_of whole s; case es of [] \<Rightarrow> Some [] | e # _ \<Rightarrow> esds_of whole e } } }"

text \<open>The track header as far as it is read: where the matrix is, and whether all of it is there.\<close>

definition matrix_at :: "bytes \<Rightarrow> box \<Rightarrow> nat" where
  "matrix_at whole tkhd = bx_payload tkhd + (if at whole (bx_payload tkhd) = Some 1 then 52 else 40)"

definition readable_header :: "bytes \<Rightarrow> box option \<Rightarrow> box option" where
  "readable_header whole tkhd = (case tkhd of None \<Rightarrow> None
     | Some h \<Rightarrow> if matrix_at whole h + 44 \<le> bx_end h then Some h else None)"

definition handler_of :: "bytes \<Rightarrow> box option \<Rightarrow> box option \<Rightarrow> box option \<Rightarrow> handler option" where
  "handler_of whole hdlr header stsd = do {
     n \<leftarrow> (case stsd of None \<Rightarrow> Some 0
           | Some s \<Rightarrow> if bx_payload s + 8 > bx_end s then Some 0 else u32 whole (bx_payload s + 4));
     Some \<lparr>hd_handler = handler_name whole hdlr,
           hd_enabled = (case header of None \<Rightarrow> True
             | Some h \<Rightarrow> (case at whole (bx_payload h + 3) of None \<Rightarrow> False | Some flags \<Rightarrow> odd (unat flags))),
           hd_entries = n\<rparr> }"

definition presentation_at :: "platform \<Rightarrow> bytes \<Rightarrow> nat \<Rightarrow> bytes \<Rightarrow> presentation option" where
  "presentation_at P whole p message = do {
     matrix \<leftarrow> omap (\<lambda>i. read_sbe 4 whole (p + 4 * i)) [0..<9];
     w \<leftarrow> u32 whole (p + 36);
     h \<leftarrow> u32 whole (p + 40);
     Some \<lparr>pr_config = sha256 P message, pr_matrix = matrix, pr_display = (w, h)\<rparr> }"

text \<open>The loop over the sample entries: whether a video entry was seen, and the presentation.\<close>

fun video_entry :: "platform \<Rightarrow> bytes \<Rightarrow> box list \<Rightarrow> box option \<Rightarrow> box list \<Rightarrow> (bool \<times> presentation option) option" where
  "video_entry P whole audio_esds header [] = Some (False, None)"
| "video_entry P whole audio_esds header (entry # rest) =
     (let hevc = bx_type entry \<in> {''hvc1'', ''hev1''} in
      if \<not> hevc \<and> bx_type entry \<notin> {''avc1'', ''avc3''} then video_entry P whole audio_esds header rest
      else do {
        ext \<leftarrow> boxes whole (bx_payload entry + 78) (bx_end entry);
        case (find_box ext (if hevc then ''hvcC'' else ''avcC''), header) of
          (Some config, Some h) \<Rightarrow> (case presentation_message whole entry config hevc audio_esds of
              None \<Rightarrow> Some (True, None)
            | Some message \<Rightarrow> map_option (\<lambda>p. (True, Some p)) (presentation_at P whole (matrix_at whole h) message))
        | _ \<Rightarrow> Some (True, None) })"

fun track_loop :: "platform \<Rightarrow> bytes \<Rightarrow> box list \<Rightarrow> box list \<Rightarrow> bool \<Rightarrow> presentation option \<Rightarrow> handler list
    \<Rightarrow> (presentation option \<times> handler list) option" where
  "track_loop P whole audio_esds [] seen pres hs = Some (pres, hs)"
| "track_loop P whole audio_esds (trak # rest) seen pres hs = do {
     tkhd \<leftarrow> child_box whole (Some trak) ''tkhd'';
     mdia \<leftarrow> child_box whole (Some trak) ''mdia'';
     hdlr \<leftarrow> child_box whole mdia ''hdlr'';
     minf \<leftarrow> child_box whole mdia ''minf'';
     stbl \<leftarrow> child_box whole minf ''stbl'';
     stsd \<leftarrow> child_box whole stbl ''stsd'';
     let header = readable_header whole tkhd;
     h \<leftarrow> handler_of whole hdlr header stsd;
     case (seen, stsd) of
       (False, Some s) \<Rightarrow> do {
         es \<leftarrow> entries_of whole s;
         (seen', pres') \<leftarrow> video_entry P whole audio_esds header es;
         track_loop P whole audio_esds rest seen' pres' (hs @ [h]) }
     | _ \<Rightarrow> track_loop P whole audio_esds rest seen pres (hs @ [h]) }"

definition layout_of :: "handler list \<Rightarrow> layout_problem option" where
  "layout_of hs = (let video = filter (\<lambda>h. hd_handler h = ''vide'') hs; audio = filter (\<lambda>h. hd_handler h = ''soun'') hs in
     if length video \<noteq> 1 then Some (Video_tracks (length video))
     else if length audio > 1 then Some (Audio_tracks (length audio))
     else if \<exists>h \<in> set (video @ audio). hd_entries h \<noteq> 1 then Some Many_descriptions
     else if \<exists>h \<in> set hs. hd_handler h \<noteq> ''vide'' \<and> hd_handler h \<noteq> ''soun'' \<and> hd_enabled h then Some Uncovered_track
     else None)"

text \<open>Called where \<open>moov\<close> has been found.\<close>

definition presentation_of :: "platform \<Rightarrow> bytes \<Rightarrow> (presentation option \<times> layout_problem option) option" where
  "presentation_of P whole = do {
     found \<leftarrow> boxes whole 0 (length whole);
     moov \<leftarrow> find_box found ''moov'';
     ks \<leftarrow> Boxes.children whole moov;
     let traks = filter (\<lambda>b. bx_type b = ''trak'') ks;
     audio_esds \<leftarrow> soun_esds whole traks;
     (pres, hs) \<leftarrow> track_loop P whole audio_esds traks False None [];
     Some (pres, layout_of hs) }"

end
