(* ===== verification/Container.thy ===== *)
theory Container
  imports Presentation Samples
begin

text \<open>
  \<open>readContainer\<close> of \<open>tools/src/container.ts\<close>: the GOPs of a file, each with the bytes its content hash
  covers, its timing values and its place on the movie timeline. \<open>ContainerMalformed\<close> and the exceptions
  that are not it are the left of a sum: the caller of \<open>readContainer\<close> catches the first only.
\<close>

section \<open>Instants\<close>

record instant =
  in_num :: int
  in_den :: int

definition before :: "instant \<Rightarrow> instant \<Rightarrow> bool" where
  "before a b = (in_num a * in_den b < in_num b * in_den a)"

definition instant_of :: "track \<Rightarrow> int \<Rightarrow> instant" where
  "instant_of t dts = (let es = tk_edits t; media_num = dts - ed_media_start es; media_den = tk_timescale t in
     \<lparr>in_num = ed_delay_num es * media_den + media_num * ed_delay_den es, in_den = ed_delay_den es * media_den\<rparr>)"

section \<open>The reading\<close>

record segment =
  sg_index :: "nat option"
  sg_capture_id :: "bytes option"
  sg_sei_count :: nat
  sg_opens_with_idr :: bool
  sg_problem :: "sei_problem option"
  sg_content_hash :: bytes
  sg_range :: "int \<times> int"
  sg_located :: bool
  sg_hashed :: "nat \<times> nat \<times> nat"
  sg_timing :: timing_values
  sg_extent_video :: extent
  sg_extent_audio :: "extent option"

record gops_reading =
  rd_gops :: "segment list"
  rd_presentation :: "presentation option"
  rd_layout :: "layout_problem option"
  rd_timescales :: timescales
  rd_edit_video :: "media_edit option"
  rd_edit_audio :: "media_edit option"

datatype unreadable = Not_bmff | No_moov | No_video_track | Unsupported_edit edit_problem

datatype container_reading = Unreadable unreadable | Gops gops_reading

datatype container_failure = Container_malformed | Container_throws fault

definition is_bmff :: "bytes \<Rightarrow> bool" where
  "is_bmff whole = (length whole \<ge> 8 \<and> latin1 (slice whole 4 8) = ''ftyp'')"

section \<open>Units and GOPs\<close>

record unit_nals =
  un_sample :: sample
  un_nals :: "bytes list"
  un_idr :: bool

definition in_file :: "bytes \<Rightarrow> sample \<Rightarrow> bool" where
  "in_file whole s = (sm_offset s + sm_size s \<le> length whole)"

definition sample_bytes :: "bytes \<Rightarrow> sample \<Rightarrow> bytes" where
  "sample_bytes whole s = slice whole (sm_offset s) (sm_offset s + sm_size s)"

definition unit_of :: "bytes \<Rightarrow> track \<Rightarrow> sample \<Rightarrow> container_failure + unit_nals" where
  "unit_of whole video s =
     (if \<not> in_file whole s then Inl Container_malformed
      else case nals_of (cd_length_size (tk_codec video)) (sample_bytes whole s) of None \<Rightarrow> Inl Container_malformed
      | Some nals \<Rightarrow> Inr \<lparr>un_sample = s, un_nals = nals, un_idr = list_ex (is_idr (cd_hevc (tk_codec video))) nals\<rparr>)"

definition gop_starts :: "unit_nals list \<Rightarrow> nat list" where
  "gop_starts us = filter (\<lambda>i. un_idr (us ! i) \<or> i = 0) [0..<length us]"

text \<open>From each start to the next one, and to the end of the track.\<close>

fun gop_spans :: "nat \<Rightarrow> nat list \<Rightarrow> (nat \<times> nat) list" where
  "gop_spans n [] = []"
| "gop_spans n [s] = [(s, n)]"
| "gop_spans n (s # t # rest) = (s, t) # gop_spans n (t # rest)"

section \<open>One GOP\<close>

definition seis_of :: "bool \<Rightarrow> bytes list \<Rightarrow> (bytes \<times> nat) list" where
  "seis_of hevc nals = List.map_filter (\<lambda>nal. case vcap_sei hevc nal of Vcap_sei cid index \<Rightarrow> Some (cid, index) | _ \<Rightarrow> None) nals"

definition problems_of :: "bool \<Rightarrow> bytes list \<Rightarrow> sei_problem list" where
  "problems_of hevc nals = List.map_filter (\<lambda>nal. case vcap_sei hevc nal of Bad_sei p \<Rightarrow> Some p | _ \<Rightarrow> None) nals"

definition hashed_nals :: "bool \<Rightarrow> bytes list \<Rightarrow> bytes list" where
  "hashed_nals hevc nals = filter (\<lambda>nal. vcap_sei hevc nal = Not_vcap) nals"

definition video_timing :: "unit_nals list \<Rightarrow> int list \<times> int list \<times> int" where
  "video_timing us = (let dts0 = sm_dts (un_sample (hd us)); l = un_sample (last us) in
     (map (\<lambda>u. sm_dts (un_sample u) - dts0) us, map (\<lambda>u. sm_cts (un_sample u)) us, sm_dts l + sm_duration l - dts0))"

text \<open>The audio frames of the half-open interval on the shared timeline.\<close>

definition audio_frames :: "track \<Rightarrow> track \<Rightarrow> int \<Rightarrow> int option \<Rightarrow> sample list" where
  "audio_frames video audio from_dts to_dts = filter (\<lambda>s. let p = instant_of audio (sm_dts s) in
     \<not> before p (instant_of video from_dts)
     \<and> (case to_dts of None \<Rightarrow> True | Some d \<Rightarrow> before p (instant_of video d))) (tk_samples audio)"

definition frames_of_gop :: "track \<Rightarrow> track option \<Rightarrow> unit_nals list \<Rightarrow> nat \<times> nat \<Rightarrow> sample list" where
  "frames_of_gop video audio us span = (case audio of None \<Rightarrow> []
     | Some a \<Rightarrow> audio_frames video a (sm_dts (un_sample (us ! fst span)))
         (map_option (\<lambda>u. sm_dts (un_sample u)) (at us (snd span))))"

definition gop_nals :: "unit_nals list \<Rightarrow> nat \<times> nat \<Rightarrow> bytes list" where
  "gop_nals us span = concat (map un_nals (slice us (fst span) (snd span)))"

text \<open>What \<open>content_hash\<close> is taken over.\<close>

definition gop_content :: "bytes \<Rightarrow> track \<Rightarrow> track option \<Rightarrow> unit_nals list \<Rightarrow> nat \<times> nat \<Rightarrow> bytes" where
  "gop_content whole video audio us span =
     concat (hashed_nals (cd_hevc (tk_codec video)) (gop_nals us span))
     @ concat (map (sample_bytes whole) (frames_of_gop video audio us span))"

definition timing_of_gop :: "unit_nals list \<Rightarrow> sample list \<Rightarrow> timing_values" where
  "timing_of_gop gus frames = (case video_timing gus of (vd, vc, ve) \<Rightarrow>
     \<lparr>video_dts = vd, video_cts = vc, video_end = ve,
      audio_dts = map (\<lambda>s. sm_dts s - sm_dts (hd frames)) frames, audio_dur = map sm_duration frames\<rparr>)"

definition segment_of :: "platform \<Rightarrow> bytes \<Rightarrow> track \<Rightarrow> track option \<Rightarrow> unit_nals list \<Rightarrow> nat \<times> nat
    \<Rightarrow> container_failure + segment" where
  "segment_of P whole video audio us span = (let
       gus = slice us (fst span) (snd span);
       hevc = cd_hevc (tk_codec video);
       nals = gop_nals us span;
       seis = seis_of hevc nals;
       frames = frames_of_gop video audio us span;
       timing = timing_of_gop gus frames;
       content = gop_content whole video audio us span
     in if \<exists>s \<in> set frames. \<not> in_file whole s then Inl Container_malformed
     else case (video_extent timing (sm_dts (un_sample (hd gus))),
                if frames = [] then Some None else audio_extent timing (sm_dts (hd frames))) of
       (Some ve, Some ae) \<Rightarrow> Inr
         \<lparr>sg_index = map_option snd (at seis 0), sg_capture_id = map_option fst (at seis 0), sg_sei_count = length seis,
          sg_opens_with_idr = un_idr (us ! fst span), sg_problem = at (problems_of hevc nals) 0,
          sg_content_hash = sha256 P content,
          sg_range = (foldl min max_safe (map (\<lambda>u. int (sm_offset (un_sample u))) gus),
                      foldl max 0 (map (\<lambda>u. int (sm_offset (un_sample u) + sm_size (un_sample u))) gus)),
          sg_located = (seis \<noteq> []),
          sg_hashed = (length (concat (hashed_nals hevc nals)), sum_list (map sm_size frames), length frames),
          sg_timing = timing, sg_extent_video = ve, sg_extent_audio = ae\<rparr>
     | _ \<Rightarrow> Inl (Container_throws Type_error))"

section \<open>readContainer\<close>

definition is_kind :: "track_kind \<Rightarrow> track \<Rightarrow> bool" where
  "is_kind k t = (cd_kind (tk_codec t) = k)"

definition media_edit_of :: "track \<Rightarrow> media_edit option" where
  "media_edit_of t = map_option (\<lambda>(start, dur). \<lparr>media_time = start, edit_duration = dur,
     movie_timescale = tk_movie_timescale t, media_timescale = tk_timescale t\<rparr>) (ed_media_edit (tk_edits t))"

definition unsupported_edit :: "track \<Rightarrow> track option \<Rightarrow> edit_problem option" where
  "unsupported_edit video audio = (case ed_unsupported (tk_edits video) of Some e \<Rightarrow> Some e
     | None \<Rightarrow> Option.bind audio (\<lambda>a. ed_unsupported (tk_edits a)))"

definition read_gops :: "platform \<Rightarrow> bytes \<Rightarrow> track \<Rightarrow> track option \<Rightarrow> container_failure + segment list" where
  "read_gops P whole video audio = rbind (rmap (unit_of whole video) (tk_samples video)) (\<lambda>us.
     rmap (segment_of P whole video audio us) (gop_spans (length us) (gop_starts us)))"

definition read_container :: "platform \<Rightarrow> bytes \<Rightarrow> container_failure + container_reading" where
  "read_container P whole =
     (if \<not> is_bmff whole then Inr (Unreadable Not_bmff)
      else case boxes whole 0 (length whole) of None \<Rightarrow> Inl (Container_throws Range_error)
      | Some found \<Rightarrow>
        if find_box found ''moov'' = None then Inr (Unreadable No_moov)
        else (case tracks_of whole of None \<Rightarrow> Inl Container_malformed
        | Some tracks \<Rightarrow> (case List.find (is_kind Video_track) tracks of None \<Rightarrow> Inr (Unreadable No_video_track)
          | Some video \<Rightarrow> (let audio = List.find (is_kind Audio_track) tracks in
              case unsupported_edit video audio of Some e \<Rightarrow> Inr (Unreadable (Unsupported_edit e))
              | None \<Rightarrow> (case presentation_of P whole of None \<Rightarrow> Inl (Container_throws Range_error)
                | Some (pres, layout) \<Rightarrow> rbind (read_gops P whole video audio) (\<lambda>gops.
                    Inr (Gops \<lparr>rd_gops = gops, rd_presentation = pres, rd_layout = layout,
                      rd_timescales = \<lparr>ts_video = tk_timescale video, ts_audio = map_option tk_timescale audio\<rparr>,
                      rd_edit_video = media_edit_of video, rd_edit_audio = Option.bind audio media_edit_of\<rparr>)))))))"

text \<open>\<open>containerSegments\<close>: an unreadable file is a plain error.\<close>

definition container_segments :: "platform \<Rightarrow> bytes \<Rightarrow> container_failure + segment list" where
  "container_segments P whole = rbind (read_container P whole) (\<lambda>r. case r of
     Unreadable why \<Rightarrow> Inl (Container_throws Plain_error) | Gops g \<Rightarrow> Inr (rd_gops g))"

section \<open>The GOPs cut the track into consecutive pieces\<close>

definition piece :: "'a list \<Rightarrow> nat \<times> nat \<Rightarrow> 'a list" where "piece us span = slice us (fst span) (snd span)"

lemma slice_drop: "s \<le> t \<Longrightarrow> slice us s t @ drop t us = drop s us"
  using take_slice_drop [of s t us] by (metis append_take_drop_id same_append_eq)

lemma pieces_concat:
  "sorted_wrt (<) (s # rest) \<Longrightarrow> last (s # rest) \<le> length us \<Longrightarrow>
   concat (map (piece us) (gop_spans (length us) (s # rest))) = drop s us"
proof (induction rest arbitrary: s)
  case (Cons t rest)
  then show ?case using slice_drop [of s t us] by (simp add: piece_def)
qed (simp add: piece_def)

lemma gop_starts_sorted: "sorted_wrt (<) (gop_starts us)"
  unfolding gop_starts_def by (rule sorted_wrt_filter) simp

lemma gop_starts_Cons:
  assumes "us \<noteq> []"
  shows "\<exists>rest. gop_starts us = 0 # rest"
proof -
  have "[0..<length us] = 0 # [1..<length us]" using assms by (simp add: upt_conv_Cons)
  then show ?thesis by (simp add: gop_starts_def)
qed

lemma gop_starts_less: "s \<in> set (gop_starts us) \<Longrightarrow> s < length us"
  by (auto simp: gop_starts_def)

lemma gop_pieces: "concat (map (piece us) (gop_spans (length us) (gop_starts us))) = us"
proof (cases "us = []")
  case False
  obtain rest where r: "gop_starts us = 0 # rest" using gop_starts_Cons [OF False] by blast
  have "last (0 # rest) \<le> length us"
    using gop_starts_less [of "last (0 # rest)" us] r by (metis last_in_set less_imp_le list.distinct(1))
  with pieces_concat [of 0 rest us] gop_starts_sorted [of us] show ?thesis by (simp add: r)
qed (simp add: gop_starts_def)

lemma unit_of_Inr:
  "unit_of whole v s = Inr u \<Longrightarrow> un_sample u = s \<and> in_file whole s
    \<and> nals_of (cd_length_size (tk_codec v)) (sample_bytes whole s) = Some (un_nals u)
    \<and> un_idr u = list_ex (is_idr (cd_hevc (tk_codec v))) (un_nals u)"
  by (auto simp: unit_of_def split: if_splits option.splits)

lemma segment_of_hash:
  "segment_of P whole v a us span = Inr g \<Longrightarrow> sg_content_hash g = sha256 P (gop_content whole v a us span)"
  by (auto simp: segment_of_def Let_def split: if_splits option.splits)

lemma rmap_map: "(\<And>x y. f x = Inr y \<Longrightarrow> g y = h x) \<Longrightarrow> rmap f xs = Inr ys \<Longrightarrow> map g ys = map h xs"
  by (induction xs arbitrary: ys) (auto simp: rbind_eq_Inr)

text \<open>The bytes of a sample as its units with their length prefixes.\<close>

definition prefixed :: "nat \<Rightarrow> bytes list \<Rightarrow> bytes" where
  "prefixed n nals = concat (map (\<lambda>u. be_bytes n (length u) @ u) nals)"

lemma read_gops_cover:
  assumes "read_gops P whole v audio = Inr gops"
  shows "\<exists>us. map un_sample us = tk_samples v
    \<and> (\<forall>u \<in> set us. in_file whole (un_sample u)
         \<and> sample_bytes whole (un_sample u) = prefixed (cd_length_size (tk_codec v)) (un_nals u))
    \<and> concat (map (piece us) (gop_spans (length us) (gop_starts us))) = us
    \<and> map sg_content_hash gops = map (\<lambda>span. sha256 P (gop_content whole v audio us span)) (gop_spans (length us) (gop_starts us))"
proof -
  obtain us where us: "rmap (unit_of whole v) (tk_samples v) = Inr us"
    and gs: "rmap (segment_of P whole v audio us) (gop_spans (length us) (gop_starts us)) = Inr gops"
    using assms by (auto simp: read_gops_def rbind_eq_Inr)
  have "map un_sample us = map (\<lambda>s. s) (tk_samples v)"
    by (rule rmap_map [OF _ us]) (simp add: unit_of_Inr)
  then have m: "map un_sample us = tk_samples v" by simp
  have t: "\<forall>u \<in> set us. in_file whole (un_sample u)
      \<and> sample_bytes whole (un_sample u) = prefixed (cd_length_size (tk_codec v)) (un_nals u)"
  proof
    fix u assume "u \<in> set us"
    then obtain i where i: "i < length us" "u = us ! i" by (metis in_set_conv_nth)
    then have "unit_of whole v (tk_samples v ! i) = Inr u"
      using us by (auto simp: rmap_Inr_iff list_all2_conv_all_nth)
    note p = unit_of_Inr [OF this]
    have "nals_of (cd_length_size (tk_codec v)) (sample_bytes whole (tk_samples v ! i)) = Some (un_nals u)"
      using p by blast
    from nals_of_concat [OF this] p show "in_file whole (un_sample u)
      \<and> sample_bytes whole (un_sample u) = prefixed (cd_length_size (tk_codec v)) (un_nals u)"
      by (simp add: prefixed_def)
  qed
  have h: "map sg_content_hash gops =
      map (\<lambda>span. sha256 P (gop_content whole v audio us span)) (gop_spans (length us) (gop_starts us))"
    by (rule rmap_map [where f = "segment_of P whole v audio us" and g = sg_content_hash
          and h = "\<lambda>span. sha256 P (gop_content whole v audio us span)", OF _ gs]) (rule segment_of_hash)
  show ?thesis by (intro exI [of _ us] conjI m t h gop_pieces)
qed

text \<open>C35. The GOPs account for the whole video track: its samples are cut into consecutive pieces, one per GOP and
  none left out; each sample is exactly its NAL units behind their length prefixes; and each GOP's content hash is
  taken over the units of its piece that are not a vcap SEI, then over its audio frames.\<close>

theorem gops_cover_samples:
  assumes "read_gops P whole v audio = Inr gops"
  shows "\<exists>us. map un_sample us = tk_samples v
    \<and> (\<forall>u \<in> set us. in_file whole (un_sample u)
         \<and> sample_bytes whole (un_sample u) = prefixed (cd_length_size (tk_codec v)) (un_nals u))
    \<and> concat (map (piece us) (gop_spans (length us) (gop_starts us))) = us
    \<and> map sg_content_hash gops = map (\<lambda>span. sha256 P (gop_content whole v audio us span)) (gop_spans (length us) (gop_starts us))"
  using assms by (rule read_gops_cover)

section \<open>The audio frames are shared out\<close>

definition increasing :: "sample list \<Rightarrow> bool" where
  "increasing ss = sorted_wrt (\<lambda>a b. sm_dts a \<le> sm_dts b) ss"

lemma delta_of_nonneg: "0 \<le> delta_of t i"
  by (simp add: delta_of_def)

lemma place_all_increasing:
  assumes "place_all t = Some ss"
  shows "increasing ss"
  unfolding increasing_def sorted_wrt_iff_nth_less
proof (intro allI impI)
  fix i j assume ij: "i < j" "j < length ss"
  note p = place_all_spec [OF assms]
  have "sum_list (map sm_duration (take i ss)) \<le> sum_list (map sm_duration (take j ss))"
  proof -
    have t: "take j ss = take i ss @ take (j - i) (drop i ss)"
      using ij(1) take_add [of i "j - i" ss] by simp
    have "0 \<le> sum_list (map sm_duration (take (j - i) (drop i ss)))"
    proof (rule sum_list_nonneg)
      fix x assume "x \<in> set (map sm_duration (take (j - i) (drop i ss)))"
      then obtain s where s: "s \<in> set ss" "x = sm_duration s" by (auto dest: in_set_takeD in_set_dropD)
      then obtain k where "k < length ss" "s = ss ! k" by (metis in_set_conv_nth)
      then show "0 \<le> x" using s p delta_of_nonneg by simp
    qed
    then show ?thesis using t by simp
  qed
  then show "sm_dts (ss ! i) \<le> sm_dts (ss ! j)" using p ij by (simp add: dts_from_def)
qed

lemma filter_between:
  assumes "sorted_wrt (\<lambda>a b. Q a \<longrightarrow> Q b) xs" "\<And>x. Q x \<Longrightarrow> R x"
  shows "filter (\<lambda>x. R x \<and> \<not> Q x) xs @ filter Q xs = filter R xs"
  using assms(1)
proof (induction xs)
  case (Cons x xs)
  show ?case
  proof (cases "Q x")
    case True
    then have "\<forall>y \<in> set xs. Q y" using Cons.prems by auto
    then show ?thesis using True Cons assms(2) by (auto simp: filter_empty_conv)
  next
    case False
    then show ?thesis using Cons by auto
  qed
qed simp

text \<open>Timescales and delays are fractions with a positive denominator.\<close>

definition timed :: "track \<Rightarrow> bool" where
  "timed t = (0 < tk_timescale t \<and> 0 < ed_delay_den (tk_edits t))"

lemma in_den_pos: "timed t \<Longrightarrow> 0 < in_den (instant_of t d)"
  by (simp add: timed_def instant_of_def Let_def)

lemma instant_mono: "timed t \<Longrightarrow> d \<le> d' \<Longrightarrow> in_num (instant_of t d) \<le> in_num (instant_of t d')"
  by (simp add: timed_def instant_of_def Let_def mult_right_mono)

lemma before_mono_left:
  assumes "timed a" "d \<le> d'" "timed v" "before (instant_of a d') (instant_of v e)"
  shows "before (instant_of a d) (instant_of v e)"
proof -
  have "in_den (instant_of a d) = in_den (instant_of a d')" by (simp add: instant_of_def Let_def)
  moreover have "in_num (instant_of a d) * in_den (instant_of v e) \<le> in_num (instant_of a d') * in_den (instant_of v e)"
    using instant_mono [OF assms(1,2)] in_den_pos [OF assms(3), of e] by (simp add: mult_right_mono)
  ultimately show ?thesis using assms(4) by (simp add: before_def)
qed

lemma before_mono_right:
  assumes "timed a" "timed v" "e \<le> e'" "before (instant_of a d) (instant_of v e)"
  shows "before (instant_of a d) (instant_of v e')"
proof -
  have "in_den (instant_of v e) = in_den (instant_of v e')" by (simp add: instant_of_def Let_def)
  moreover have "in_num (instant_of v e) * in_den (instant_of a d) \<le> in_num (instant_of v e') * in_den (instant_of a d)"
    using instant_mono [OF assms(2,3)] in_den_pos [OF assms(1), of d] by (simp add: mult_right_mono)
  ultimately show ?thesis using assms(4) by (simp add: before_def)
qed

text \<open>\<open>not_before\<close>: an audio frame at or after the video instant \<open>d\<close>.\<close>

definition not_before :: "track \<Rightarrow> track \<Rightarrow> int \<Rightarrow> sample \<Rightarrow> bool" where
  "not_before v a d s = (\<not> before (instant_of a (sm_dts s)) (instant_of v d))"

lemma audio_frames_split:
  assumes "timed v" "timed a" "increasing (tk_samples a)" "d \<le> d'"
  shows "audio_frames v a d (Some d') @ filter (not_before v a d') (tk_samples a) = filter (not_before v a d) (tk_samples a)"
proof -
  have "sorted_wrt (\<lambda>x y. not_before v a d' x \<longrightarrow> not_before v a d' y) (tk_samples a)"
    using assms(3) unfolding increasing_def
    by (rule sorted_wrt_mono_rel [rotated]) (auto simp: not_before_def intro: before_mono_left [OF assms(2) _ assms(1)])
  moreover have "\<And>x. not_before v a d' x \<Longrightarrow> not_before v a d x"
    using before_mono_right [OF assms(2,1,4)] by (auto simp: not_before_def)
  ultimately have "filter (\<lambda>x. not_before v a d x \<and> \<not> not_before v a d' x) (tk_samples a)
      @ filter (not_before v a d') (tk_samples a) = filter (not_before v a d) (tk_samples a)"
    by (rule filter_between)
  then show ?thesis by (simp add: audio_frames_def not_before_def [abs_def] Let_def)
qed

lemma frames_concat:
  assumes "timed v" "timed a" "increasing (tk_samples a)" "increasing (map un_sample us)"
  shows "sorted_wrt (<) (s # rest) \<Longrightarrow> last (s # rest) < length us \<Longrightarrow>
    concat (map (frames_of_gop v (Some a) us) (gop_spans (length us) (s # rest)))
      = filter (not_before v a (sm_dts (un_sample (us ! s)))) (tk_samples a)"
proof (induction rest arbitrary: s)
  case Nil
  show ?case by (simp add: at_def frames_of_gop_def audio_frames_def not_before_def [abs_def] Let_def)
next
  case (Cons t rest)
  have t: "t < length us" "s < t"
  proof -
    have "last (t # rest) = t \<or> last (t # rest) \<in> set rest" by simp
    then have "t \<le> last (t # rest)" using Cons.prems(1) by auto
    then show "t < length us" using Cons.prems(2) by simp
    show "s < t" using Cons.prems(1) by simp
  qed
  then have d: "sm_dts (un_sample (us ! s)) \<le> sm_dts (un_sample (us ! t))"
    using assms(4) by (simp add: increasing_def sorted_wrt_iff_nth_less)
  from Cons.IH [of t] Cons.prems have
    "concat (map (frames_of_gop v (Some a) us) (gop_spans (length us) (t # rest)))
      = filter (not_before v a (sm_dts (un_sample (us ! t)))) (tk_samples a)" by simp
  moreover have "frames_of_gop v (Some a) us (s, t)
      = audio_frames v a (sm_dts (un_sample (us ! s))) (Some (sm_dts (un_sample (us ! t))))"
    using t by (simp add: frames_of_gop_def at_def)
  ultimately show ?case using audio_frames_split [OF assms(1-3) d] by simp
qed

text \<open>C36. The audio frames of the GOPs, put together, are the frames of the track that do not sound before the first video
  frame, in their order: none of these is hashed twice and none escapes, and a frame before the first video frame is in no
  GOP. The half-open intervals are compared as exact fractions over two timescales and two edit lists.\<close>

theorem audio_frames_partitioned:
  assumes "timed v" "timed a" "place_all tv = Some (tk_samples v)" "place_all ta = Some (tk_samples a)"
    and "map un_sample us = tk_samples v" "us \<noteq> []"
  shows "concat (map (frames_of_gop v (Some a) us) (gop_spans (length us) (gop_starts us)))
    = filter (\<lambda>s. \<not> before (instant_of a (sm_dts s)) (instant_of v (sm_dts (un_sample (hd us))))) (tk_samples a)"
proof -
  obtain rest where r: "gop_starts us = 0 # rest" using gop_starts_Cons [OF assms(6)] by blast
  have "last (0 # rest) < length us"
    using gop_starts_less [of "last (0 # rest)" us] r by (metis last_in_set list.distinct(1))
  moreover have "sorted_wrt (<) (0 # rest)" using gop_starts_sorted [of us] r by simp
  ultimately show ?thesis
    using frames_concat [OF assms(1,2) place_all_increasing [OF assms(4)], of us 0 rest]
      place_all_increasing [OF assms(3)] assms(5,6) by (simp add: r not_before_def [abs_def] hd_conv_nth)
qed

section \<open>A file for the witnesses\<close>

definition copy_platform :: platform where
  "copy_platform = \<lparr>sha256 = (\<lambda>b. b), create_public_key = (\<lambda>_. None), verify_p1363 = (\<lambda>_ _ _. False), buffer_of_object = (\<lambda>_. None)\<rparr>"

definition demo_file :: bytes where "demo_file = [1, 0x65, 1, 0x41, 1, 0x65, 9, 8]"

definition demo_track :: "track_kind \<Rightarrow> sample_tables \<Rightarrow> track" where
  "demo_track kind t = \<lparr>tk_codec = \<lparr>cd_kind = kind, cd_length_size = 1, cd_hevc = False\<rparr>, tk_timescale = 1,
     tk_movie_timescale = 1, tk_edits = no_edits, tk_samples = (case place_all t of None \<Rightarrow> [] | Some ss \<Rightarrow> ss)\<rparr>"

definition demo_video_table :: sample_tables where
  "demo_video_table = \<lparr>tb_count = 3, tb_sizes = [2, 2, 2], tb_chunks = [0], tb_runs = [(1, 3)], tb_deltas = [1], tb_offsets = []\<rparr>"

definition demo_audio_table :: sample_tables where
  "demo_audio_table = \<lparr>tb_count = 2, tb_sizes = [1, 1], tb_chunks = [6], tb_runs = [(1, 2)], tb_deltas = [2], tb_offsets = []\<rparr>"

abbreviation "demo_video \<equiv> demo_track Video_track demo_video_table"
abbreviation "demo_audio \<equiv> demo_track Audio_track demo_audio_table"

lemma demo_placed:
  "place_all demo_video_table = Some (tk_samples demo_video)" "place_all demo_audio_table = Some (tk_samples demo_audio)"
  by code_simp+

lemma demo_timed: "timed demo_video" "timed demo_audio"
  by (simp_all add: timed_def demo_track_def no_edits_def)

theorem gops_cover_samples_witness:
  "\<exists>gops. read_gops copy_platform demo_file demo_video (Some demo_audio) = Inr gops
    \<and> map sg_content_hash gops = [[0x65, 0x41, 9], [0x65, 8]]
    \<and> (\<exists>us. map un_sample us = tk_samples demo_video
        \<and> concat (map (piece us) (gop_spans (length us) (gop_starts us))) = us)"
proof -
  have "(case read_gops copy_platform demo_file demo_video (Some demo_audio) of Inl _ \<Rightarrow> False
     | Inr gops \<Rightarrow> map sg_content_hash gops = [[0x65, 0x41, 9], [0x65, 8]])" by code_simp
  then obtain gops where g: "read_gops copy_platform demo_file demo_video (Some demo_audio) = Inr gops"
    "map sg_content_hash gops = [[0x65, 0x41, 9], [0x65, 8]]" by (auto split: sum.splits)
  from gops_cover_samples [OF g(1)] obtain us where "map un_sample us = tk_samples demo_video"
    "concat (map (piece us) (gop_spans (length us) (gop_starts us))) = us" by (elim exE conjE)
  with g show ?thesis by (intro exI [of _ gops] exI [of _ us] conjI)
qed

theorem audio_frames_partitioned_witness:
  "\<exists>us. map un_sample us = tk_samples demo_video
    \<and> concat (map (frames_of_gop demo_video (Some demo_audio) us) (gop_spans (length us) (gop_starts us))) = tk_samples demo_audio"
proof -
  define us where "us = map (\<lambda>s. \<lparr>un_sample = s, un_nals = [[0x65]], un_idr = True\<rparr>) (tk_samples demo_video)"
  have m: "map un_sample us = tk_samples demo_video" by (simp add: us_def o_def)
  have n: "us \<noteq> []" unfolding us_def by code_simp
  have "filter (\<lambda>s. \<not> before (instant_of demo_audio (sm_dts s)) (instant_of demo_video (sm_dts (un_sample (hd us))))) (tk_samples demo_audio)
    = tk_samples demo_audio" unfolding us_def by code_simp
  with audio_frames_partitioned [OF demo_timed demo_placed m n] m show ?thesis by auto
qed

section \<open>An exception nothing catches\<close>

lemma boxes_step:
  assumes "p + 8 \<le> fin" "box_head whole p fin = Some (sz, payload)" "8 \<le> sz" "p + sz \<le> fin" "boxes whole (p + sz) fin = None"
  shows "boxes whole p fin = None"
  using assms by (simp add: boxes.simps [of whole p fin])

lemma boxes_large_size:
  assumes "length whole = p + 8" "u32 whole p = Some 1"
  shows "boxes whole p (length whole) = None"
  using assms by (simp add: boxes.simps [of whole p] box_head_def read_be_def)

text \<open>C38. An ISO-BMFF file of a \<open>ftyp\<close> box and then an eight-byte box header announcing a 64-bit size makes
  \<open>readContainer\<close> throw a RangeError: the walk over the top-level boxes is outside its \<open>try\<close>, and the
  exception is not the one its caller catches.\<close>

theorem trailing_large_header_throws:
  assumes "length ty = 4" "8 + length body < 2 ^ 32"
  shows "read_container P (be_bytes 4 (8 + length body) @ ascii ''ftyp'' @ body @ be_bytes 4 1 @ ty) = Inl (Container_throws Range_error)"
proof -
  define whole where "whole = be_bytes 4 (8 + length body) @ ascii ''ftyp'' @ body @ be_bytes 4 1 @ ty"
  have len: "length whole = (8 + length body) + 8" using assms(1) by (simp add: whole_def)
  have a: "u32 whole 0 = Some (8 + length body)"
    unfolding whole_def by (rule read_be_be_bytes) (use assms(2) in simp)
  have "u32 (be_bytes 4 1 @ ty) 0 = Some 1" by (rule read_be_be_bytes) simp
  then have b: "u32 whole (8 + length body) = Some 1"
    using read_be_append_right [of "be_bytes 4 (8 + length body) @ ascii ''ftyp'' @ body" "8 + length body" 4 "be_bytes 4 1 @ ty"]
    by (simp add: whole_def)
  have "boxes whole (0 + (8 + length body)) (length whole) = None"
    using boxes_large_size [OF len b] by simp
  moreover have "box_head whole 0 (length whole) = Some (8 + length body, 8)" using a by (simp add: box_head_def)
  ultimately have "boxes whole 0 (length whole) = None" using len by (intro boxes_step [of 0 "length whole" whole "8 + length body" 8]) simp_all
  moreover have "is_bmff whole"
    using len by (simp add: is_bmff_def whole_def slice_append_right slice_append_left)
  ultimately show ?thesis unfolding whole_def [symmetric] by (simp add: read_container_def)
qed

theorem trailing_large_header_throws_witness:
  "read_container copy_platform (be_bytes 4 12 @ ascii ''ftyp'' @ ascii ''isom'' @ be_bytes 4 1 @ ascii ''free'') = Inl (Container_throws Range_error)"
  using trailing_large_header_throws [of "ascii ''free''" "ascii ''isom''" copy_platform] by simp

end
