(* ===== verification/Der.thy ===== *)
theory Der
  imports Core
begin

text \<open>
  The DER readers of \<open>tools/src/attestation.ts\<close> and \<open>tools/src/rfc3161.ts\<close>, with the arithmetic they
  are written in. A length and a high tag number are built by 32-bit shifts, so a length can be negative;
  a byte past the end is \<open>undefined\<close>, which the bit operators read as 0 and a sum turns into NaN. A
  position is therefore an \<open>int option\<close> (\<open>None\<close> is NaN). \<open>children\<close> stops when its position
  reaches the end of the body, and nothing makes it advance: its result is an \<open>option\<close>, \<open>None\<close> when
  the loop does not end (in Node, when the array it fills exhausts the heap).
\<close>

section \<open>Results\<close>

text \<open>\<open>None\<close> does not return, \<open>Some (Inl f)\<close> throws, \<open>Some (Inr v)\<close> is the value.\<close>

type_synonym 'a run = "(fault + 'a) option"

definition ret :: "'a \<Rightarrow> 'a run" where "ret x = Some (Inr x)"

definition throw :: "fault \<Rightarrow> 'a run" where "throw f = Some (Inl f)"

definition run_bind :: "'a run \<Rightarrow> ('a \<Rightarrow> 'b run) \<Rightarrow> 'b run" where
  "run_bind m f = (case m of None \<Rightarrow> None | Some (Inl e) \<Rightarrow> Some (Inl e) | Some (Inr x) \<Rightarrow> f x)"

text \<open>\<open>try \<dots> catch\<close>: an exception becomes a value.\<close>

definition catching :: "'a run \<Rightarrow> 'a \<Rightarrow> 'a run" where
  "catching m d = (case m of Some (Inl e) \<Rightarrow> ret d | _ \<Rightarrow> m)"

lemma run_bind_simps [simp]: "run_bind None f = None" "run_bind (Some (Inl e)) f = Some (Inl e)"
  "run_bind (Some (Inr x)) f = f x" "run_bind (ret x) f = f x" "run_bind (throw e) f = throw e"
  by (simp_all add: run_bind_def ret_def throw_def)

lemma run_bind_cong [fundef_cong]:
  "m = m' \<Longrightarrow> (\<And>x. m' = Some (Inr x) \<Longrightarrow> f x = f' x) \<Longrightarrow> run_bind m f = run_bind m' f'"
  by (auto simp: run_bind_def split: option.split sum.split)

lemma run_bind_Inr [simp]: "run_bind m f = Some (Inr y) \<longleftrightarrow> (\<exists>x. m = Some (Inr x) \<and> f x = Some (Inr y))"
  by (auto simp: run_bind_def split: option.split sum.split)

lemma catching_simps [simp]: "catching None d = None" "catching (Some (Inl e)) d = ret d"
  "catching (Some (Inr x)) d = Some (Inr x)" "catching (throw e) d = ret d" "catching (ret x) d = ret x"
  by (simp_all add: catching_def ret_def throw_def)

lemma ret_eq [simp]: "ret x = ret y \<longleftrightarrow> x = y" "ret x = Some (Inr y) \<longleftrightarrow> x = y" "Some (Inr y) = ret x \<longleftrightarrow> x = y"
  "throw e \<noteq> Some (Inr y)" "throw e \<noteq> ret y" "ret x \<noteq> None" "throw e \<noteq> None"
  by (auto simp: ret_def throw_def)

section \<open>Bytes at any position\<close>

text \<open>\<open>b[i]\<close> and \<open>b.subarray(s, e)\<close> with negative arguments and NaN as Node reads them.\<close>

definition byte_at :: "bytes \<Rightarrow> int \<Rightarrow> byte option" where
  "byte_at b i = (if 0 \<le> i then at b (nat i) else None)"

definition clamp :: "nat \<Rightarrow> int option \<Rightarrow> nat" where
  "clamp len i = (case i of None \<Rightarrow> 0
     | Some v \<Rightarrow> if v < 0 then nat (v + int len) else min (nat v) len)"

definition subarray :: "bytes \<Rightarrow> int option \<Rightarrow> int option \<Rightarrow> bytes" where
  "subarray b s e = slice b (clamp (length b) s) (clamp (length b) e)"

text \<open>\<open>(acc << k) | v\<close> in 32 bits.\<close>

definition shift_in :: "nat \<Rightarrow> 32 word \<Rightarrow> nat \<Rightarrow> 32 word" where
  "shift_in k acc v = push_bit k acc OR of_nat v"

section \<open>One element\<close>

record der =
  d_class :: nat
  d_constructed :: bool
  d_tag :: int
  d_body :: bytes
  d_raw :: bytes
  d_end :: "int option"

text \<open>A high tag number over the bytes that follow, and how many positions it takes.\<close>

fun high_tag :: "32 word \<Rightarrow> bytes \<Rightarrow> 32 word \<times> nat" where
  "high_tag acc [] = (shift_in 7 acc 0, 1)"
| "high_tag acc (b # bs) = (let acc' = shift_in 7 acc (unat b mod 128) in
     if unat b < 128 then (acc', 1) else map_prod id Suc (high_tag acc' bs))"

fun long_length :: "nat \<Rightarrow> 32 word \<Rightarrow> bytes \<Rightarrow> 32 word" where
  "long_length 0 acc bs = acc"
| "long_length (Suc n) acc [] = long_length n (shift_in 8 acc 0) []"
| "long_length (Suc n) acc (b # bs) = long_length n (shift_in 8 acc (unat b)) bs"

text \<open>The length read at \<open>cursor\<close> (\<open>None\<close> is undefined) and the position after it.\<close>

definition length_at :: "bytes \<Rightarrow> int \<Rightarrow> int option \<times> int" where
  "length_at b cursor = (case byte_at b cursor of None \<Rightarrow> (None, cursor + 1)
     | Some l \<Rightarrow>
        if unat l < 128 then (Some (int (unat l)), cursor + 1)
        else let count = unat l mod 128 in
          (Some (sint (long_length count 0 (drop (nat cursor + 1) b))), cursor + 1 + int count))"

definition der_at :: "bytes \<Rightarrow> int \<Rightarrow> der" where
  "der_at b p = (let
       first = (case byte_at b p of None \<Rightarrow> 0 | Some x \<Rightarrow> unat x);
       low = first mod 32;
       (tag, cursor) = (if low = 31 then case high_tag 0 (drop (nat p + 1) b) of (t, n) \<Rightarrow> (sint t, p + 1 + int n)
                        else (int low, p + 1));
       (len, cursor') = length_at b cursor;
       fin = map_option (\<lambda>l. cursor' + l) len
     in \<lparr>d_class = first div 64, d_constructed = odd (first div 32), d_tag = tag,
         d_body = subarray b (Some cursor') fin, d_raw = subarray b (Some p) fin, d_end = fin\<rparr>)"

text \<open>\<open>read\<close> of \<open>rfc3161.ts\<close> checks nothing; that of \<open>attestation.ts\<close> throws past the end.\<close>

definition read_lenient :: "bytes \<Rightarrow> int \<Rightarrow> fault + der" where
  "read_lenient b p = Inr (der_at b p)"

definition read_checked :: "bytes \<Rightarrow> int \<Rightarrow> fault + der" where
  "read_checked b p =
     (if p \<ge> int (length b) then Inl Plain_error
      else let node = der_at b p in
      case d_end node of None \<Rightarrow> Inr node
      | Some e \<Rightarrow> if e > int (length b) then Inl Plain_error else Inr node)"

section \<open>children\<close>

partial_function (option) elements :: "(int \<Rightarrow> fault + der) \<Rightarrow> int \<Rightarrow> int option \<Rightarrow> der list \<Rightarrow> (fault + der list) option" where
  "elements rd len p out = (case p of None \<Rightarrow> Some (Inr out)
     | Some i \<Rightarrow> if len \<le> i then Some (Inr out)
        else case rd i of Inl e \<Rightarrow> Some (Inl e)
        | Inr node \<Rightarrow> elements rd len (d_end node) (out @ [node]))"

declare elements.simps [code]

definition children_lenient :: "bytes \<Rightarrow> der list run" where
  "children_lenient body = elements (read_lenient body) (int (length body)) (Some 0) []"

definition children_checked :: "bytes \<Rightarrow> der list run" where
  "children_checked body = elements (read_checked body) (int (length body)) (Some 0) []"

text \<open>\<open>nodes[i] as Node\<close>, used: a missing one is a TypeError.\<close>

definition nth_node :: "der list \<Rightarrow> nat \<Rightarrow> der run" where
  "nth_node ns i = (case at ns i of None \<Rightarrow> throw Type_error | Some n \<Rightarrow> ret n)"

text \<open>\<open>asNumber\<close>: the body as a 32-bit integer.\<close>

definition as_number :: "der \<Rightarrow> int" where
  "as_number node = sint (foldl (\<lambda>n b. shift_in 8 n (unat b)) 0 (d_body node))"

section \<open>Object identifiers\<close>

text \<open>
  The arcs of the dotted text; \<open>None\<close> for an empty body, whose text is \<open>NaN.NaN\<close>. \<open>step\<close> is how the
  reader accumulates an arc: a 32-bit shift in \<open>rfc3161.ts\<close>, a product in \<open>attestation.ts\<close>.
\<close>

fun arcs :: "(int \<Rightarrow> nat \<Rightarrow> int) \<Rightarrow> int \<Rightarrow> bytes \<Rightarrow> int list" where
  "arcs step v [] = []"
| "arcs step v (b # bs) = (let v' = step v (unat b mod 128) in
     if unat b < 128 then v' # arcs step 0 bs else arcs step v' bs)"

definition oid_with :: "(int \<Rightarrow> nat \<Rightarrow> int) \<Rightarrow> der \<Rightarrow> int list option" where
  "oid_with step node = (case d_body node of [] \<Rightarrow> None
     | b # bs \<Rightarrow> Some (int (unat b div 40) # int (unat b mod 40) # arcs step 0 bs))"

definition oid_shift :: "der \<Rightarrow> int list option" where
  "oid_shift = oid_with (\<lambda>v d. sint (shift_in 7 (word_of_int v) d))"

definition oid_product :: "der \<Rightarrow> int list option" where
  "oid_product = oid_with (\<lambda>v d. v * 128 + int d)"

section \<open>When the loop ends\<close>

text \<open>A reader that always moves forward makes \<open>children\<close> return.\<close>

lemma elements_return:
  assumes "\<And>i node e. rd i = Inr node \<Longrightarrow> d_end node = Some e \<Longrightarrow> 0 \<le> i \<Longrightarrow> i < len \<Longrightarrow> i < e"
  shows "(case p of None \<Rightarrow> True | Some i \<Rightarrow> 0 \<le> i) \<Longrightarrow> elements rd len p out \<noteq> None"
proof (induction "case p of None \<Rightarrow> 0 | Some i \<Rightarrow> nat (len - i)" arbitrary: p out rule: less_induct)
  case less
  show ?case
  proof (cases p)
    case (Some i)
    show ?thesis
    proof (cases "len \<le> i")
      case False
      show ?thesis
      proof (cases "rd i")
        case (Inr node)
        have "elements rd len (d_end node) (out @ [node]) \<noteq> None"
        proof (cases "d_end node")
          case (Some e)
          then have "i < e" using assms [OF Inr] \<open>p = Some i\<close> less.prems False by simp
          then show ?thesis using less.hyps [of "d_end node" "out @ [node]"] \<open>p = Some i\<close> Some less.prems False by simp
        qed (simp add: elements.simps)
        then show ?thesis using Some False Inr by (simp add: elements.simps [of rd len "Some i"])
      qed (use Some False in \<open>simp add: elements.simps [of rd len "Some i"]\<close>)
    qed (use Some in \<open>simp add: elements.simps [of rd len "Some i"]\<close>)
  qed (simp add: elements.simps)
qed

text \<open>An element that ends where it starts is read for ever.\<close>

lemma elements_stuck:
  assumes "rd i = Inr node" "d_end node = Some i" "i < len"
  shows "elements rd len (Some i) out = None"
proof (rule ccontr)
  assume "elements rd len (Some i) out \<noteq> None"
  then obtain r where r: "elements rd len (Some i) out = Some r" by blast
  have "rd = rd' \<and> len = len' \<and> p = Some i \<longrightarrow> False" if "elements rd' len' p out' = Some r'" for rd' len' p out' r'
  proof (rule elements.raw_induct [where P = "\<lambda>rd' len' p out' r'. rd = rd' \<and> len = len' \<and> p = Some i \<longrightarrow> False", OF _ that])
    fix f rd' len' p out' r'
    assume ih: "\<And>rd' len' p out' r'. f rd' len' p out' = Some r' \<Longrightarrow> rd = rd' \<and> len = len' \<and> p = Some i \<longrightarrow> False"
      and eq: "(case p of None \<Rightarrow> Some (Inr out')
        | Some i \<Rightarrow> if len' \<le> i then Some (Inr out')
            else case rd' i of Inl e \<Rightarrow> Some (Inl e) | Inr node \<Rightarrow> f rd' len' (d_end node) (out' @ [node])) = Some r'"
    show "rd = rd' \<and> len = len' \<and> p = Some i \<longrightarrow> False"
      using ih [of rd' len' "Some i" "out' @ [node]" r'] eq assms by auto
  qed
  from this [OF r] show False by simp
qed

text \<open>Six bytes whose long-form length is -6: the element they start ends where it starts.\<close>

definition minus_six :: "byte \<Rightarrow> bytes" where "minus_six t = [t, 0x84, 0xff, 0xff, 0xff, 0xfa]"

lemma minus_six_end:
  assumes "unat t mod 32 \<noteq> 31"
  shows "d_end (der_at (minus_six t @ rest) 0) = Some 0"
proof -
  have "sint (long_length 4 0 ([0xff, 0xff, 0xff, 0xfa] @ rest)) = - 6"
  proof -
    have four: "(4 :: nat) = Suc (Suc (Suc (Suc 0)))" by simp
    show ?thesis unfolding four long_length.simps append.simps by (simp add: shift_in_def)
  qed
  then show ?thesis using assms
    by (simp add: der_at_def minus_six_def byte_at_def length_at_def at_def Let_def)
qed

text \<open>Neither DER reader always returns: \<open>children\<close> of a body that starts with an element of length -6,
  which the 32-bit shift makes of the length bytes \<open>84 ff ff ff fa\<close>, reads that element for ever. A timestamp token
  and an attestation extension both reach it with bytes no signature covers.\<close>

theorem der_children_diverge:
  assumes "unat t mod 32 \<noteq> 31"
  shows "children_lenient (minus_six t @ rest) = None \<and> children_checked (minus_six t @ rest) = None"
proof -
  let ?b = "minus_six t @ rest"
  have l: "0 < int (length ?b)" by (simp add: minus_six_def)
  note e = minus_six_end [OF assms, of rest]
  have "read_checked ?b 0 = Inr (der_at ?b 0)" using e l by (simp add: read_checked_def)
  then show ?thesis
    using elements_stuck [OF _ e l, of "read_lenient ?b" "[]"] elements_stuck [OF _ e l, of "read_checked ?b" "[]"]
    by (simp add: children_lenient_def children_checked_def read_lenient_def)
qed

theorem der_children_diverge_witness: "children_lenient (minus_six 0x30) = None"
  using der_children_diverge [of "0x30" "[]"] by simp

end
