(* ===== verification/Attestation.thy ===== *)
theory Attestation
  imports Der Registry
begin

text \<open>
  \<open>tools/src/attestation.ts\<close>: the key attestation extension, the X.509 extensions of an issuer, and
  \<open>validateChain\<close>. What Node's \<open>X509Certificate\<close> does (reading a certificate, checking a signature with
  a public key) is the record \<open>pki\<close>; a certificate is what the code reads from it. Instants are milliseconds,
  and \<open>None\<close> is an invalid \<open>Date\<close>.
\<close>

section \<open>Certificates\<close>

text \<open>\<open>x_spki\<close> is \<open>publicKey.export\<close>, \<open>None\<close> where the getter throws for a key it cannot decode.\<close>

record x509 =
  x_raw :: bytes
  x_spki :: "bytes option"
  x_from :: int
  x_to :: int
  x_serial :: jsstr

record pki =
  parse_cert :: "bytes \<Rightarrow> x509 option"
  cert_signed_by :: "x509 \<Rightarrow> bytes \<Rightarrow> bool"
  cert_verify :: "x509 \<Rightarrow> bytes \<Rightarrow> bytes \<Rightarrow> bool option"

text \<open>\<open>cert.verify(issuer.publicKey)\<close>.\<close>

definition signed_by :: "pki \<Rightarrow> x509 \<Rightarrow> x509 \<Rightarrow> bool run" where
  "signed_by K cert issuer = (case x_spki issuer of None \<Rightarrow> throw Plain_error | Some key \<Rightarrow> ret (cert_signed_by K cert key))"

section \<open>The key description\<close>

definition LEVELS :: "string list" where "LEVELS = [''software'', ''tee'', ''strongbox'']"

definition RANK :: "string \<Rightarrow> nat" where
  "RANK s = (if s = ''tee'' \<or> s = ''secureEnclave'' then 1 else if s = ''strongbox'' then 2 else 0)"

definition BOOT_STATES :: "int \<Rightarrow> string" where
  "BOOT_STATES n = (if n = 0 then ''verified'' else if n = 1 then ''selfSigned'' else if n = 2 then ''unverified''
     else if n = 3 then ''failed'' else ''unknown'')"

definition ROOT_OF_TRUST_TAG :: int where "ROOT_OF_TRUST_TAG = 704"
definition ORIGIN_TAG :: int where "ORIGIN_TAG = 702"
definition APPLICATION_ID_TAG :: int where "APPLICATION_ID_TAG = 709"
definition ORIGIN_GENERATED :: int where "ORIGIN_GENERATED = 0"

record key_description =
  kd_version :: int
  kd_attestation :: string
  kd_key_mint :: string
  kd_root_of_trust :: "(bool \<times> string) option"
  kd_origin :: "int option"
  kd_digests :: "jsstr list option"

definition find_tag :: "int \<Rightarrow> der list \<Rightarrow> der option" where
  "find_tag t ns = List.find (\<lambda>n. d_tag n = t) ns"

text \<open>\<open>children(read(b, 0).body)\<close>.\<close>

definition inner :: "bytes \<Rightarrow> der list run" where
  "inner b = run_bind (Some (read_checked b 0)) (\<lambda>n. children_checked (d_body n))"

definition origin_of :: "der \<Rightarrow> int option run" where
  "origin_of hardware = run_bind (children_checked (d_body hardware)) (\<lambda>ks. case find_tag ORIGIN_TAG ks of None \<Rightarrow> ret None
     | Some tagged \<Rightarrow> run_bind (Some (read_checked (d_body tagged) 0)) (\<lambda>n. ret (Some (as_number n))))"

definition root_of_trust :: "der \<Rightarrow> (bool \<times> string) option run" where
  "root_of_trust hardware = run_bind (children_checked (d_body hardware)) (\<lambda>ks. case find_tag ROOT_OF_TRUST_TAG ks of
     None \<Rightarrow> ret None
   | Some entry \<Rightarrow> run_bind (inner (d_body entry)) (\<lambda>parts.
       let locked = (case at parts 1 of None \<Rightarrow> False | Some p \<Rightarrow> (case at (d_body p) 0 of None \<Rightarrow> False | Some b \<Rightarrow> b \<noteq> 0)) in
       run_bind (nth_node parts 2) (\<lambda>state. ret (Some (locked, BOOT_STATES (as_number state))))))"

text \<open>One round of the loop over the two authorization lists.\<close>

definition app_digests :: "der option \<Rightarrow> jsstr list option \<Rightarrow> jsstr list option run" where
  "app_digests field acc = (case field of None \<Rightarrow> ret acc
     | Some l \<Rightarrow> run_bind (children_checked (d_body l)) (\<lambda>ks. case find_tag APPLICATION_ID_TAG ks of None \<Rightarrow> ret acc
       | Some entry \<Rightarrow> run_bind (Some (read_checked (d_body entry) 0)) (\<lambda>wrapped.
           run_bind (inner (d_body wrapped)) (\<lambda>ids. case at ids 1 of None \<Rightarrow> ret (Some [])
             | Some ds \<Rightarrow> run_bind (children_checked (d_body ds)) (\<lambda>digests. ret (Some (map (\<lambda>d. hex_of (d_body d)) digests)))))))"

definition level_of :: "der option \<Rightarrow> string run" where
  "level_of node = (case node of None \<Rightarrow> throw Plain_error
     | Some n \<Rightarrow> (let v = as_number n in if v < 0 then throw Plain_error
         else case at LEVELS (nat v) of None \<Rightarrow> throw Plain_error | Some l \<Rightarrow> ret l))"

definition parse_key_description :: "bytes \<Rightarrow> key_description run" where
  "parse_key_description b = run_bind (inner b) (\<lambda>fields.
     run_bind (case at fields 7 of None \<Rightarrow> ret None | Some hardware \<Rightarrow> origin_of hardware) (\<lambda>origin.
     run_bind (case at fields 7 of None \<Rightarrow> ret None | Some hardware \<Rightarrow> root_of_trust hardware) (\<lambda>root.
     run_bind (app_digests (at fields 6) None) (\<lambda>d. run_bind (app_digests (at fields 7) d) (\<lambda>digests.
     run_bind (nth_node fields 0) (\<lambda>version.
     run_bind (level_of (at fields 1)) (\<lambda>attestation.
     run_bind (level_of (at fields 3)) (\<lambda>key_mint.
       ret \<lparr>kd_version = as_number version, kd_attestation = attestation, kd_key_mint = key_mint,
            kd_root_of_trust = root, kd_origin = origin, kd_digests = digests\<rparr>))))))))"

section \<open>X.509 extensions\<close>

definition BASIC_CONSTRAINTS :: "int list" where "BASIC_CONSTRAINTS = [2, 5, 29, 19]"
definition KEY_USAGE :: "int list" where "KEY_USAGE = [2, 5, 29, 15]"
definition KEY_DESCRIPTION_OID :: "int list" where "KEY_DESCRIPTION_OID = [1, 3, 6, 1, 4, 1, 11129, 2, 1, 17]"

fun run_map :: "('a \<Rightarrow> 'b run) \<Rightarrow> 'a list \<Rightarrow> 'b list run" where
  "run_map f [] = ret []"
| "run_map f (x # xs) = run_bind (f x) (\<lambda>y. run_bind (run_map f xs) (\<lambda>ys. ret (y # ys)))"

definition extension_entry :: "der \<Rightarrow> (int list option \<times> bytes) run" where
  "extension_entry extension = run_bind (children_checked (d_body extension)) (\<lambda>parts.
     run_bind (nth_node parts 0) (\<lambda>extn. ret (oid_product extn, d_body (last parts))))"

text \<open>The entries in the order they are set; a lookup finds the last of a name.\<close>

definition extensions_of :: "bytes \<Rightarrow> (int list option \<times> bytes) list run" where
  "extensions_of raw = run_bind (inner raw) (\<lambda>top. run_bind (nth_node top 0) (\<lambda>tbs.
     run_bind (children_checked (d_body tbs)) (\<lambda>ks. case List.find (\<lambda>n. d_class n = 2 \<and> d_tag n = 3) ks of
       None \<Rightarrow> ret []
     | Some block \<Rightarrow> run_bind (inner (d_body block)) (\<lambda>es. run_map extension_entry es))))"

definition extension_value :: "(int list option \<times> bytes) list \<Rightarrow> int list \<Rightarrow> bytes option" where
  "extension_value es oid = map_of (rev es) (Some oid)"

definition may_issue :: "bytes \<Rightarrow> bool run" where
  "may_issue raw = run_bind (extensions_of raw) (\<lambda>es.
     case (extension_value es BASIC_CONSTRAINTS, extension_value es KEY_USAGE) of
       (Some constraints, Some usage) \<Rightarrow> run_bind (inner constraints) (\<lambda>ks.
         let ca = (case at ks 0 of None \<Rightarrow> False
           | Some c \<Rightarrow> d_tag c = 1 \<and> (case at (d_body c) 0 of None \<Rightarrow> False | Some b \<Rightarrow> b \<noteq> 0)) in
         if \<not> ca then ret False
         else run_bind (Some (read_checked usage 0)) (\<lambda>bits.
           ret (case at (d_body bits) 1 of None \<Rightarrow> False | Some b \<Rightarrow> bit b 2)))
     | _ \<Rightarrow> ret False)"

definition key_description_of :: "bytes \<Rightarrow> bytes option run" where
  "key_description_of raw = catching (run_bind (extensions_of raw) (\<lambda>es. ret (extension_value es KEY_DESCRIPTION_OID))) None"

section \<open>validateChain\<close>

datatype chain_failure = Not_certificates | Chain_empty | Leaf_key_differs | Not_signed_by_next nat | No_pinned_root
  | Not_an_issuer nat | Carries_extension nat | Extensions_unreadable | Not_valid_at nat | No_attestation
  | Attestation_unreadable | No_root_of_trust | Boot_state bool string | Key_origin "int option" | Software_key

record chain_outcome =
  co_proven :: string
  co_failures :: "chain_failure list"
  co_invalid :: bool
  co_boot_state :: "(bool \<times> string) option"
  co_expired :: "int option"
  co_digests :: "jsstr list option"
  co_serials :: "jsstr list"

definition chain_invalid :: "chain_failure list \<Rightarrow> int option \<Rightarrow> chain_outcome" where
  "chain_invalid failures expired = \<lparr>co_proven = ''none'', co_failures = failures, co_invalid = True,
     co_boot_state = None, co_expired = expired, co_digests = None, co_serials = []\<rparr>"

definition valid_at :: "x509 \<Rightarrow> int option \<Rightarrow> bool" where
  "valid_at c instant = (case instant of None \<Rightarrow> False | Some t \<Rightarrow> x_from c \<le> t \<and> t \<le> x_to c)"

text \<open>
  \<open>hex.toLowerCase().replace(/^0+(?=.)/, '')\<close>. Only ASCII letters are lowered here: no other character
  lowers to a hexadecimal digit, and what is compared with is a certificate's serial.
\<close>

definition lower :: "16 word \<Rightarrow> 16 word" where
  "lower u = (if 65 \<le> unat u \<and> unat u \<le> 90 then u + 32 else u)"

definition normal_serial :: "jsstr \<Rightarrow> jsstr" where
  "normal_serial hex = (let s = map lower hex; rest = dropWhile (\<lambda>u. u = 48) s in
     if takeWhile (\<lambda>u. u = 48) s = [] then s
     else if rest \<noteq> [] \<and> hd rest \<notin> {10, 13, 0x2028, 0x2029} then rest else 48 # rest)"

definition read_certs :: "platform \<Rightarrow> pki \<Rightarrow> json list \<Rightarrow> x509 list option" where
  "read_certs P K chain = omap (\<lambda>v. Option.bind (buffer_from P (Some v)) (parse_cert K)) chain"

text \<open>The loop over consecutive certificates from the \<open>i\<close>-th, stopping at the first that is not signed.\<close>

fun check_links :: "pki \<Rightarrow> nat \<Rightarrow> x509 list \<Rightarrow> chain_failure list run" where
  "check_links K i (c # d # rest) = run_bind (signed_by K c d) (\<lambda>b.
     if b then check_links K (i + 1) (d # rest) else ret [Not_signed_by_next i])"
| "check_links K i _ = ret []"

fun find_root :: "pki \<Rightarrow> x509 \<Rightarrow> x509 list \<Rightarrow> x509 option run" where
  "find_root K last_cert [] = ret None"
| "find_root K last_cert (r # rs) =
     (if x_raw r = x_raw last_cert then ret (Some r)
      else run_bind (signed_by K last_cert r) (\<lambda>b. if b then ret (Some r) else find_root K last_cert rs))"

text \<open>The guarded loop over the issuers; an exception ends it with a failure of its own.\<close>

fun check_issuers :: "nat \<Rightarrow> x509 list \<Rightarrow> chain_failure list option" where
  "check_issuers i [] = Some []"
| "check_issuers i (c # cs) = (case may_issue (x_raw c) of None \<Rightarrow> None
     | Some (Inl e) \<Rightarrow> Some [Extensions_unreadable]
     | Some (Inr issuer) \<Rightarrow> (case key_description_of (x_raw c) of
         Some (Inr kd) \<Rightarrow> map_option (\<lambda>fs. (if issuer then [] else [Not_an_issuer i])
             @ (if kd \<noteq> None then [Carries_extension i] else []) @ fs) (check_issuers (i + 1) cs)
       | _ \<Rightarrow> None))"

definition first_outside :: "x509 list \<Rightarrow> int option \<Rightarrow> nat option" where
  "first_outside walked instant = List.find (\<lambda>i. \<not> valid_at (walked ! i) instant) [0..<length walked]"

definition expired_since :: "x509 list \<Rightarrow> int \<Rightarrow> int option" where
  "expired_since walked clock = (case map x_to (filter (\<lambda>c. \<not> valid_at c (Some clock)) walked) of
     [] \<Rightarrow> None | t # ts \<Rightarrow> Some (foldl min t ts))"

definition proof_failures :: "key_description \<Rightarrow> chain_failure list" where
  "proof_failures d = (case kd_root_of_trust d of None \<Rightarrow> [No_root_of_trust]
       | Some (locked, state) \<Rightarrow> if locked \<and> state = ''verified'' then [] else [Boot_state locked state])
     @ (if kd_origin d = Some ORIGIN_GENERATED then [] else [Key_origin (kd_origin d)])"

definition weakest :: "key_description \<Rightarrow> string" where
  "weakest d = (if RANK (kd_attestation d) \<le> RANK (kd_key_mint d) then kd_attestation d else kd_key_mint d)"

definition judge_leaf :: "x509 list \<Rightarrow> x509 list \<Rightarrow> chain_failure list \<Rightarrow> int option \<Rightarrow> chain_outcome run" where
  "judge_leaf certs roots failures expired = run_bind (key_description_of (x_raw (hd certs))) (\<lambda>extension.
     case extension of None \<Rightarrow> ret (chain_invalid (failures @ [No_attestation]) expired)
     | Some ext \<Rightarrow> (case parse_key_description ext of None \<Rightarrow> None
       | Some (Inl e) \<Rightarrow> ret (chain_invalid (failures @ [Attestation_unreadable]) expired)
       | Some (Inr d) \<Rightarrow> (let
             w = weakest d;
             fs = failures @ proof_failures d @ (if w = ''software'' then [Software_key] else [])
           in ret \<lparr>co_proven = (if fs = [] \<and> w \<noteq> ''software'' then w else ''none''), co_failures = fs,
                co_invalid = (failures \<noteq> []), co_boot_state = kd_root_of_trust d, co_expired = expired,
                co_digests = kd_digests d,
                co_serials = map (\<lambda>c. normal_serial (x_serial c)) (filter (\<lambda>c. \<forall>r \<in> set roots. x_raw r \<noteq> x_raw c) certs)\<rparr>)))"

definition walked_of :: "x509 list \<Rightarrow> x509 option \<Rightarrow> x509 list" where
  "walked_of certs root = (case root of None \<Rightarrow> certs
     | Some r \<Rightarrow> if x_raw r = x_raw (last certs) then certs else certs @ [r])"

definition validate_chain :: "platform \<Rightarrow> pki \<Rightarrow> json list \<Rightarrow> bytes \<Rightarrow> x509 list \<Rightarrow> int option \<Rightarrow> int \<Rightarrow> chain_outcome run" where
  "validate_chain P K chain sig_pub roots instant clock = (case read_certs P K chain of
       None \<Rightarrow> ret (chain_invalid [Not_certificates] None)
     | Some [] \<Rightarrow> ret (chain_invalid [Chain_empty] None)
     | Some certs \<Rightarrow> (case x_spki (hd certs) of None \<Rightarrow> throw Plain_error
       | Some leaf_key \<Rightarrow>
         run_bind (check_links K 0 certs) (\<lambda>links. run_bind (find_root K (last certs) roots) (\<lambda>root.
           let walked = walked_of certs root in
           case check_issuers 1 (tl walked) of None \<Rightarrow> None
           | Some issuers \<Rightarrow> (let
               failures = (if leaf_key \<noteq> sig_pub then [Leaf_key_differs] else []) @ links
                 @ (if root = None then [No_pinned_root] else []) @ issuers
             in case first_outside walked instant of
               Some i \<Rightarrow> if instant = None then throw Range_error
                   else judge_leaf certs roots (failures @ [Not_valid_at i]) None
             | None \<Rightarrow> judge_leaf certs roots failures (expired_since walked clock))))))"

text \<open>\<open>leafSpki\<close>.\<close>

definition leaf_spki :: "pki \<Rightarrow> json \<Rightarrow> bytes option" where
  "leaf_spki K v = (case v of JStr s \<Rightarrow> Option.bind (parse_cert K (b64_decode s)) x_spki | _ \<Rightarrow> None)"

definition key_id_of :: "platform \<Rightarrow> bytes \<Rightarrow> jsstr" where
  "key_id_of P spki = hex_of (sha256 P spki)"

section \<open>What a proven level means\<close>

lemma check_links_none: "check_links K i cs = ret [] \<Longrightarrow> j + 1 < length cs \<Longrightarrow> signed_by K (cs ! j) (cs ! (j + 1)) = ret True"
proof (induction K i cs arbitrary: j rule: check_links.induct)
  case (1 K i c d rest)
  from "1.prems"(1) obtain b where b: "signed_by K c d = Some (Inr b)" "b" "check_links K (i + 1) (d # rest) = ret []"
    by (auto simp: ret_def split: if_splits)
  show ?case
  proof (cases j)
    case 0
    then show ?thesis using b by (simp add: ret_def)
  next
    case (Suc k)
    then show ?thesis using "1.IH" [OF b(1,2,3), of k] "1.prems"(2) by simp
  qed
qed auto

lemma find_root_Some: "find_root K c rs = ret (Some r) \<Longrightarrow> r \<in> set rs \<and> (x_raw r = x_raw c \<or> signed_by K c r = ret True)"
  by (induction rs) (auto simp: ret_def split: if_splits)

lemma check_issuers_none: "check_issuers i cs = Some [] \<Longrightarrow> c \<in> set cs \<Longrightarrow>
    may_issue (x_raw c) = ret True \<and> key_description_of (x_raw c) = ret None"
  by (induction i cs rule: check_issuers.induct)
    (auto simp: ret_def split: option.splits sum.splits if_splits)

lemma first_outside_None: "first_outside cs instant = None \<Longrightarrow> c \<in> set cs \<Longrightarrow> valid_at c instant"
  by (auto simp: first_outside_def find_None_iff in_set_conv_nth)

lemma proof_failures_none: "proof_failures d = [] \<Longrightarrow>
    kd_root_of_trust d = Some (True, ''verified'') \<and> kd_origin d = Some ORIGIN_GENERATED"
  by (auto simp: proof_failures_def split: option.splits prod.splits if_splits)

lemma judge_leaf_proven:
  assumes "judge_leaf certs roots failures expired = ret out" "co_proven out \<noteq> ''none''"
  shows "failures = [] \<and> (\<exists>ext d. key_description_of (x_raw (hd certs)) = ret (Some ext) \<and> parse_key_description ext = ret d
    \<and> proof_failures d = [] \<and> co_proven out = weakest d \<and> weakest d \<noteq> ''software'')"
proof -
  obtain e where e: "key_description_of (x_raw (hd certs)) = Some (Inr e)"
    using assms(1) by (auto simp: judge_leaf_def ret_def)
  have "e \<noteq> None" using assms e by (cases e) (auto simp: judge_leaf_def chain_invalid_def ret_def)
  then obtain ext where x: "e = Some ext" by blast
  obtain d where d: "parse_key_description ext = Some (Inr d)"
  proof (cases "parse_key_description ext")
    case (Some res)
    then show thesis using assms e x that
      by (cases res) (auto simp: judge_leaf_def chain_invalid_def ret_def)
  qed (use assms e x in \<open>auto simp: judge_leaf_def ret_def\<close>)
  have p: "co_proven out = (if failures @ proof_failures d @ (if weakest d = ''software'' then [Software_key] else []) = []
      \<and> weakest d \<noteq> ''software'' then weakest d else ''none'')"
    using assms(1) e x d by (auto simp: judge_leaf_def Let_def ret_def)
  with assms(2) have "failures @ proof_failures d @ (if weakest d = ''software'' then [Software_key] else []) = []
      \<and> weakest d \<noteq> ''software''" by metis
  then show ?thesis using p e x d by (intro conjI exI [of _ ext] exI [of _ d]) (simp_all add: ret_def)
qed

lemma weakest_rank: "RANK (weakest d) \<le> RANK (kd_attestation d) \<and> RANK (weakest d) \<le> RANK (kd_key_mint d)"
  by (simp add: weakest_def)

text \<open>The chain as it was walked: it ends in a pinned root, or is extended by the pinned root that signed its end.\<close>

definition pinned :: "pki \<Rightarrow> x509 list \<Rightarrow> x509 list \<Rightarrow> x509 list \<Rightarrow> bool" where
  "pinned K roots certs walked = (\<exists>r \<in> set roots. walked = certs \<and> x_raw r = x_raw (last certs)
     \<or> walked = certs @ [r] \<and> signed_by K (last certs) r = ret True)"

lemma validate_chain_steps:
  assumes "validate_chain P K chain sig_pub roots instant clock = ret out" "co_proven out \<noteq> ''none''"
  obtains certs root where "read_certs P K chain = Some certs" "certs \<noteq> []" "x_spki (hd certs) = Some sig_pub"
    "check_links K 0 certs = ret []" "find_root K (last certs) roots = ret (Some root)"
    "check_issuers 1 (tl (walked_of certs (Some root))) = Some []"
    "first_outside (walked_of certs (Some root)) instant = None"
    "judge_leaf certs roots [] (expired_since (walked_of certs (Some root)) clock) = ret out"
proof -
  obtain c cs where certs: "read_certs P K chain = Some (c # cs)"
    using assms by (auto simp: validate_chain_def chain_invalid_def ret_def split: option.splits list.splits)
  obtain k where k: "x_spki c = Some k"
    using assms certs by (auto simp: validate_chain_def throw_def ret_def split: option.splits)
  obtain links where l: "check_links K 0 (c # cs) = Some (Inr links)"
    using assms(1) certs k by (auto simp: validate_chain_def ret_def)
  obtain root where r: "find_root K (last (c # cs)) roots = Some (Inr root)"
    using assms(1) certs k l by (auto simp: validate_chain_def ret_def)
  define walked where "walked = walked_of (c # cs) root"
  obtain issuers where i: "check_issuers 1 (tl walked) = Some issuers"
    using assms(1) certs k l r by (auto simp: validate_chain_def ret_def Let_def walked_def [symmetric] split: option.splits)
  define failures where "failures = (if k \<noteq> sig_pub then [Leaf_key_differs] else []) @ links
    @ (if root = None then [No_pinned_root] else []) @ issuers"
  have out: "ret out = (case first_outside walked instant of
      Some i \<Rightarrow> if instant = None then throw Range_error else judge_leaf (c # cs) roots (failures @ [Not_valid_at i]) None
    | None \<Rightarrow> judge_leaf (c # cs) roots failures (expired_since walked clock))"
    using assms(1) certs k l r i [unfolded walked_def] unfolding failures_def walked_def
    by (simp add: validate_chain_def Let_def del: last.simps)
  have o: "first_outside walked instant = None"
  proof (rule ccontr)
    assume "first_outside walked instant \<noteq> None"
    then obtain j where "first_outside walked instant = Some j" by blast
    then have "judge_leaf (c # cs) roots (failures @ [Not_valid_at j]) None = ret out"
      using out by (cases "instant = None") (simp_all add: throw_def ret_def)
    from judge_leaf_proven [OF this assms(2)] show False by simp
  qed
  then have j: "judge_leaf (c # cs) roots failures (expired_since walked clock) = ret out" using out by simp
  from judge_leaf_proven [OF this assms(2)] have f: "failures = []" by simp
  then have parts: "k = sig_pub" "links = []" "issuers = []" "root \<noteq> None"
    by (auto simp: failures_def split: if_splits)
  then obtain rt where rt: "root = Some rt" by blast
  have w: "walked = walked_of (c # cs) (Some rt)" by (simp add: walked_def rt)
  show thesis
    by (rule that [of "c # cs" rt]) (use certs k l r i o j f parts rt w in \<open>simp_all add: ret_def\<close>)
qed

text \<open>C33. A level is proven only by a whole chain: its leaf holds the signing key, each certificate is signed by the next and
  the last by a pinned root, every issuer may issue and carries no attestation of its own, all were valid at the instant,
  and the leaf's own attestation says a locked, verified device generated the key at no weaker level than is proven.\<close>

theorem attested_level_sound:
  assumes "validate_chain P K chain sig_pub roots instant clock = ret out" "co_proven out \<noteq> ''none''"
  shows "\<exists>certs walked t ext d. read_certs P K chain = Some certs \<and> certs \<noteq> [] \<and> x_spki (hd certs) = Some sig_pub
    \<and> (\<forall>i. i + 1 < length certs \<longrightarrow> signed_by K (certs ! i) (certs ! (i + 1)) = ret True) \<and> pinned K roots certs walked
    \<and> (\<forall>c \<in> set (tl walked). may_issue (x_raw c) = ret True \<and> key_description_of (x_raw c) = ret None)
    \<and> instant = Some t \<and> (\<forall>c \<in> set walked. x_from c \<le> t \<and> t \<le> x_to c)
    \<and> key_description_of (x_raw (hd certs)) = ret (Some ext) \<and> parse_key_description ext = ret d
    \<and> kd_root_of_trust d = Some (True, ''verified'') \<and> kd_origin d = Some ORIGIN_GENERATED
    \<and> RANK (co_proven out) \<le> RANK (kd_attestation d) \<and> RANK (co_proven out) \<le> RANK (kd_key_mint d)"
proof -
  from validate_chain_steps [OF assms] obtain certs root where c: "read_certs P K chain = Some certs" "certs \<noteq> []"
    "x_spki (hd certs) = Some sig_pub" "check_links K 0 certs = ret []" "find_root K (last certs) roots = ret (Some root)"
    and w: "check_issuers 1 (tl (walked_of certs (Some root))) = Some []"
    "first_outside (walked_of certs (Some root)) instant = None"
    "judge_leaf certs roots [] (expired_since (walked_of certs (Some root)) clock) = ret out"
    by metis
  define walked where "walked = walked_of certs (Some root)"
  note w = w [folded walked_def]
  have p: "pinned K roots certs walked"
    using find_root_Some [OF c(5)] unfolding pinned_def walked_def walked_of_def by (intro bexI [of _ root]) auto
  have v: "\<forall>c \<in> set walked. valid_at c instant" using first_outside_None [OF w(2)] by blast
  moreover have "walked \<noteq> []" using c(2) by (simp add: walked_def walked_of_def)
  ultimately obtain t where t: "instant = Some t" by (cases instant) (auto simp: valid_at_def)
  from judge_leaf_proven [OF w(3) assms(2)] obtain ext d where d: "key_description_of (x_raw (hd certs)) = ret (Some ext)"
    "parse_key_description ext = ret d" "proof_failures d = []" "co_proven out = weakest d" by blast
  show ?thesis
    using c p v t d check_links_none [OF c(4)] check_issuers_none [OF w(1)] proof_failures_none [OF d(3)] weakest_rank [of d]
    by (intro exI [of _ certs] exI [of _ walked] exI [of _ t] exI [of _ ext] exI [of _ d]) (auto simp: valid_at_def)
qed

text \<open>A leaf with the attestation of a key generated in the TEE of a locked, verified device, and the root above it.\<close>

definition demo_leaf_der :: bytes where
  "demo_leaf_der = [48, 80, 48, 78, 163, 76, 48, 74, 48, 72, 6, 10, 43, 6, 1, 4, 1, 214, 121, 2, 1, 17, 4, 58, 48, 56, 2, 1, 3, 10, 1, 1, 2, 1, 4, 10, 1, 1, 4, 0, 4, 0, 48, 15, 191, 133, 69, 11, 4, 9, 48, 7, 49, 0, 49, 3, 4, 1, 7, 48, 21, 191, 133, 62, 3, 2, 1, 0, 191, 133, 64, 10, 48, 8, 4, 0, 1, 1, 255, 10, 1, 0]"

definition demo_root_der :: bytes where
  "demo_root_der = [48, 33, 48, 31, 163, 29, 48, 27, 48, 12, 6, 3, 85, 29, 19, 4, 5, 48, 3, 1, 1, 255, 48, 11, 6, 3, 85, 29, 15, 4, 4, 3, 2, 2, 4]"

definition demo_leaf :: x509 where
  "demo_leaf = \<lparr>x_raw = demo_leaf_der, x_spki = Some [1], x_from = 0, x_to = 100, x_serial = []\<rparr>"

definition demo_root :: x509 where
  "demo_root = \<lparr>x_raw = demo_root_der, x_spki = Some [2], x_from = 0, x_to = 100, x_serial = []\<rparr>"

definition demo_pki :: pki where
  "demo_pki = \<lparr>parse_cert = (\<lambda>b. if b = demo_leaf_der then Some demo_leaf else None),
     cert_signed_by = (\<lambda>c key. key = [2]), cert_verify = (\<lambda>c m s. Some False)\<rparr>"

definition demo_chain :: "json list" where "demo_chain = [JStr (b64url_encode demo_leaf_der)]"

lemma demo_issuer: "may_issue demo_root_der = ret True" "key_description_of demo_root_der = ret None"
  by code_simp+

lemma demo_description: "run_bind (key_description_of demo_leaf_der) (\<lambda>e. case e of None \<Rightarrow> throw Plain_error | Some ext \<Rightarrow> parse_key_description ext)
    = ret \<lparr>kd_version = 3, kd_attestation = ''tee'', kd_key_mint = ''tee'', kd_root_of_trust = Some (True, ''verified''),
        kd_origin = Some 0, kd_digests = Some [js ''07'']\<rparr>"
  by code_simp

lemma demo_validates:
  obtains out where "validate_chain tail_platform demo_pki demo_chain [1] [demo_root] (Some 50) 200 = ret out" "co_proven out = ''tee''"
    "co_invalid out = False" "co_digests out = Some [js ''07'']" "co_serials out = [[]]"
proof -
  have c: "read_certs tail_platform demo_pki demo_chain = Some [demo_leaf]"
    by (simp add: read_certs_def demo_chain_def demo_pki_def b64_decode_encode)
  have n: "x_raw demo_root \<noteq> x_raw demo_leaf" by (simp add: demo_root_def demo_leaf_def demo_root_der_def demo_leaf_der_def)
  have r: "find_root demo_pki demo_leaf [demo_root] = ret (Some demo_root)"
    using n by (simp add: signed_by_def demo_pki_def demo_root_def)
  have i: "check_issuers 1 [demo_root] = Some []"
    using demo_issuer by (simp add: demo_root_def ret_def)
  have o: "first_outside [demo_leaf, demo_root] (Some 50) = None"
    by (simp add: first_outside_def valid_at_def demo_leaf_def demo_root_def upt_conv_Cons)
  obtain ext d where d: "key_description_of demo_leaf_der = Some (Inr (Some ext))" "parse_key_description ext = Some (Inr d)"
    "d = \<lparr>kd_version = 3, kd_attestation = ''tee'', kd_key_mint = ''tee'', kd_root_of_trust = Some (True, ''verified''),
        kd_origin = Some 0, kd_digests = Some [js ''07'']\<rparr>"
    using demo_description by (auto simp: ret_def split: option.splits)
  obtain out where out: "judge_leaf [demo_leaf] [demo_root] [] (expired_since [demo_leaf, demo_root] 200) = ret out" "co_proven out = ''tee''"
    "co_invalid out = False" "co_digests out = Some [js ''07'']" "co_serials out = [[]]"
    using d n by (simp add: judge_leaf_def demo_leaf_def Let_def weakest_def proof_failures_def ORIGIN_GENERATED_def normal_serial_def)
  have "x_spki demo_leaf = Some [1]" by (simp add: demo_leaf_def)
  then have "validate_chain tail_platform demo_pki demo_chain [1] [demo_root] (Some 50) 200 = ret out"
    using c n r i o out(1) by (simp add: validate_chain_def walked_of_def Let_def)
  with out that show thesis by blast
qed

theorem attested_level_sound_witness:
  "\<exists>out certs walked. validate_chain tail_platform demo_pki demo_chain [1] [demo_root] (Some 50) 200 = ret out
    \<and> co_proven out = ''tee'' \<and> read_certs tail_platform demo_pki demo_chain = Some certs \<and> pinned demo_pki [demo_root] certs walked"
proof -
  obtain out where out: "validate_chain tail_platform demo_pki demo_chain [1] [demo_root] (Some 50) 200 = ret out" "co_proven out = ''tee''"
    using demo_validates by blast
  then have "co_proven out \<noteq> ''none''" by simp
  from attested_level_sound [OF out(1) this] out show ?thesis by blast
qed

end
