(* ===== verification/Timestamps.thy ===== *)
theory Timestamps
  imports Attestation
begin

text \<open>
  \<open>tools/src/rfc3161.ts\<close>: reading an RFC 3161 token down to its TSTInfo and SignerInfo, and the checks that
  make its \<open>genTime\<close> an instant of this proof. The reader never throws on its own; what does is the use of
  a missing node, caught in the first two blocks of the function and not in the rest.
\<close>

section \<open>Object identifiers\<close>

definition OID_signedData :: "int list" where "OID_signedData = [1, 2, 840, 113549, 1, 7, 2]"
definition OID_tstInfo :: "int list" where "OID_tstInfo = [1, 2, 840, 113549, 1, 9, 16, 1, 4]"
definition OID_contentType :: "int list" where "OID_contentType = [1, 2, 840, 113549, 1, 9, 3]"
definition OID_messageDigest :: "int list" where "OID_messageDigest = [1, 2, 840, 113549, 1, 9, 4]"
definition OID_sha256 :: "int list" where "OID_sha256 = [2, 16, 840, 1, 101, 3, 4, 2, 1]"
definition OID_timeStamping :: "int list" where "OID_timeStamping = [1, 3, 6, 1, 5, 5, 7, 3, 8]"
definition OID_extendedKeyUsage :: "int list" where "OID_extendedKeyUsage = [2, 5, 29, 37]"

section \<open>GeneralizedTime\<close>

definition digit_chars :: "string \<Rightarrow> bool" where
  "digit_chars s = list_all (\<lambda>c. 48 \<le> (of_char c :: nat) \<and> (of_char c :: nat) \<le> 57) s"

definition number_of :: "string \<Rightarrow> int" where
  "number_of s = foldl (\<lambda>n c. n * 10 + (of_char c - 48)) 0 s"

text \<open>
  \<open>Math.round(Number('0.' + frac) * 1000)\<close> in double arithmetic: the decimal and the product are each rounded
  to 53 bits, ties to even. A double is a mantissa and the power of two it is divided by.
\<close>

definition round_even :: "int \<Rightarrow> int \<Rightarrow> int" where
  "round_even n d = (let q = n div d; r = n mod d in
     if 2 * r < d \<or> (2 * r = d \<and> even q) then q else q + 1)"

function bit_length :: "int \<Rightarrow> nat" where
  "bit_length n = (if n \<le> 0 then 0 else Suc (bit_length (n div 2)))"
  by pat_completeness auto
termination by (relation "measure nat") auto

declare bit_length.simps [simp del]

definition to_double :: "int \<Rightarrow> int \<Rightarrow> int \<times> nat" where
  "to_double n d = (let k0 = 53 + bit_length d - bit_length n;
       k = (if n * 2 ^ k0 div d < 2 ^ 53 then k0 else k0 - 1)
     in (round_even (n * 2 ^ k) d, k))"

definition fraction_ms :: "string \<Rightarrow> int" where
  "fraction_ms frac = (let n = number_of frac in
     if n = 0 then 0
     else case to_double n (10 ^ length frac) of (m, k) \<Rightarrow>
       let p = m * 1000; j = bit_length p - 53; m' = round_even p (2 ^ j)
       in (2 * (m' * 2 ^ j) + 2 ^ k) div 2 ^ Suc k)"

text \<open>\<open>Date.UTC\<close> of a month index and day counted from 1, with the years 0 to 99 read as 1900 to 1999.\<close>

definition day_from_year :: "int \<Rightarrow> int" where
  "day_from_year y = 365 * (y - 1970) + (y - 1969) div 4 - (y - 1901) div 100 + (y - 1601) div 400"

definition leap_year :: "int \<Rightarrow> bool" where
  "leap_year y = (y mod 4 = 0 \<and> (y mod 100 \<noteq> 0 \<or> y mod 400 = 0))"

definition month_start :: "int \<Rightarrow> nat \<Rightarrow> int" where
  "month_start y m = [0, 31, 59, 90, 120, 151, 181, 212, 243, 273, 304, 334] ! m + (if leap_year y \<and> m \<ge> 2 then 1 else 0)"

definition date_utc :: "int \<Rightarrow> int \<Rightarrow> int \<Rightarrow> int \<Rightarrow> int \<Rightarrow> int \<Rightarrow> int \<Rightarrow> int" where
  "date_utc y0 mo d h mi s ms = (let y = (if 0 \<le> y0 \<and> y0 \<le> 99 then 1900 + y0 else y0);
       ym = y + mo div 12; m = nat (mo mod 12);
       day = day_from_year ym + month_start ym m + d - 1
     in day * 86400000 + h * 3600000 + mi * 60000 + s * 1000 + ms)"

text \<open>\<open>/^(\d{4})(\d{2})(\d{2})(\d{2})(\d{2})(\d{2})(?:\.(\d+))?Z$/\<close>.\<close>

definition time_fraction :: "string \<Rightarrow> string option" where
  "time_fraction tail = (case tail of [] \<Rightarrow> None
     | c # r \<Rightarrow> if c = CHR ''Z'' \<and> r = [] then Some []
         else if c = CHR ''.'' \<and> r \<noteq> [] \<and> last r = CHR ''Z'' \<and> butlast r \<noteq> [] \<and> digit_chars (butlast r) then Some (butlast r)
         else None)"

definition generalized_time :: "der \<Rightarrow> int option" where
  "generalized_time node = (let text = ascii_text (d_body node); field = (\<lambda>a b. number_of (slice text a b)) in
     if length text < 15 \<or> \<not> digit_chars (take 14 text) then None
     else case time_fraction (drop 14 text) of None \<Rightarrow> None
     | Some frac \<Rightarrow> Some (date_utc (field 0 4) (field 4 6 - 1) (field 6 8) (field 8 10) (field 10 12) (field 12 14)
         (if frac = [] then 0 else fraction_ms frac)))"

section \<open>The token\<close>

datatype ts_reason = No_tsa_root | Not_signed_data | Not_tst_info | No_signer_certificate | No_signer_info | Not_der
  | Imprint_not_sha256 | Imprint_other_core | Gen_time_unreadable | Tst_info_unreadable | No_signed_attributes
  | Content_type_not_tst_info | Digest_differs | Token_signature | Signer_not_pinned | Signer_not_valid | No_time_stamping

datatype timestamp_outcome = Ts_ok int int int | Ts_bad ts_reason

definition first_child :: "bytes \<Rightarrow> der run" where
  "first_child b = run_bind (children_lenient b) (\<lambda>ks. nth_node ks 0)"

text \<open>\<open>children(read(b, 0).body)\<close>.\<close>

definition top_children :: "bytes \<Rightarrow> der list run" where
  "top_children b = children_lenient (d_body (der_at b 0))"

record token =
  tk_content :: bytes
  tk_certificate :: x509
  tk_signer_info :: "der list"

definition signed_fields :: "pki \<Rightarrow> der list \<Rightarrow> (ts_reason + token) run" where
  "signed_fields K signed_data =
     run_bind (nth_node signed_data 2) (\<lambda>encap_node. run_bind (children_lenient (d_body encap_node)) (\<lambda>encap.
     run_bind (nth_node encap 0) (\<lambda>content_type.
     if oid_shift content_type \<noteq> Some OID_tstInfo then ret (Inl Not_tst_info)
     else run_bind (nth_node encap 1) (\<lambda>explicit. run_bind (first_child (d_body explicit)) (\<lambda>content.
       case List.find (\<lambda>n. d_class n = 2 \<and> d_tag n = 0) signed_data of None \<Rightarrow> ret (Inl No_signer_certificate)
       | Some certs \<Rightarrow> run_bind (first_child (d_body certs)) (\<lambda>cert_node.
           case parse_cert K (d_raw cert_node) of None \<Rightarrow> throw Plain_error
           | Some certificate \<Rightarrow> (let infos = last signed_data in
               if d_class infos \<noteq> 0 \<or> d_tag infos \<noteq> 17 then ret (Inl No_signer_info)
               else run_bind (first_child (d_body infos)) (\<lambda>info_node. run_bind (children_lenient (d_body info_node)) (\<lambda>info.
                 ret (Inr \<lparr>tk_content = d_body content, tk_certificate = certificate, tk_signer_info = info\<rparr>))))))))))"

definition read_token :: "pki \<Rightarrow> bytes \<Rightarrow> (ts_reason + token) run" where
  "read_token K tsr = catching (run_bind (top_children tsr) (\<lambda>content_info.
     run_bind (nth_node content_info 0) (\<lambda>type_node.
     if oid_shift type_node \<noteq> Some OID_signedData then ret (Inl Not_signed_data)
     else run_bind (nth_node content_info 1) (\<lambda>explicit. run_bind (first_child (d_body explicit)) (\<lambda>sequence.
       run_bind (children_lenient (d_body sequence)) (signed_fields K)))))) (Inl Not_der)"

text \<open>The TSTInfo: the imprint is the core hash, and the instant is readable.\<close>

definition read_gen_time :: "bytes \<Rightarrow> bytes \<Rightarrow> (ts_reason + int) run" where
  "read_gen_time content core = catching (run_bind (top_children content) (\<lambda>tst.
     run_bind (nth_node tst 2) (\<lambda>imprint_node. run_bind (children_lenient (d_body imprint_node)) (\<lambda>imprint.
     run_bind (nth_node imprint 0) (\<lambda>algorithm. run_bind (first_child (d_body algorithm)) (\<lambda>alg_oid.
     if oid_shift alg_oid \<noteq> Some OID_sha256 then ret (Inl Imprint_not_sha256)
     else run_bind (nth_node imprint 1) (\<lambda>digest.
       if d_body digest \<noteq> core then ret (Inl Imprint_other_core)
       else run_bind (nth_node tst 4) (\<lambda>time. case generalized_time time of None \<Rightarrow> ret (Inl Gen_time_unreadable)
         | Some t \<Rightarrow> ret (Inr t)))))))) ) (Inl Tst_info_unreadable)"

text \<open>The loop over the signed attributes: the digest and the content type seen last.\<close>

fun attributes_loop :: "der list \<Rightarrow> bytes option \<Rightarrow> int list option option \<Rightarrow> (bytes option \<times> int list option option) run" where
  "attributes_loop [] digest content_type = ret (digest, content_type)"
| "attributes_loop (attribute # rest) digest content_type =
     run_bind (children_lenient (d_body attribute)) (\<lambda>parts.
     run_bind (nth_node parts 0) (\<lambda>type_node. run_bind (nth_node parts 1) (\<lambda>set_node.
     run_bind (children_lenient (d_body set_node)) (\<lambda>values.
     let ty = oid_shift type_node in
     run_bind (if ty = Some OID_messageDigest then run_bind (nth_node values 0) (\<lambda>v. ret (Some (d_body v))) else ret digest) (\<lambda>digest'.
     run_bind (if ty = Some OID_contentType then run_bind (nth_node values 0) (\<lambda>v. ret (Some (oid_shift v))) else ret content_type) (\<lambda>content_type'.
       attributes_loop rest digest' content_type'))))))"

text \<open>\<open>hasTimeStamping\<close>: the first extended key usage decides, and an exception is \<open>false\<close>.\<close>

fun some_usage :: "der list \<Rightarrow> bool" where
  "some_usage us = list_ex (\<lambda>u. oid_shift u = Some OID_timeStamping) us"

fun usage_loop :: "der list \<Rightarrow> bool run" where
  "usage_loop [] = ret False"
| "usage_loop (extension # rest) = run_bind (children_lenient (d_body extension)) (\<lambda>parts.
     run_bind (nth_node parts 0) (\<lambda>extn.
     if oid_shift extn \<noteq> Some OID_extendedKeyUsage then usage_loop rest
     else run_bind (top_children (d_body (last parts))) (\<lambda>usages. ret (some_usage usages))))"

definition has_time_stamping :: "bytes \<Rightarrow> bool run" where
  "has_time_stamping raw = catching (run_bind (top_children raw) (\<lambda>top. run_bind (nth_node top 0) (\<lambda>tbs_node.
     run_bind (children_lenient (d_body tbs_node)) (\<lambda>tbs. case List.find (\<lambda>n. d_class n = 2 \<and> d_tag n = 3) tbs of
       None \<Rightarrow> ret False
     | Some extensions \<Rightarrow> run_bind (first_child (d_body extensions)) (\<lambda>sequence.
         run_bind (children_lenient (d_body sequence)) usage_loop))))) False"

text \<open>\<open>attrs.raw\<close> with its tag rewritten to SET OF.\<close>

definition as_set :: "bytes \<Rightarrow> bytes" where
  "as_set raw = (case raw of [] \<Rightarrow> [] | b # bs \<Rightarrow> 0x31 # bs)"

definition check_signer :: "pki \<Rightarrow> x509 \<Rightarrow> int \<Rightarrow> x509 list \<Rightarrow> timestamp_outcome run" where
  "check_signer K certificate gen_time roots = run_bind (find_root K certificate roots) (\<lambda>root.
     if root = None then ret (Ts_bad Signer_not_pinned)
     else if x_from certificate > gen_time \<or> gen_time > x_to certificate then ret (Ts_bad Signer_not_valid)
     else run_bind (has_time_stamping (x_raw certificate)) (\<lambda>b.
       ret (if b then Ts_ok gen_time (x_from certificate) (x_to certificate) else Ts_bad No_time_stamping)))"

definition check_attributes :: "platform \<Rightarrow> pki \<Rightarrow> token \<Rightarrow> int \<Rightarrow> x509 list \<Rightarrow> timestamp_outcome run" where
  "check_attributes P K tok gen_time roots = (case List.find (\<lambda>n. d_class n = 2 \<and> d_tag n = 0) (tk_signer_info tok) of
     None \<Rightarrow> ret (Ts_bad No_signed_attributes)
   | Some attrs \<Rightarrow> run_bind (children_lenient (d_body attrs)) (\<lambda>as. run_bind (attributes_loop as None None) (\<lambda>(digest, content_type).
       if content_type \<noteq> Some (Some OID_tstInfo) then ret (Ts_bad Content_type_not_tst_info)
       else if digest \<noteq> Some (sha256 P (tk_content tok)) then ret (Ts_bad Digest_differs)
       else (case cert_verify K (tk_certificate tok) (as_set (d_raw attrs)) (d_body (last (tk_signer_info tok))) of
           None \<Rightarrow> throw Plain_error
         | Some False \<Rightarrow> ret (Ts_bad Token_signature)
         | Some True \<Rightarrow> check_signer K (tk_certificate tok) gen_time roots))))"

definition verify_timestamp_token :: "platform \<Rightarrow> pki \<Rightarrow> bytes \<Rightarrow> bytes \<Rightarrow> x509 list \<Rightarrow> timestamp_outcome run" where
  "verify_timestamp_token P K tsr core roots =
     (if roots = [] then ret (Ts_bad No_tsa_root)
      else run_bind (read_token K tsr) (\<lambda>r. case r of Inl why \<Rightarrow> ret (Ts_bad why)
      | Inr tok \<Rightarrow> run_bind (read_gen_time (tk_content tok) core) (\<lambda>g. case g of Inl why \<Rightarrow> ret (Ts_bad why)
        | Inr gen_time \<Rightarrow> check_attributes P K tok gen_time roots)))"

section \<open>What an accepted token shows\<close>

lemma catching_ret: "catching m d = ret x \<Longrightarrow> x \<noteq> d \<Longrightarrow> m = ret x"
  by (auto simp: catching_def ret_def split: option.splits sum.splits)

lemma nth_node_ret: "nth_node ns i = ret n \<longleftrightarrow> i < length ns \<and> ns ! i = n"
  by (auto simp: nth_node_def ret_def throw_def split: option.splits)

lemma run_bind_ret: "run_bind m f = ret y \<longleftrightarrow> (\<exists>x. m = ret x \<and> f x = ret y)"
  by (auto simp: run_bind_def ret_def split: option.split sum.split)

text \<open>The two fields of the TSTInfo the verifier reads.\<close>

definition stamps :: "bytes \<Rightarrow> bytes \<Rightarrow> int \<Rightarrow> bool" where
  "stamps content core t = (\<exists>tst imprint. top_children content = ret tst \<and> 4 < length tst
     \<and> children_lenient (d_body (tst ! 2)) = ret imprint \<and> 1 < length imprint \<and> d_body (imprint ! 1) = core
     \<and> (\<exists>alg. first_child (d_body (imprint ! 0)) = ret alg \<and> oid_shift alg = Some OID_sha256)
     \<and> generalized_time (tst ! 4) = Some t)"

lemma read_gen_time_stamps:
  assumes "read_gen_time content core = ret (Inr t)"
  shows "stamps content core t"
proof -
  note r = catching_ret [OF assms [unfolded read_gen_time_def]]
  show ?thesis using r unfolding run_bind_ret stamps_def
    by (auto simp: run_bind_ret nth_node_ret split: if_splits option.splits)
qed

definition pinned_signer :: "pki \<Rightarrow> x509 list \<Rightarrow> x509 \<Rightarrow> bool" where
  "pinned_signer K roots c = (\<exists>r \<in> set roots. x_raw r = x_raw c \<or> signed_by K c r = ret True)"

lemma check_signer_ok:
  assumes "check_signer K c t roots = ret (Ts_ok t' from to)"
  shows "t' = t \<and> from = x_from c \<and> to = x_to c \<and> from \<le> t \<and> t \<le> to \<and> pinned_signer K roots c
    \<and> has_time_stamping (x_raw c) = ret True"
proof -
  from assms obtain root where r: "find_root K c roots = ret root" "root \<noteq> None"
    by (auto simp: check_signer_def run_bind_ret split: if_splits)
  then obtain rt where "find_root K c roots = ret (Some rt)" by blast
  from find_root_Some [OF this] have "pinned_signer K roots c" by (auto simp: pinned_signer_def)
  then show ?thesis using assms r by (auto simp: check_signer_def run_bind_ret split: if_splits)
qed

lemma check_attributes_ok:
  assumes "check_attributes P K tok t roots = ret (Ts_ok t' from to)"
  shows "\<exists>attrs as. attrs \<in> set (tk_signer_info tok) \<and> children_lenient (d_body attrs) = ret as
    \<and> attributes_loop as None None = ret (Some (sha256 P (tk_content tok)), Some (Some OID_tstInfo))
    \<and> cert_verify K (tk_certificate tok) (as_set (d_raw attrs)) (d_body (last (tk_signer_info tok))) = Some True
    \<and> check_signer K (tk_certificate tok) t roots = ret (Ts_ok t' from to)"
proof -
  obtain attrs where a: "List.find (\<lambda>n. d_class n = 2 \<and> d_tag n = 0) (tk_signer_info tok) = Some attrs"
    using assms by (auto simp: check_attributes_def split: option.splits)
  then have m: "attrs \<in> set (tk_signer_info tok)" by (auto simp: find_Some_iff)
  from assms a obtain as digest content_type where l: "children_lenient (d_body attrs) = ret as"
    "attributes_loop as None None = ret (digest, content_type)"
    by (auto simp: check_attributes_def run_bind_ret)
  with assms a have "content_type = Some (Some OID_tstInfo)" "digest = Some (sha256 P (tk_content tok))"
    "cert_verify K (tk_certificate tok) (as_set (d_raw attrs)) (d_body (last (tk_signer_info tok))) = Some True"
    "check_signer K (tk_certificate tok) t roots = ret (Ts_ok t' from to)"
    by (auto simp: check_attributes_def run_bind_ret split: if_splits option.splits bool.splits)
  with m l show ?thesis by blast
qed

text \<open>C34. A token that is accepted stamps this very core: its TSTInfo holds the core hash under SHA-256 and the instant, the
  signed attributes hold the hash of that TSTInfo and its type, the signer signed them, and the signer is pinned, was
  valid at the instant and may stamp time.\<close>

theorem timestamp_sound:
  assumes "verify_timestamp_token P K tsr core roots = ret (Ts_ok t from to)"
  shows "\<exists>tok attrs as. read_token K tsr = ret (Inr tok) \<and> stamps (tk_content tok) core t
    \<and> attrs \<in> set (tk_signer_info tok) \<and> children_lenient (d_body attrs) = ret as
    \<and> attributes_loop as None None = ret (Some (sha256 P (tk_content tok)), Some (Some OID_tstInfo))
    \<and> cert_verify K (tk_certificate tok) (as_set (d_raw attrs)) (d_body (last (tk_signer_info tok))) = Some True
    \<and> pinned_signer K roots (tk_certificate tok) \<and> x_from (tk_certificate tok) \<le> t \<and> t \<le> x_to (tk_certificate tok)
    \<and> has_time_stamping (x_raw (tk_certificate tok)) = ret True"
proof -
  from assms obtain r where r: "read_token K tsr = ret r" "(case r of Inl why \<Rightarrow> ret (Ts_bad why)
      | Inr tok \<Rightarrow> run_bind (read_gen_time (tk_content tok) core) (\<lambda>g. case g of Inl why \<Rightarrow> ret (Ts_bad why)
        | Inr gen_time \<Rightarrow> check_attributes P K tok gen_time roots)) = ret (Ts_ok t from to)"
    by (auto simp: verify_timestamp_token_def run_bind_ret split: if_splits)
  then obtain tok where tok: "r = Inr tok" by (cases r) auto
  with r obtain g where g: "read_gen_time (tk_content tok) core = ret g" "(case g of Inl why \<Rightarrow> ret (Ts_bad why)
      | Inr gen_time \<Rightarrow> check_attributes P K tok gen_time roots) = ret (Ts_ok t from to)"
    by (auto simp: run_bind_ret)
  then obtain t0 where "g = Inr t0" by (cases g) auto
  with r tok g have s: "read_token K tsr = ret (Inr tok)" "read_gen_time (tk_content tok) core = ret (Inr t0)"
    "check_attributes P K tok t0 roots = ret (Ts_ok t from to)" by simp_all
  from check_attributes_ok [OF s(3)] obtain attrs as where a: "attrs \<in> set (tk_signer_info tok)"
    "children_lenient (d_body attrs) = ret as"
    "attributes_loop as None None = ret (Some (sha256 P (tk_content tok)), Some (Some OID_tstInfo))"
    "cert_verify K (tk_certificate tok) (as_set (d_raw attrs)) (d_body (last (tk_signer_info tok))) = Some True"
    "check_signer K (tk_certificate tok) t0 roots = ret (Ts_ok t from to)" by blast
  from check_signer_ok [OF a(5)] show ?thesis
    using s(1) read_gen_time_stamps [OF s(2)] a by blast
qed

text \<open>Tokens for the witnesses: SEQUENCE by SEQUENCE as a TSA would write them, over a one-byte core hash.\<close>

definition demo_tsa_der :: bytes where
  "demo_tsa_der = [48, 27, 48, 25, 163, 23, 48, 21, 48, 19, 6, 3, 85, 29, 37, 4, 12, 48, 10, 6, 8, 43, 6, 1, 5, 5, 7, 3, 8]"

definition demo_token :: bytes where
  "demo_token = [48, 129, 208, 6, 9, 42, 134, 72, 134, 247, 13, 1, 7, 2, 160, 129, 194, 48, 129, 191, 2, 1, 3, 49, 0, 48, 64, 6, 11, 42, 134, 72, 134, 247, 13, 1, 9, 16, 1, 4, 160, 49, 4, 47, 48, 45, 2, 1, 1, 6, 2, 42, 3, 48, 16, 48, 11, 6, 9, 96, 134, 72, 1, 101, 3, 4, 2, 1, 4, 1, 7, 2, 1, 1, 24, 15, 50, 48, 50, 53, 48, 49, 48, 50, 48, 51, 48, 52, 48, 53, 90, 160, 29, 48, 27, 48, 25, 163, 23, 48, 21, 48, 19, 6, 3, 85, 29, 37, 4, 12, 48, 10, 6, 8, 43, 6, 1, 5, 5, 7, 3, 8, 49, 87, 48, 85, 2, 1, 1, 160, 77, 48, 26, 6, 9, 42, 134, 72, 134, 247, 13, 1, 9, 3, 49, 13, 6, 11, 42, 134, 72, 134, 247, 13, 1, 9, 16, 1, 4, 48, 47, 6, 9, 42, 134, 72, 134, 247, 13, 1, 9, 4, 49, 34, 4, 32, 96, 134, 72, 1, 101, 3, 4, 2, 1, 4, 1, 7, 2, 1, 1, 24, 15, 50, 48, 50, 53, 48, 49, 48, 50, 48, 51, 48, 52, 48, 53, 90, 4, 1, 7]"

definition empty_attribute_token :: bytes where
  "empty_attribute_token = [48, 129, 131, 6, 9, 42, 134, 72, 134, 247, 13, 1, 7, 2, 160, 118, 48, 116, 2, 1, 3, 49, 0, 48, 64, 6, 11, 42, 134, 72, 134, 247, 13, 1, 9, 16, 1, 4, 160, 49, 4, 47, 48, 45, 2, 1, 1, 6, 2, 42, 3, 48, 16, 48, 11, 6, 9, 96, 134, 72, 1, 101, 3, 4, 2, 1, 4, 1, 7, 2, 1, 1, 24, 15, 50, 48, 50, 53, 48, 49, 48, 50, 48, 51, 48, 52, 48, 53, 90, 160, 29, 48, 27, 48, 25, 163, 23, 48, 21, 48, 19, 6, 3, 85, 29, 37, 4, 12, 48, 10, 6, 8, 43, 6, 1, 5, 5, 7, 3, 8, 49, 12, 48, 10, 2, 1, 1, 160, 2, 48, 0, 4, 1, 7]"

definition demo_tsa :: pki where
  "demo_tsa = \<lparr>parse_cert = (\<lambda>b. if b = demo_tsa_der
       then Some \<lparr>x_raw = demo_tsa_der, x_spki = Some [2], x_from = 0, x_to = 2000000000000, x_serial = []\<rparr> else None),
     cert_signed_by = (\<lambda>c key. key = [2]), cert_verify = (\<lambda>c m s. Some True)\<rparr>"

theorem timestamp_sound_witness:
  "verify_timestamp_token tail_platform demo_tsa demo_token [7] [demo_root] = ret (Ts_ok 1735787045000 0 2000000000000)
    \<and> (\<exists>tok. read_token demo_tsa demo_token = ret (Inr tok) \<and> stamps (tk_content tok) [7] 1735787045000)"
proof -
  have v: "verify_timestamp_token tail_platform demo_tsa demo_token [7] [demo_root] = ret (Ts_ok 1735787045000 0 2000000000000)"
    by code_simp
  from timestamp_sound [OF v] v show ?thesis by blast
qed

section \<open>Tokens the verifier does not survive\<close>

text \<open>C37. A token whose first element holds an element of length -6 keeps the verifier reading for ever, whatever the core, the
  roots and the keys: the token is not covered by the core's signature, so anyone can add it to a proof.\<close>

theorem timestamp_token_diverges:
  assumes "roots \<noteq> []"
  shows "verify_timestamp_token P K (0x30 # 6 # minus_six 0x30) core roots = None"
proof -
  have b: "d_body (der_at (0x30 # 6 # minus_six 0x30) 0) = minus_six 0x30"
    by (simp add: der_at_def minus_six_def byte_at_def length_at_def at_def subarray_def clamp_def slice_def Let_def)
  have "elements (read_lenient (minus_six 0x30)) (int (length (minus_six 0x30))) (Some 0) [] = None"
    using minus_six_end [of "0x30" "[]"] by (intro elements_stuck [of _ _ "der_at (minus_six 0x30) 0"]) (simp_all add: read_lenient_def minus_six_def)
  then have "top_children (0x30 # 6 # minus_six 0x30) = None" by (simp add: top_children_def b children_lenient_def)
  then show ?thesis using assms by (simp add: verify_timestamp_token_def read_token_def)
qed

theorem timestamp_token_diverges_witness:
  "verify_timestamp_token tail_platform demo_tsa (0x30 # 6 # minus_six 0x30) [7] [demo_root] = None"
  by (rule timestamp_token_diverges) simp

text \<open>A readable token whose signed attributes hold an empty attribute makes the verifier throw a TypeError that nothing
  catches: the loop over the attributes is outside the two blocks that turn an exception into a reason.\<close>

theorem timestamp_attribute_throws:
  "verify_timestamp_token tail_platform demo_tsa empty_attribute_token [7] [demo_root] = throw Type_error"
  by code_simp

end
