(* ===== verification/Shape.thy ===== *)
theory Shape
  imports Core Json
begin

text \<open>
  The checks of \<open>tools/src/verify.ts\<close> that come before any evidence is weighed: the version of a proof, the
  shape of the fields the verifier reads, and the claimed level. A proof is the object the reader returned.
\<close>

section \<open>Keys, version and claim\<close>

definition KNOWN_KEYS :: "string list" where
  "KNOWN_KEYS = [''v'', ''capture_id'', ''media'', ''device'', ''watermark'', ''time'', ''location'', ''policy'',
     ''sig'', ''segments'', ''attestation'', ''attestation_status'', ''registry'', ''timestamp'', ''anchor'', ''integrity'',
     ''location_corroboration'']"

text \<open>\<open>k in proof\<close> and \<open>Object.keys(proof)\<close>.\<close>

definition carries :: "json \<Rightarrow> string \<Rightarrow> bool" where
  "carries v k = (member v k \<noteq> None)"

fun keys_of :: "json \<Rightarrow> jsstr list" where
  "keys_of (JObj ms) = map fst ms"
| "keys_of v = []"

definition unknown_keys :: "json \<Rightarrow> jsstr list" where
  "unknown_keys proof = sort (filter (\<lambda>k. k \<notin> js ` set KNOWN_KEYS) (keys_of proof))"

text \<open>\<open>/^vcap\/(\d+)\.(\d+)$/\<close>: the two numbers as they are written.\<close>

definition version_of :: "json option \<Rightarrow> (jsstr \<times> jsstr) option" where
  "version_of v = (case str_of v of None \<Rightarrow> None
     | Some s \<Rightarrow> if take 5 s \<noteq> js ''vcap/'' then None
         else let major = takeWhile is_digit (drop 5 s); rest = dropWhile is_digit (drop 5 s); minor = tl rest in
           if major = [] \<or> rest = [] \<or> hd rest \<noteq> 46 \<or> minor = [] \<or> \<not> list_all is_digit minor then None
           else Some (major, minor))"

definition PLATFORMS :: "string list" where "PLATFORMS = [''android'', ''ios'', ''web'']"
definition SECURE_HW :: "string list" where "SECURE_HW = [''strongbox'', ''tee'', ''secureEnclave'', ''none'']"

definition name_in :: "string list \<Rightarrow> json option \<Rightarrow> string option" where
  "name_in names v = List.find (\<lambda>n. v = Some (JStr (js n))) names"

definition claimed_level :: "json \<Rightarrow> string" where
  "claimed_level device = (case (name_in PLATFORMS (member device ''platform''), name_in SECURE_HW (member device ''secure_hw'')) of
     (Some _, Some hw) \<Rightarrow> hw | _ \<Rightarrow> ''none'')"

section \<open>Shapes\<close>

fun has_non_integer :: "json \<Rightarrow> bool" where
  "has_non_integer (JNum n) = (case n of NInt _ \<Rightarrow> False | NDouble is_integer _ \<Rightarrow> \<not> is_integer | NNonFinite \<Rightarrow> True)"
| "has_non_integer (JArr vs) = list_ex has_non_integer vs"
| "has_non_integer (JObj ms) = list_ex (\<lambda>m. has_non_integer (snd m)) ms"
| "has_non_integer v = False"

definition b64url_len :: "json option \<Rightarrow> nat \<Rightarrow> bool" where
  "b64url_len v n = (case str_of v of None \<Rightarrow> False
     | Some s \<Rightarrow> s \<noteq> [] \<and> list_all b64url_unit s \<and> length (b64_decode s) = n)"

text \<open>\<open>Number.isInteger(x) && low <= x && x <= high\<close>.\<close>

definition int_between :: "int \<Rightarrow> int \<Rightarrow> json option \<Rightarrow> bool" where
  "int_between low high v = (case int_of v of None \<Rightarrow> False | Some i \<Rightarrow> low \<le> i \<and> i \<le> high)"

definition at_least_one :: "json option \<Rightarrow> bool" where
  "at_least_one v = (case int_of v of None \<Rightarrow> False | Some i \<Rightarrow> 1 \<le> i)"

definition ints_between :: "nat \<Rightarrow> int \<Rightarrow> int \<Rightarrow> json option \<Rightarrow> bool" where
  "ints_between n low high v = (case arr_of v of None \<Rightarrow> False
     | Some vs \<Rightarrow> length vs = n \<and> list_all (\<lambda>x. int_between low high (Some x)) vs)"

definition presentation_shape :: "json \<Rightarrow> bool" where
  "presentation_shape v = (is_object v
     \<and> (case str_of (member v ''config'') of None \<Rightarrow> False | Some s \<Rightarrow> length s = 43 \<and> list_all b64url_unit s)
     \<and> ints_between 9 (- 0x80000000) 0x7fffffff (member v ''matrix'')
     \<and> ints_between 2 0 0xffffffff (member v ''display''))"

definition timing_shape :: "json \<Rightarrow> bool" where
  "timing_shape v = (is_object v
     \<and> list_all (\<lambda>k. k \<in> {js ''video_timescale'', js ''audio_timescale'', js ''root''}) (keys_of v)
     \<and> int_between 1 0xffffffff (member v ''video_timescale'')
     \<and> (carries v ''audio_timescale'' \<longrightarrow> int_between 1 0xffffffff (member v ''audio_timescale''))
     \<and> b64url_len (member v ''root'') 32)"

section \<open>shapeProblem\<close>

definition core_object :: "json \<Rightarrow> json" where
  "core_object proof = extract_core proof"

datatype shape_problem = Capture_id_malformed | Media_incomplete | Media_size_missing | Device_incomplete | Sig_incomplete
  | Video_without_segments | Segments_not_array | Segment_count_missing | Presentation_missing | Timing_missing
  | Segment_timing_malformed | Presentation_malformed | Timing_malformed | Floating_point_in_core

definition texts :: "json \<Rightarrow> string list \<Rightarrow> bool" where
  "texts v ks = list_all (\<lambda>k. str_of (member v k) \<noteq> None) ks"

definition field :: "json \<Rightarrow> string \<Rightarrow> json" where
  "field v k = (case member v k of None \<Rightarrow> JNull | Some x \<Rightarrow> x)"

definition segments_problem :: "json \<Rightarrow> shape_problem option" where
  "segments_problem proof = (let media = field proof ''media'' in
     if \<not> carries proof ''segments'' then None
     else case arr_of (member proof ''segments'') of None \<Rightarrow> Some Segments_not_array
     | Some entries \<Rightarrow>
       if int_of (member media ''segment_count'') = None then Some Segment_count_missing
       else if \<not> carries media ''presentation'' then Some Presentation_missing
       else if \<not> carries media ''timing'' then Some Timing_missing
       else if \<not> list_all (\<lambda>e. is_object e \<and> b64url_len (member e ''timing'') 32) entries then Some Segment_timing_malformed
       else None)"

definition shape_problem :: "json \<Rightarrow> shape_problem option" where
  "shape_problem proof = (let media = field proof ''media''; device = field proof ''device''; sg = field proof ''sig'' in
     if \<not> b64url_len (member proof ''capture_id'') 16 then Some Capture_id_malformed
     else if \<not> is_object media \<or> \<not> texts media [''hash'', ''mime''] then Some Media_incomplete
     else if \<not> at_least_one (member media ''w'') \<or> \<not> at_least_one (member media ''h'')
       then Some Media_size_missing
     else if \<not> is_object device \<or> \<not> texts device [''platform'', ''secure_hw'', ''key_id''] then Some Device_incomplete
     else if \<not> is_object sg \<or> \<not> texts sg [''value'', ''pub'', ''alg''] then Some Sig_incomplete
     else if take 6 (the (str_of (member media ''mime''))) = js ''video/'' \<and> \<not> carries proof ''segments'' then Some Video_without_segments
     else case segments_problem proof of Some p \<Rightarrow> Some p
     | None \<Rightarrow>
       if carries media ''presentation'' \<and> \<not> presentation_shape (field media ''presentation'') then Some Presentation_malformed
       else if carries media ''timing'' \<and> \<not> timing_shape (field media ''timing'') then Some Timing_malformed
       else if has_non_integer (core_object proof) then Some Floating_point_in_core
       else None)"

end
