(* ===== verification/Binding.thy ===== *)
theory Binding
  imports Shape Segments Container
begin

text \<open>
  How \<open>tools/src/verify.ts\<close> binds the segments a proof signs to the GOPs of the received file: which are located
  and match (\<open>bindSegments\<close>), whether the file presents them as the core says, and whether it shows them at
  the signed instants. A signed presentation or timing is the JSON value the shape check has accepted.
\<close>

section \<open>Entries\<close>

text \<open>The entries of \<open>proof.segments\<close>, whose index the code takes to be a number.\<close>

definition entry_of :: "json \<Rightarrow> fault + segment_entry" where
  "entry_of e = (case int_of (member e ''gop'') of None \<Rightarrow> Inl Untyped
     | Some i \<Rightarrow> Inr \<lparr>gop = i, e_hash = member e ''hash'', e_prev = member e ''prev'', e_sig = member e ''sig'',
         e_timing = member e ''timing''\<rparr>)"

definition entries_of_proof :: "json \<Rightarrow> fault + segment_entry list" where
  "entries_of_proof proof = (case arr_of (member proof ''segments'') of None \<Rightarrow> Inl Untyped | Some es \<Rightarrow> rmap entry_of es)"

section \<open>Presentation and timing\<close>

definition ints_of :: "json option \<Rightarrow> int list" where
  "ints_of v = (case arr_of v of None \<Rightarrow> [] | Some vs \<Rightarrow> List.map_filter (\<lambda>x. int_of (Some x)) vs)"

definition presentation_differs :: "json \<Rightarrow> presentation option \<Rightarrow> bool" where
  "presentation_differs core_says reading = (case reading of None \<Rightarrow> True
     | Some r \<Rightarrow> Some (JStr (b64url_encode (pr_config r))) \<noteq> member core_says ''config''
         \<or> pr_matrix r \<noteq> ints_of (member core_says ''matrix'')
         \<or> [int (fst (pr_display r)), int (snd (pr_display r))] \<noteq> ints_of (member core_says ''display''))"

definition signed_timescales :: "json \<Rightarrow> timescales" where
  "signed_timescales core_says = \<lparr>ts_video = the (int_of (member core_says ''video_timescale'')),
     ts_audio = int_of (member core_says ''audio_timescale'')\<rparr>"

definition timing_entries_complete :: "segment_entry list \<Rightarrow> int \<Rightarrow> bool" where
  "timing_entries_complete entries many = (let indices = remdups (map gop entries) in
     int (length entries) = many \<and> int (length indices) = many \<and> list_all (\<lambda>i. 0 \<le> i \<and> i < many) indices)"

text \<open>A timing error leaves the verifier as a plain error.\<close>

definition untimed :: "timing_error + 'a \<Rightarrow> fault + 'a" where
  "untimed r = (case r of Inl _ \<Rightarrow> Inl Plain_error | Inr x \<Rightarrow> Inr x)"

definition timing_bytes :: "segment_entry \<Rightarrow> bytes" where
  "timing_bytes e = (case str_of (e_timing e) of None \<Rightarrow> [] | Some s \<Rightarrow> b64_decode s)"

definition entries_root :: "platform \<Rightarrow> segment_entry list \<Rightarrow> fault + bytes" where
  "entries_root P entries = untimed (timing_root P (map timing_bytes (sort_key gop entries)))"

datatype timing_problem = Timing_not_authenticated | Not_in_signed_timescales int | Timing_read_back int
  | Video_edit_trims int | Audio_edit_trims int

definition segment_timing_problem :: "platform \<Rightarrow> gops_reading \<Rightarrow> timescales \<Rightarrow> (int \<Rightarrow> segment_entry option) \<Rightarrow> int \<Rightarrow> segment
    \<Rightarrow> fault + timing_problem option" where
  "segment_timing_problem P rd scales ents index g =
     rbind (untimed (received_timing_hash P (sg_timing g) (rd_timescales rd) scales)) (\<lambda>received. Inr (case received of
       None \<Rightarrow> Some (Not_in_signed_timescales index)
     | Some h \<Rightarrow>
         if Some (JStr (b64url_encode h)) \<noteq> Option.bind (ents index) e_timing then Some (Timing_read_back index)
         else if (case rd_edit_video rd of None \<Rightarrow> False | Some e \<Rightarrow> edit_trims e (sg_extent_video g)) then Some (Video_edit_trims index)
         else if (case (rd_edit_audio rd, sg_extent_audio g) of (Some e, Some x) \<Rightarrow> edit_trims e x | _ \<Rightarrow> False)
           then Some (Audio_edit_trims index)
         else None))"

fun clip_timing_loop :: "platform \<Rightarrow> gops_reading \<Rightarrow> timescales \<Rightarrow> (int \<Rightarrow> segment_entry option) \<Rightarrow> int list \<Rightarrow> segment list
    \<Rightarrow> fault + timing_problem option" where
  "clip_timing_loop P rd scales ents verified [] = Inr None"
| "clip_timing_loop P rd scales ents verified (g # gs) = (case sg_index g of
     None \<Rightarrow> clip_timing_loop P rd scales ents verified gs
   | Some i \<Rightarrow> if int i \<notin> set verified then clip_timing_loop P rd scales ents verified gs
       else rbind (segment_timing_problem P rd scales ents (int i) g) (\<lambda>p. case p of
           Some problem \<Rightarrow> Inr (Some problem)
         | None \<Rightarrow> clip_timing_loop P rd scales ents verified gs))"

definition clip_timing_problem :: "platform \<Rightarrow> gops_reading \<Rightarrow> json \<Rightarrow> segment_entry list \<Rightarrow> int list \<Rightarrow> bool
    \<Rightarrow> fault + timing_problem option" where
  "clip_timing_problem P rd core_says entries verified authenticated =
     (if \<not> authenticated then Inr (Some Timing_not_authenticated)
      else clip_timing_loop P rd (signed_timescales core_says) (by_index entries) verified (rd_gops rd))"

text \<open>\<open>ours\<close>: the SEI of a GOP names this capture.\<close>

definition ours :: "bytes \<Rightarrow> segment \<Rightarrow> bool" where
  "ours cid g = (sg_capture_id g = Some cid)"

text \<open>The map of the timing hashes read back; an index met twice keeps no hash.\<close>

fun timing_hashes :: "platform \<Rightarrow> gops_reading \<Rightarrow> timescales \<Rightarrow> bytes \<Rightarrow> segment list \<Rightarrow> (nat \<Rightarrow> bytes option option)
    \<Rightarrow> fault + (nat \<Rightarrow> bytes option option)" where
  "timing_hashes P rd scales cid [] m = Inr m"
| "timing_hashes P rd scales cid (g # gs) m = (case sg_index g of
     None \<Rightarrow> timing_hashes P rd scales cid gs m
   | Some i \<Rightarrow> if \<not> ours cid g then timing_hashes P rd scales cid gs m
       else if m i \<noteq> None then timing_hashes P rd scales cid gs (m(i \<mapsto> None))
       else rbind (untimed (received_timing_hash P (sg_timing g) (rd_timescales rd) scales)) (\<lambda>h.
         timing_hashes P rd scales cid gs (m(i \<mapsto> h))))"

definition original_timing_differs :: "platform \<Rightarrow> gops_reading \<Rightarrow> json \<Rightarrow> bytes \<Rightarrow> int \<Rightarrow> fault + bool" where
  "original_timing_differs P rd core_says cid many =
     rbind (timing_hashes P rd (signed_timescales core_says) cid (rd_gops rd) Map.empty) (\<lambda>m.
       case omap (\<lambda>n. Option.bind (m n) id) [0..<nat many] of None \<Rightarrow> Inr True
       | Some ordered \<Rightarrow> rbind (untimed (timing_root P ordered)) (\<lambda>root.
           Inr (Some (JStr (b64url_encode root)) \<noteq> member core_says ''root'')))"

section \<open>bindSegments\<close>

datatype binding_problem = Gop_problem nat sei_problem | No_sei nat | Other_capture nat | Many_seis nat nat
  | Not_signed nat int | Not_increasing nat int int | Content_differs int | Appears int nat

datatype not_located = Not_recomputed | No_gop_readable unreadable | No_gop_of_capture

datatype binding = Not_located not_located | Located "int list" "binding_problem list"

record bind_state =
  bs_problems :: "binding_problem list"
  bs_seen :: "int list"
  bs_matched :: "int list"
  bs_previous :: int

text \<open>One round of \<open>reading.gops.forEach\<close>; \<open>bs_seen\<close> lists the indices in the order they are met.\<close>

definition bind_step :: "bytes \<Rightarrow> (int \<Rightarrow> segment_entry option) \<Rightarrow> nat \<Rightarrow> segment \<Rightarrow> bind_state \<Rightarrow> bind_state" where
  "bind_step cid ents position g s = (case sg_problem g of
     Some p \<Rightarrow> s\<lparr>bs_problems := bs_problems s @ [Gop_problem position p]\<rparr>
   | None \<Rightarrow> (case sg_index g of
       None \<Rightarrow> s\<lparr>bs_problems := bs_problems s @ [No_sei position]\<rparr>
     | Some n \<Rightarrow> let i = int n in
         if \<not> ours cid g then s\<lparr>bs_problems := bs_problems s @ [Other_capture position]\<rparr>
         else let ps = bs_problems s @ (if sg_sei_count g > 1 then [Many_seis position (sg_sei_count g)] else []) in
         (case ents i of None \<Rightarrow> s\<lparr>bs_problems := ps @ [Not_signed position i]\<rparr>
          | Some entry \<Rightarrow> let
               ps' = ps @ (if i \<le> bs_previous s then [Not_increasing position i (bs_previous s)] else []);
               matches = (e_hash entry = Some (JStr (b64url_encode (sg_content_hash g))))
             in \<lparr>bs_problems = ps' @ (if matches then [] else [Content_differs i]), bs_seen = bs_seen s @ [i],
                  bs_matched = (if matches then bs_matched s @ [i] else bs_matched s),
                  bs_previous = max (bs_previous s) i\<rparr>)))"

fun bind_loop :: "bytes \<Rightarrow> (int \<Rightarrow> segment_entry option) \<Rightarrow> nat \<Rightarrow> segment list \<Rightarrow> bind_state \<Rightarrow> bind_state" where
  "bind_loop cid ents position [] s = s"
| "bind_loop cid ents position (g # gs) s = bind_loop cid ents (position + 1) gs (bind_step cid ents position g s)"

definition bind_start :: bind_state where
  "bind_start = \<lparr>bs_problems = [], bs_seen = [], bs_matched = [], bs_previous = - 1\<rparr>"

text \<open>The distinct elements in the order of their first occurrence, as a \<open>Map\<close> or \<open>Set\<close> iterates.\<close>

definition first_seen :: "int list \<Rightarrow> int list" where
  "first_seen is = rev (remdups (rev is))"

definition bind_segments :: "container_reading \<Rightarrow> bytes \<Rightarrow> segment_entry list \<Rightarrow> binding" where
  "bind_segments reading cid entries = (case reading of
     Unreadable why \<Rightarrow> Not_located (No_gop_readable why)
   | Gops rd \<Rightarrow>
       if \<not> list_ex (ours cid) (rd_gops rd) then Not_located No_gop_of_capture
       else let s = bind_loop cid (by_index entries) 0 (rd_gops rd) bind_start in
         Located (sort (filter (\<lambda>i. count_list (bs_seen s) i = 1) (first_seen (bs_matched s))))
           (bs_problems s @ map (\<lambda>i. Appears i (count_list (bs_seen s) i))
              (filter (\<lambda>i. count_list (bs_seen s) i > 1) (first_seen (bs_seen s)))))"

section \<open>What a clean binding means\<close>

text \<open>A GOP is bound: it is readable, its one SEI names this capture and a signed segment, and its bytes are the signed ones.\<close>

definition bound :: "bytes \<Rightarrow> (int \<Rightarrow> segment_entry option) \<Rightarrow> segment \<Rightarrow> bool" where
  "bound cid ents g = (sg_problem g = None \<and> ours cid g \<and> sg_sei_count g \<le> 1 \<and> (\<exists>n e. sg_index g = Some n
     \<and> ents (int n) = Some e \<and> e_hash e = Some (JStr (b64url_encode (sg_content_hash g)))))"

definition segment_index :: "segment \<Rightarrow> int" where
  "segment_index g = int (the (sg_index g))"

lemma bind_step_clean:
  "bs_problems (bind_step cid ents p g s) = [] \<longleftrightarrow> bs_problems s = [] \<and> bound cid ents g \<and> bs_previous s < segment_index g"
  by (auto simp: bind_step_def bound_def segment_index_def Let_def split: option.splits)

lemma bind_step_bound:
  assumes "bs_problems (bind_step cid ents p g s) = []"
  shows "bind_step cid ents p g s = \<lparr>bs_problems = [], bs_seen = bs_seen s @ [segment_index g],
     bs_matched = bs_matched s @ [segment_index g], bs_previous = segment_index g\<rparr>"
  using assms [unfolded bind_step_clean]
  by (auto simp: bind_step_def bound_def segment_index_def Let_def max_def split: option.splits)

lemma bind_step_grows: "\<exists>ps. bs_problems (bind_step cid ents p g s) = bs_problems s @ ps"
  by (auto simp: bind_step_def Let_def split: option.splits)

lemma bind_loop_grows: "\<exists>ps. bs_problems (bind_loop cid ents p gs s) = bs_problems s @ ps"
proof (induction gs arbitrary: p s)
  case (Cons g gs)
  obtain ps qs where "bs_problems (bind_step cid ents p g s) = bs_problems s @ ps"
    "bs_problems (bind_loop cid ents (p + 1) gs (bind_step cid ents p g s)) = bs_problems (bind_step cid ents p g s) @ qs"
    using bind_step_grows Cons.IH by metis
  then show ?case by simp
qed simp

lemma bind_loop_clean:
  "bs_problems (bind_loop cid ents p gs s) = [] \<longleftrightarrow>
     bs_problems s = [] \<and> (\<forall>g \<in> set gs. bound cid ents g) \<and> sorted_wrt (<) (bs_previous s # map segment_index gs)"
proof (induction gs arbitrary: p s)
  case (Cons g gs)
  let ?s = "bind_step cid ents p g s"
  show ?case
  proof (cases "bs_problems ?s = []")
    case True
    have p: "bs_previous ?s = segment_index g" by (subst bind_step_bound [OF True]) simp
    have c: "bs_problems s = [] \<and> bound cid ents g \<and> bs_previous s < segment_index g" using True bind_step_clean by blast
    have "bs_problems (bind_loop cid ents p (g # gs) s) = [] \<longleftrightarrow>
      (\<forall>g \<in> set gs. bound cid ents g) \<and> sorted_wrt (<) (segment_index g # map segment_index gs)"
      using Cons.IH [of "p + 1" ?s] True p by simp
    then show ?thesis using c by fastforce
  next
    case False
    then have "bs_problems (bind_loop cid ents (p + 1) gs ?s) \<noteq> []" using bind_loop_grows [of cid ents "p + 1" gs ?s] by auto
    moreover have "\<not> (bs_problems s = [] \<and> bound cid ents g \<and> bs_previous s < segment_index g)"
      using False bind_step_clean by blast
    ultimately show ?thesis by auto
  qed
qed simp

lemma bind_loop_state:
  assumes "bs_problems (bind_loop cid ents p gs s) = []"
  shows "bs_seen (bind_loop cid ents p gs s) = bs_seen s @ map segment_index gs
    \<and> bs_matched (bind_loop cid ents p gs s) = bs_matched s @ map segment_index gs"
  using assms
proof (induction gs arbitrary: p s)
  case (Cons g gs)
  let ?s = "bind_step cid ents p g s"
  from Cons.prems have "bs_problems ?s = []" using bind_loop_grows [of cid ents "p + 1" gs ?s] by auto
  note b = bind_step_bound [OF this]
  show ?case using Cons.IH [of "p + 1" ?s] Cons.prems by (simp add: b)
qed simp

lemma count_list_distinct: "distinct xs \<Longrightarrow> count_list xs x = (if x \<in> set xs then 1 else 0)"
  by (induction xs) auto

lemma first_seen_distinct: "distinct is \<Longrightarrow> first_seen is = is"
  by (simp add: first_seen_def distinct_remdups_id)

lemma bind_clean_sorted:
  assumes "sorted_wrt (<) (is :: int list)"
  shows "sort (filter (\<lambda>i. count_list is i = 1) (first_seen is)) = is"
    and "filter (\<lambda>i. count_list is i > 1) (first_seen is) = []"
proof -
  have d: "distinct is" "sorted is" using assms by (simp_all add: strict_sorted_iff)
  have "filter (\<lambda>i. count_list is i = 1) is = is" using d by (simp add: count_list_distinct)
  then show "sort (filter (\<lambda>i. count_list is i = 1) (first_seen is)) = is"
    using d by (simp add: first_seen_distinct sorted_sort_id)
  show "filter (\<lambda>i. count_list is i > 1) (first_seen is) = []"
    using d by (simp add: first_seen_distinct count_list_distinct)
qed

lemma bind_segments_clean:
  "bind_segments (Gops rd) cid entries = Located verified [] \<longleftrightarrow>
     rd_gops rd \<noteq> [] \<and> (\<forall>g \<in> set (rd_gops rd). bound cid (by_index entries) g)
     \<and> sorted_wrt (<) (map segment_index (rd_gops rd)) \<and> verified = map segment_index (rd_gops rd)"
proof -
  let ?s = "bind_loop cid (by_index entries) 0 (rd_gops rd) bind_start" and ?is = "map segment_index (rd_gops rd)"
  have "sorted_wrt (<) ((- 1) # ?is) \<longleftrightarrow> sorted_wrt (<) ?is" by (auto simp: segment_index_def)
  then have c: "bs_problems ?s = [] \<longleftrightarrow> (\<forall>g \<in> set (rd_gops rd). bound cid (by_index entries) g) \<and> sorted_wrt (<) ?is"
    using bind_loop_clean [of cid "by_index entries" 0 "rd_gops rd" bind_start] by (auto simp: bind_start_def)
  show ?thesis
  proof (cases "bs_problems ?s = []")
    case True
    have st: "bs_seen ?s = ?is" "bs_matched ?s = ?is" using bind_loop_state [OF True] by (simp_all add: bind_start_def)
    have "list_ex (ours cid) (rd_gops rd) \<longleftrightarrow> rd_gops rd \<noteq> []"
      using True c by (cases "rd_gops rd") (auto simp: bound_def list_ex_iff)
    then show ?thesis using True c st bind_clean_sorted [of ?is] by (auto simp: bind_segments_def Let_def)
  next
    case False
    then show ?thesis using c by (auto simp: bind_segments_def Let_def)
  qed
qed

text \<open>C12. The binding of the segments to a file is clean exactly when the file is nothing but this capture: it has a GOP, and
  every GOP names this capture and a signed segment with one SEI, hashes to the signed content hash, and the indices
  strictly increase. Then the segments credited are those of the file's GOPs, in order.\<close>

theorem bind_segments_exact:
  "bind_segments (Gops rd) cid entries = Located verified [] \<longleftrightarrow>
     rd_gops rd \<noteq> [] \<and> list_all (bound cid (by_index entries)) (rd_gops rd)
     \<and> sorted_wrt (<) (map segment_index (rd_gops rd)) \<and> verified = map segment_index (rd_gops rd)"
  by (simp add: bind_segments_clean list_all_iff)

end
