(* ===== verification/Evidence.thy ===== *)
theory Evidence
  imports Shape Anchor Location Timestamps
begin

text \<open>
  The attachments of a proof as \<open>tools/src/verify.ts\<close> weighs them: each outcome with the labels it adds, in the
  order they are pushed. What a caller supplies (trust bundle, chain read) is an argument. An exception that
  leaves the verifier is \<open>throw\<close>, a verifier that does not return is \<open>None\<close>.
\<close>

record trust_bundle =
  attestation_roots :: "x509 list"
  trusted_logs :: "trusted_log list"
  tsa_roots :: "x509 list"

text \<open>\<open>trust?.logs ?? []\<close> and so on.\<close>

definition logs_of :: "trust_bundle option \<Rightarrow> trusted_log list" where
  "logs_of trust = (case trust of None \<Rightarrow> [] | Some t \<Rightarrow> trusted_logs t)"

definition roots_of :: "trust_bundle option \<Rightarrow> x509 list" where
  "roots_of trust = (case trust of None \<Rightarrow> [] | Some t \<Rightarrow> attestation_roots t)"

definition tsa_roots_of :: "trust_bundle option \<Rightarrow> x509 list" where
  "tsa_roots_of trust = (case trust of None \<Rightarrow> [] | Some t \<Rightarrow> tsa_roots t)"

text \<open>A computation that always returns, in the \<open>run\<close> type.\<close>

definition run_sum :: "fault + 'a \<Rightarrow> 'a run" where "run_sum r = Some r"

lemma run_sum_simps [simp]: "run_sum (Inr x) = ret x" "run_sum (Inl e) = throw e"
  "run_sum r = ret x \<longleftrightarrow> r = Inr x" "run_sum r = throw e \<longleftrightarrow> r = Inl e"
  by (auto simp: run_sum_def ret_def throw_def)

definition key_id_text :: "json \<Rightarrow> jsstr" where
  "key_id_text proof = (case str_of (member (field proof ''device'') ''key_id'') of None \<Rightarrow> [] | Some s \<Rightarrow> s)"

section \<open>Integrity\<close>

definition PROVES_DEVICE_INTEGRITY :: "string \<Rightarrow> string option" where
  "PROVES_DEVICE_INTEGRITY source = (if source = ''playIntegrity'' then Some ''android'' else None)"

definition integrity_verdict :: "platform \<Rightarrow> json \<Rightarrow> bytes \<Rightarrow> trusted_log list \<Rightarrow> fault + bool \<times> string list" where
  "integrity_verdict P proof core signers = (case obj_of (member proof ''integrity'') of
     None \<Rightarrow> Inr (False, [''integrity unevaluated''])
   | Some att \<Rightarrow> rbind (verify_integrity P att core signers) (\<lambda>r. case r of
       Integrity_bad trusted evaluated \<Rightarrow>
         Inr (False, ''integrity unevaluated'' # (if trusted \<and> evaluated then [''integrity evidence invalid''] else []))
     | Integrity_ok source verdict _ \<Rightarrow>
         Inr (verdict = ''hardware'' \<and> (case PROVES_DEVICE_INTEGRITY source of None \<Rightarrow> False
                | Some p \<Rightarrow> member (field proof ''device'') ''platform'' = Some (JStr (js p))),
              [''integrity '' @ verdict])))"

section \<open>Which log signs\<close>

definition signing_logs :: "json \<Rightarrow> trust_bundle option \<Rightarrow> trusted_log list" where
  "signing_logs proof trust = (let
       logs = logs_of trust;
       named = (case obj_of (member proof ''registry'') of None \<Rightarrow> []
         | Some att \<Rightarrow> filter (\<lambda>l. member att ''log_id'' = Some (JStr (log_id l))) logs)
     in if named \<noteq> [] then named else logs)"

section \<open>Instants\<close>

datatype timestamp_verdict = No_timestamp | Stamped int int int

definition timestamp_verdict_of :: "platform \<Rightarrow> pki \<Rightarrow> json \<Rightarrow> bytes \<Rightarrow> trust_bundle option \<Rightarrow> (timestamp_verdict \<times> string list) run" where
  "timestamp_verdict_of P K proof core trust =
     (case Option.bind (obj_of (member proof ''timestamp'')) (\<lambda>att. str_of (member att ''tsr'')) of
        None \<Rightarrow> ret (No_timestamp, [''no trusted time''])
      | Some tsr \<Rightarrow>
          if tsa_roots_of trust = [] then ret (No_timestamp, [''trusted time not evaluated''])
          else run_bind (verify_timestamp_token P K (b64_decode tsr) core (tsa_roots_of trust)) (\<lambda>r. case r of
              Ts_bad _ \<Rightarrow> ret (No_timestamp, [''no trusted time'', ''timestamp evidence invalid''])
            | Ts_ok t from to \<Rightarrow> ret (Stamped t from to, [])))"

datatype anchor_verdict = Not_anchored | Anchored "int option"

definition anchor_verdict_of :: "platform \<Rightarrow> json \<Rightarrow> bytes \<Rightarrow> chain_read option \<Rightarrow> anchor_verdict \<times> string list" where
  "anchor_verdict_of P proof core read = (case obj_of (member proof ''anchor'') of
     None \<Rightarrow> (Not_anchored, [''not anchored''])
   | Some att \<Rightarrow> (case verify_anchor P att core read of
       Anchor_bad _ \<Rightarrow> (Not_anchored, [''not anchored'', ''anchor evidence invalid''])
     | Anchor_ok on_chain block \<Rightarrow> (Anchored block, if on_chain then [] else [''anchoring not verified''])))"

text \<open>A token and a verified anchor over the same core must agree, or the anchor alone dates the capture.\<close>

definition agree :: "timestamp_verdict \<Rightarrow> anchor_verdict \<Rightarrow> timestamp_verdict \<times> string list" where
  "agree stamped anchored = (case (stamped, anchored) of
     (Stamped t from to, Anchored (Some block)) \<Rightarrow>
       if t > block \<or> block < from \<or> block > to
       then (No_timestamp, [''no trusted time'', ''timestamp evidence invalid'']) else (stamped, [])
   | _ \<Rightarrow> (stamped, []))"

definition device_clock_of :: "json \<Rightarrow> int option" where
  "device_clock_of proof = Option.bind (obj_of (member proof ''time'')) (\<lambda>t. int_of (member t ''device_clock''))"

section \<open>Location\<close>

definition location_verdict :: "platform \<Rightarrow> json \<Rightarrow> bytes \<Rightarrow> trusted_log list \<Rightarrow> fault + (string \<times> string) \<times> string list" where
  "location_verdict P proof core signers = (let
       claim = obj_of (member proof ''location''); att = obj_of (member proof ''location_corroboration'')
     in case claim of
       Some c \<Rightarrow> if int_of (member c ''lat_udeg'') = None \<or> int_of (member c ''lon_udeg'') = None
           then Inr ((''none'', ''none''), if att \<noteq> None then [''location corroboration not evaluated''] else [])
           else let claimed = (case name_in LOCATION_LEVELS (member c ''level'') of None \<Rightarrow> ''declared'' | Some l \<Rightarrow> l) in
             rbind (case att of None \<Rightarrow> Inr (''declared'', [])
               | Some a \<Rightarrow> rbind (verify_location_corroboration P a core signers) (\<lambda>r. case r of
                   Uncorroborated evaluated trusted \<Rightarrow> Inr (''declared'',
                     [if \<not> evaluated then ''location corroboration not evaluated''
                      else if trusted then ''location corroboration evidence invalid'' else ''location corroboration not verified''])
                 | Corroborated _ result _ \<Rightarrow>
                     if result = ''match'' then Inr (''corroborated'', [])
                     else Inr (''declared'', if result = ''no-match'' then [''location contradicted''] else [])))
               (\<lambda>(level, ls). Inr ((claimed, level), ls
                  @ (case arr_of (member c ''evidence'') of Some (_ # _) \<Rightarrow> [''location evidence not evaluated''] | _ \<Rightarrow> [])
                  @ [if level = ''corroborated'' then ''location corroborated'' else ''location declared only'']
                  @ (if LOCATION_RANK claimed > LOCATION_RANK level then [''location claimed above evidence''] else [])))
     | None \<Rightarrow> Inr ((''none'', ''none''), if att \<noteq> None then [''location corroboration not evaluated''] else []))"

end
