(* ===== verification/Level.thy ===== *)
theory Level
  imports Evidence
begin

text \<open>
  The proof level of \<open>tools/src/verify.ts\<close>: the registry and the frozen revocation status as the level needs
  them, and \<open>level\<close> itself - the instant, the online key status, the proven level, revocation, inconsistent
  claims, the admitted app, and the ceiling. Every step pushes labels on the list it is given.
\<close>

section \<open>The registry\<close>

datatype registry_verdict = Unregistered | Registered "json option" bool "jsstr list option"

definition registry_verdict_of :: "platform \<Rightarrow> json \<Rightarrow> bytes \<Rightarrow> trust_bundle option \<Rightarrow> int option \<Rightarrow> int option
    \<Rightarrow> fault + registry_verdict \<times> string list" where
  "registry_verdict_of P proof spki trust device_clock gen_time = (case obj_of (member proof ''registry'') of
     None \<Rightarrow> Inr (Unregistered, [''key not in transparency log''])
   | Some att \<Rightarrow> rbind (verify_registry P att (key_id_text proof) spki (logs_of trust)) (\<lambda>r. Inr (case r of
       Registry_bad _ trusted \<Rightarrow> (Unregistered,
         if \<not> trusted then [''log not trusted''] else [''key not in transparency log'', ''registry evidence invalid''])
     | Registry_ok hw _ head \<Rightarrow> (Registered hw
           ((case device_clock of None \<Rightarrow> False | Some c \<Rightarrow> head \<le> c) \<and> (case gen_time of None \<Rightarrow> True | Some t \<Rightarrow> head \<le> t))
           (case find_log (logs_of trust) (member att ''log_id'') of None \<Rightarrow> None | Some l \<Rightarrow> app_signing_digests l),
         (case device_clock of None \<Rightarrow> [] | Some c \<Rightarrow> if head > c then [''registered after the declared capture''] else [])
         @ (case gen_time of None \<Rightarrow> [] | Some t \<Rightarrow> if head > t then [''registered after the trusted time''] else [])))))"

section \<open>Frozen revocation\<close>

definition RETROACTIVE :: "string list" where "RETROACTIVE = [''KEY_COMPROMISE'', ''CA_COMPROMISE'']"

text \<open>The revocation date the source gives, and whether the reason reaches back.\<close>

record revocation =
  rv_at :: "int option"
  rv_retroactive :: bool

datatype frozen_status = Unchecked | Checked "revocation list" bool

definition by_serial :: "json list \<Rightarrow> jsstr \<Rightarrow> json option" where
  "by_serial entries = map_of (rev (List.map_filter
     (\<lambda>e. map_option (\<lambda>s. (normal_serial s, e)) (str_of (member e ''serial''))) entries))"

definition revocation_of :: "json \<Rightarrow> revocation" where
  "revocation_of entry = \<lparr>rv_at = (case int_of (member entry ''revoked_at'') of None \<Rightarrow> None | Some t \<Rightarrow> if safe_int t then Some t else None),
     rv_retroactive = (name_in RETROACTIVE (member entry ''reason'') \<noteq> None)\<rparr>"

text \<open>The loop over the chain's serials: the revoked entries, and whether one is missing or unknown.\<close>

fun frozen_loop :: "(jsstr \<Rightarrow> json option) \<Rightarrow> jsstr list \<Rightarrow> revocation list \<times> bool" where
  "frozen_loop entries [] = ([], False)"
| "frozen_loop entries (serial # rest) = (let (rs, incomplete) = frozen_loop entries rest in
     case entries serial of None \<Rightarrow> (rs, True)
     | Some e \<Rightarrow> if member e ''status'' = Some (JStr (js ''revoked'')) then (revocation_of e # rs, incomplete)
         else if member e ''status'' = Some (JStr (js ''valid'')) then (rs, incomplete) else (rs, True))"

definition frozen_revocation :: "platform \<Rightarrow> json \<Rightarrow> bytes \<Rightarrow> trusted_log list \<Rightarrow> jsstr list \<Rightarrow> fault + frozen_status" where
  "frozen_revocation P att core signers serials =
     (case (arr_of (member att ''entries''), int_of (member att ''fetched_at'')) of
       (Some entries, Some fetched_at) \<Rightarrow>
         if member att ''source'' \<noteq> Some (JStr (js ''googleStatusList'')) \<or> \<not> safe_int fetched_at \<or> fetched_at < 0 then Inr Unchecked
         else rbind (attestation_status_message core (JArr entries) fetched_at) (\<lambda>message.
           case buffer_from P (member att ''sig'') of None \<Rightarrow> Inr Unchecked
           | Some sg \<Rightarrow> if \<not> signed_by_log P signers message sg then Inr Unchecked
               else (case frozen_loop (by_serial entries) serials of (rs, incomplete) \<Rightarrow> Inr (Checked rs incomplete)))
     | _ \<Rightarrow> Inr Unchecked)"

section \<open>Ranks\<close>

text \<open>
  \<open>RANK[x] ?? 0\<close> of a value no check has made a string: the property key of an array of one element is that
  element's, and a name every object inherits gives a function, which compares as NaN (\<open>None\<close>).
\<close>

fun property_key :: "json \<Rightarrow> jsstr option" where
  "property_key (JStr s) = Some s"
| "property_key (JArr [v]) = property_key v"
| "property_key _ = None"

definition INHERITED :: "string list" where
  "INHERITED = [''constructor'', ''hasOwnProperty'', ''isPrototypeOf'', ''propertyIsEnumerable'', ''toLocaleString'', ''toString'',
     ''valueOf'', ''__proto__'', ''__defineGetter__'', ''__defineSetter__'', ''__lookupGetter__'', ''__lookupSetter__'']"

definition rank_of :: "json option \<Rightarrow> nat option" where
  "rank_of v = (case Option.bind v property_key of None \<Rightarrow> Some 0
     | Some s \<Rightarrow> if s \<in> js ` set INHERITED then None
         else (case List.find (\<lambda>n. s = js n) [''software'', ''tee'', ''secureEnclave'', ''strongbox''] of
           None \<Rightarrow> Some 0 | Some n \<Rightarrow> Some (RANK n)))"

definition above :: "nat option \<Rightarrow> nat option \<Rightarrow> bool" where
  "above x y = (case (x, y) of (Some a, Some b) \<Rightarrow> a > b | _ \<Rightarrow> False)"

definition is_name :: "string \<Rightarrow> json option \<Rightarrow> bool" where
  "is_name n v = (v = Some (JStr (js n)))"

section \<open>level, step by step\<close>

datatype instant_source = By_timestamp | By_anchor | By_device_clock | By_verifier_clock
datatype ceiling = Green | Amber | Red

text \<open>\<open>new Date(ms)\<close>: an instant beyond 8.64e15 is no date (\<open>None\<close>).\<close>

definition date_of :: "int \<Rightarrow> int option" where
  "date_of ms = (if \<bar>ms\<bar> \<le> 8640000000000000 then Some ms else None)"

definition instant_for :: "timestamp_verdict \<Rightarrow> anchor_verdict \<Rightarrow> int option \<Rightarrow> int \<Rightarrow> int option \<times> instant_source" where
  "instant_for stamped anchored device_clock clock = (case stamped of
     Stamped t _ _ \<Rightarrow> (date_of t, By_timestamp)
   | No_timestamp \<Rightarrow> (case anchored of
       Anchored (Some block) \<Rightarrow> (date_of block, By_anchor)
     | _ \<Rightarrow> (case device_clock of Some c \<Rightarrow> (date_of c, By_device_clock) | None \<Rightarrow> (Some clock, By_verifier_clock))))"

definition trusted_source :: "instant_source \<Rightarrow> bool" where
  "trusted_source source = (source = By_timestamp \<or> source = By_anchor)"

text \<open>The online key status; an instant that is no date equals no statement's.\<close>

definition key_status_labels :: "platform \<Rightarrow> json \<Rightarrow> registry_verdict \<Rightarrow> key_status_statement option \<Rightarrow> int option \<Rightarrow> trusted_log list
    \<Rightarrow> fault + string list" where
  "key_status_labels P proof registered statement asked signers = (case registered of
     Unregistered \<Rightarrow> Inr []
   | Registered _ _ _ \<Rightarrow> (case (statement, asked) of
       (Some st, Some t) \<Rightarrow> rbind (verify_key_status P st (b64_decode (key_id_text proof)) t signers) (\<lambda>r. Inr (case r of
           Key_status s \<Rightarrow> if s = 2 then [''key revoked''] else if s = 0 then [''revocation not checked''] else []
         | Key_status_bad _ \<Rightarrow> [''revocation not checked'']))
     | _ \<Rightarrow> Inr [''revocation not checked'']))"

text \<open>The chain, when the platform carries one; its proven level before revocation, and the labels around it.\<close>

definition level_chain :: "platform \<Rightarrow> pki \<Rightarrow> json \<Rightarrow> bytes \<Rightarrow> trust_bundle option \<Rightarrow> int option \<Rightarrow> int \<Rightarrow> chain_outcome option run" where
  "level_chain P K proof spki trust instant clock = (case arr_of (member proof ''attestation'') of
     Some chain \<Rightarrow> if is_name ''android'' (member (field proof ''device'') ''platform'')
         then run_bind (validate_chain P K chain spki (roots_of trust) instant clock) (\<lambda>out. ret (Some out))
         else ret None
   | None \<Rightarrow> ret None)"

definition chain_labels :: "chain_outcome option \<Rightarrow> trust_bundle option \<Rightarrow> instant_source \<Rightarrow> string \<times> string list" where
  "chain_labels chain trust source = (case chain of None \<Rightarrow> (''none'', [])
     | Some out \<Rightarrow> if roots_of trust = [] then (''none'', [''attestation not evaluated''])
         else (co_proven out,
           (if co_proven out = ''none'' then ''origin not hardware-attested'' # (if co_invalid out then [''attestation evidence invalid''] else []) else [])
           @ (if co_expired out \<noteq> None \<and> source = By_device_clock then [''attestation chain expired, capture time not proven''] else [])))"

text \<open>The Secure Enclave level: the registry's word, with the absent-attestation label taken back.\<close>

definition enclave :: "json \<Rightarrow> chain_outcome option \<Rightarrow> registry_verdict \<Rightarrow> bool" where
  "enclave proof chain registered = (chain = None \<and> is_name ''ios'' (member (field proof ''device'') ''platform'')
     \<and> (case registered of Registered hw _ _ \<Rightarrow> is_name ''secureEnclave'' hw | Unregistered \<Rightarrow> False))"

definition chain_stands :: "chain_outcome option \<Rightarrow> trust_bundle option \<Rightarrow> bool" where
  "chain_stands chain trust = (case chain of None \<Rightarrow> False | Some out \<Rightarrow> roots_of trust \<noteq> [] \<and> \<not> co_invalid out)"

definition after_capture :: "int option \<Rightarrow> revocation list \<Rightarrow> bool" where
  "after_capture trusted_instant rs = (case trusted_instant of None \<Rightarrow> False
     | Some t \<Rightarrow> list_all (\<lambda>r. \<not> rv_retroactive r \<and> (case rv_at r of None \<Rightarrow> False | Some at_ms \<Rightarrow> t < at_ms)) rs)"

text \<open>Revocation of the chain: whether the proven level is lost, and the labels.\<close>

definition revocation_labels :: "platform \<Rightarrow> json \<Rightarrow> bytes \<Rightarrow> trusted_log list \<Rightarrow> chain_outcome option \<Rightarrow> trust_bundle option \<Rightarrow> int option
    \<Rightarrow> fault + bool \<times> string list" where
  "revocation_labels P proof core signers chain trust trusted_instant =
     (if \<not> chain_stands chain trust then Inr (False, [])
      else rbind (case obj_of (member proof ''attestation_status'') of None \<Rightarrow> Inr Unchecked
          | Some att \<Rightarrow> frozen_revocation P att core signers (co_serials (the chain))) (\<lambda>frozen. Inr (case frozen of
        Unchecked \<Rightarrow> (False, [''chain revocation not checked''])
      | Checked rs incomplete \<Rightarrow>
          if rs \<noteq> [] then (if after_capture trusted_instant rs then (False, [''attestation key revoked after the capture''])
            else (True, [''attestation key revoked'']))
          else (False, if incomplete then [''chain revocation not checked''] else []))))"

definition inconsistent :: "json \<Rightarrow> chain_outcome option \<Rightarrow> trust_bundle option \<Rightarrow> registry_verdict \<Rightarrow> bool" where
  "inconsistent proof chain trust registered = (let
       holds = chain_stands chain trust;
       claimed = Some (RANK (claimed_level (field proof ''device'')));
       attested = Some (if holds then RANK (co_proven (the chain)) else 0);
       hw = (case registered of Registered v _ _ \<Rightarrow> Some (rank_of v) | Unregistered \<Rightarrow> None)
     in holds \<and> above claimed attested
      \<or> (case hw of None \<Rightarrow> False | Some r \<Rightarrow> holds \<and> above r attested)
      \<or> is_name ''ios'' (member (field proof ''device'') ''platform'') \<and> (case hw of None \<Rightarrow> False | Some r \<Rightarrow> above claimed r))"

definition app_labels :: "chain_outcome option \<Rightarrow> trust_bundle option \<Rightarrow> registry_verdict \<Rightarrow> string list" where
  "app_labels chain trust registered = (case registered of
     Registered _ _ declared \<Rightarrow> if \<not> chain_stands chain trust then []
       else (case (declared, co_digests (the chain)) of
           (Some (d # ds), Some carried) \<Rightarrow>
             if list_ex (\<lambda>c. c \<in> set (d # ds)) carried then [] else [''attestation app not admitted'']
         | _ \<Rightarrow> [''attestation app not checked''])
   | Unregistered \<Rightarrow> [])"

definition AMBER_CAUSES :: "string list" where
  "AMBER_CAUSES = [''inconsistent claim'', ''chain revocation not checked'', ''revocation not checked'',
     ''attestation chain expired, capture time not proven'', ''registry evidence invalid'',
     ''attestation app not checked'', ''attestation app not admitted'', ''integrity failed'',
     ''integrity not proven'', ''presentation differs'', ''timing differs'']"

definition before_capture :: "registry_verdict \<Rightarrow> bool" where
  "before_capture registered = (case registered of Registered _ b _ \<Rightarrow> b | Unregistered \<Rightarrow> False)"

definition ceiling_of :: "string \<Rightarrow> registry_verdict \<Rightarrow> instant_source \<Rightarrow> string list \<Rightarrow> ceiling" where
  "ceiling_of proven registered source labels =
     (if ''attestation key revoked'' \<in> set labels \<or> ''key revoked'' \<in> set labels then Red
      else if proven \<noteq> ''none'' \<and> before_capture registered \<and> trusted_source source
        \<and> \<not> list_ex (\<lambda>cause. cause \<in> set labels) AMBER_CAUSES then Green
      else Amber)"

section \<open>level\<close>

record proof_level =
  lv_claimed :: string
  lv_proven :: string
  lv_ceiling :: ceiling
  lv_instant :: int
  lv_source :: instant_source

text \<open>The labels in the order they are pushed; the registry's word takes the absent-attestation label back.\<close>

definition all_labels :: "string list \<Rightarrow> string list \<Rightarrow> string list \<Rightarrow> bool \<Rightarrow> string list \<Rightarrow> bool \<Rightarrow> string list \<Rightarrow> bool \<Rightarrow> string list" where
  "all_labels labels status chained enclaved revoked contradicted app unproven =
     (if enclaved then remove1 ''origin not hardware-attested'' (labels @ status @ chained @ [''level from registry records''])
      else labels @ status @ chained) @ revoked @ (if contradicted then [''inconsistent claim''] else []) @ app
     @ (if unproven then [''integrity not proven''] else [])"

definition level :: "platform \<Rightarrow> pki \<Rightarrow> json \<Rightarrow> bytes \<Rightarrow> bytes \<Rightarrow> string list \<Rightarrow> trust_bundle option \<Rightarrow> trusted_log list \<Rightarrow> int
    \<Rightarrow> registry_verdict \<Rightarrow> key_status_statement option \<Rightarrow> anchor_verdict \<Rightarrow> timestamp_verdict \<Rightarrow> bool
    \<Rightarrow> (proof_level \<times> string list) run" where
  "level P K proof spki core labels trust signers clock registered statement anchored stamped device_integrity = (let
       (instant, source) = instant_for stamped anchored (device_clock_of proof) clock;
       trusted = trusted_source source
     in run_bind (run_sum (key_status_labels P proof registered statement (if trusted then instant else Some clock) signers)) (\<lambda>status.
        run_bind (level_chain P K proof spki trust instant clock) (\<lambda>chain. let
          (chain_proven, chained) = chain_labels chain trust source;
          enclaved = enclave proof chain registered
        in run_bind (run_sum (revocation_labels P proof core signers chain trust (if trusted then instant else None)))
          (\<lambda>(lost, revoked). let
             proven = (if lost then ''none'' else if enclaved then ''secureEnclave'' else chain_proven);
             pushed = all_labels labels status chained enclaved revoked (inconsistent proof chain trust registered)
               (app_labels chain trust registered) (proven \<noteq> ''none'' \<and> \<not> device_integrity)
           in case instant of None \<Rightarrow> throw Range_error
              | Some t \<Rightarrow> ret (\<lparr>lv_claimed = claimed_level (field proof ''device''), lv_proven = proven,
                  lv_ceiling = ceiling_of proven registered source pushed, lv_instant = t, lv_source = source\<rparr>, sort pushed)))))"

section \<open>What level computes\<close>

lemma ceiling_of_sort [simp]: "ceiling_of proven registered source (sort ls) = ceiling_of proven registered source ls"
  by (simp add: ceiling_of_def)

lemma level_ret:
  assumes "level P K proof spki core labels trust signers clock registered statement anchored stamped di = ret (lv, ls)"
  obtains t status chain lost revoked where
    "instant_for stamped anchored (device_clock_of proof) clock = (Some t, lv_source lv)" "lv_instant lv = t"
    "key_status_labels P proof registered statement (if trusted_source (lv_source lv) then Some t else Some clock) signers = Inr status"
    "level_chain P K proof spki trust (Some t) clock = ret chain"
    "revocation_labels P proof core signers chain trust (if trusted_source (lv_source lv) then Some t else None) = Inr (lost, revoked)"
    "lv_claimed lv = claimed_level (field proof ''device'')"
    "lv_proven lv = (if lost then ''none'' else if enclave proof chain registered then ''secureEnclave''
       else fst (chain_labels chain trust (lv_source lv)))"
    "ls = sort (all_labels labels status (snd (chain_labels chain trust (lv_source lv))) (enclave proof chain registered) revoked
       (inconsistent proof chain trust registered) (app_labels chain trust registered) (lv_proven lv \<noteq> ''none'' \<and> \<not> di))"
    "lv_ceiling lv = ceiling_of (lv_proven lv) registered (lv_source lv) ls"
proof -
  obtain inst source where i: "instant_for stamped anchored (device_clock_of proof) clock = (inst, source)" by fastforce
  note a = assms [unfolded level_def i Let_def prod.case]
  from a obtain status where s: "key_status_labels P proof registered statement (if trusted_source source then inst else Some clock) signers = Inr status"
    by (auto simp: run_bind_ret)
  from a obtain chain where c: "level_chain P K proof spki trust inst clock = ret chain"
    by (auto simp: run_bind_ret)
  obtain proven chained where l: "chain_labels chain trust source = (proven, chained)" by fastforce
  from a s c l obtain lost revoked where r: "revocation_labels P proof core signers chain trust (if trusted_source source then inst else None) = Inr (lost, revoked)"
    by (auto simp: run_bind_ret)
  note a' = a [unfolded s c r l run_sum_simps run_bind_simps prod.case]
  then obtain t where t: "inst = Some t" by (cases inst) auto
  note e = a' [unfolded t option.case ret_eq prod.inject]
  note lv = e [THEN conjunct1, symmetric] and ls = e [THEN conjunct2, symmetric]
  have src: "lv_source lv = source" by (simp add: lv)
  show thesis
    by (rule that [of t status chain lost revoked]; (subst ls)?; (simp only: src ceiling_of_sort l fst_conv snd_conv)?; ((rule s [unfolded t] c [unfolded t] r [unfolded t]) | simp add: i t lv l)?)
qed

section \<open>Green\<close>

lemma all_labels_mem:
  assumes "x \<noteq> ''origin not hardware-attested''"
  shows "x \<in> set (all_labels labels status chained enclaved revoked contradicted app unproven) \<longleftrightarrow>
    x \<in> set labels \<or> x \<in> set status \<or> x \<in> set chained \<or> x \<in> set revoked \<or> x \<in> set app
    \<or> enclaved \<and> x = ''level from registry records'' \<or> contradicted \<and> x = ''inconsistent claim''
    \<or> unproven \<and> x = ''integrity not proven''"
  using assms by (auto simp: all_labels_def)

lemma ceiling_green:
  assumes "ceiling_of proven registered source ls = Green"
  shows "proven \<noteq> ''none''" "before_capture registered" "trusted_source source"
    "''key revoked'' \<notin> set ls" "''attestation key revoked'' \<notin> set ls" "set AMBER_CAUSES \<inter> set ls = {}"
  using assms by (auto simp: ceiling_of_def list_ex_iff split: if_splits)

lemma validate_chain_valid:
  assumes "validate_chain P K chain sig_pub roots instant clock = ret out" "co_proven out \<noteq> ''none''"
  shows "\<not> co_invalid out"
proof -
  from validate_chain_steps [OF assms] obtain certs root where
    j: "judge_leaf certs roots [] (expired_since (walked_of certs (Some root)) clock) = ret out" by metis
  from judge_leaf_proven [OF this assms(2)] obtain ext d where
    "key_description_of (x_raw (hd certs)) = ret (Some ext)" "parse_key_description ext = ret d" by blast
  with j show ?thesis by (auto simp: judge_leaf_def ret_def Let_def)
qed

lemma key_status_valid:
  assumes "key_status_labels P proof registered statement (Some t) signers = Inr status" "before_capture registered"
    and "''key revoked'' \<notin> set status" "''revocation not checked'' \<notin> set status"
  shows "\<exists>st. statement = Some st \<and> verify_key_status P st (b64_decode (key_id_text proof)) t signers = Inr (Key_status 1)"
proof -
  obtain hw b d where r: "registered = Registered hw b d" using assms(2) by (cases registered) (auto simp: before_capture_def)
  obtain st where st: "statement = Some st" using assms r by (cases statement) (auto simp: key_status_labels_def)
  obtain x where x: "verify_key_status P st (b64_decode (key_id_text proof)) t signers = Inr x"
    using assms(1) r st by (auto simp: key_status_labels_def)
  obtain s where s: "x = Key_status s" using assms r st x by (cases x) (auto simp: key_status_labels_def)
  have "s = 0 \<or> s = 1 \<or> s = 2" using x s by (auto simp: verify_key_status_def split: option.splits if_splits)
  then show ?thesis using assms r st x s by (auto simp: key_status_labels_def)
qed

text \<open>A signed snapshot names no certificate of the chain revoked at the instant: it covers all of them, or names some and
  all of these are revoked later (then an uncovered one goes unsaid, as the code has it).\<close>

definition unrevoked :: "platform \<Rightarrow> json \<Rightarrow> bytes \<Rightarrow> trusted_log list \<Rightarrow> jsstr list \<Rightarrow> int \<Rightarrow> bool" where
  "unrevoked P proof core signers serials t = (\<exists>att rs incomplete. obj_of (member proof ''attestation_status'') = Some att
     \<and> frozen_revocation P att core signers serials = Inr (Checked rs incomplete)
     \<and> (if rs = [] then \<not> incomplete else after_capture (Some t) rs))"

lemma revocation_clear:
  assumes "revocation_labels P proof core signers (Some out) trust (Some t) = Inr (lost, revoked)"
    and "chain_stands (Some out) trust" "''attestation key revoked'' \<notin> set revoked" "''chain revocation not checked'' \<notin> set revoked"
  shows "\<not> lost \<and> unrevoked P proof core signers (co_serials out) t"
proof (cases "obj_of (member proof ''attestation_status'')")
  case None
  with assms show ?thesis by (auto simp: revocation_labels_def)
next
  case (Some att)
  with assms obtain frozen where f: "frozen_revocation P att core signers (co_serials out) = Inr frozen"
    by (auto simp: revocation_labels_def)
  then show ?thesis
    using assms Some by (cases frozen) (auto simp: revocation_labels_def unrevoked_def split: if_splits)
qed

text \<open>A digest of the attested app is among those the log declares.\<close>

definition app_admitted :: "registry_verdict \<Rightarrow> chain_outcome \<Rightarrow> bool" where
  "app_admitted registered out = (\<exists>hw b declared carried c. registered = Registered hw b (Some declared)
     \<and> co_digests out = Some carried \<and> c \<in> set carried \<and> c \<in> set declared)"

lemma app_clear:
  assumes "app_labels (Some out) trust registered = ls" "chain_stands (Some out) trust" "before_capture registered"
    and "''attestation app not checked'' \<notin> set ls" "''attestation app not admitted'' \<notin> set ls"
  shows "app_admitted registered out"
  using assms
  by (cases registered) (auto simp: app_labels_def before_capture_def app_admitted_def list_ex_iff split: option.splits list.splits if_splits)

text \<open>What a green ceiling rests on.\<close>

definition green_evidence :: "platform \<Rightarrow> pki \<Rightarrow> json \<Rightarrow> bytes \<Rightarrow> bytes \<Rightarrow> trust_bundle option \<Rightarrow> trusted_log list \<Rightarrow> int
    \<Rightarrow> registry_verdict \<Rightarrow> key_status_statement option \<Rightarrow> proof_level \<Rightarrow> bool" where
  "green_evidence P K proof spki core trust signers clock registered statement lv \<longleftrightarrow>
     trusted_source (lv_source lv) \<and> before_capture registered
     \<and> (\<exists>st. statement = Some st \<and> verify_key_status P st (b64_decode (key_id_text proof)) (lv_instant lv) signers = Inr (Key_status 1))
     \<and> (\<exists>chain out. member proof ''attestation'' = Some (JArr chain) \<and> is_name ''android'' (member (field proof ''device'') ''platform'')
         \<and> validate_chain P K chain spki (roots_of trust) (Some (lv_instant lv)) clock = ret out
         \<and> co_proven out = lv_proven lv \<and> lv_proven lv \<noteq> ''none''
         \<and> unrevoked P proof core signers (co_serials out) (lv_instant lv) \<and> app_admitted registered out)"

lemma level_chain_Some:
  assumes "level_chain P K proof spki trust instant clock = ret (Some out)"
  obtains chain where "member proof ''attestation'' = Some (JArr chain)" "is_name ''android'' (member (field proof ''device'') ''platform'')"
    "validate_chain P K chain spki (roots_of trust) instant clock = ret out"
  using assms by (auto simp: level_chain_def run_bind_ret split: option.splits if_splits)

lemma level_green:
  assumes "level P K proof spki core labels trust signers clock registered statement anchored stamped di = ret (lv, ls)"
    and "lv_ceiling lv = Green" "di \<Longrightarrow> \<not> is_name ''ios'' (member (field proof ''device'') ''platform'')"
  shows "di \<and> green_evidence P K proof spki core trust signers clock registered statement lv
    \<and> instant_for stamped anchored (device_clock_of proof) clock = (Some (lv_instant lv), lv_source lv) \<and> set AMBER_CAUSES \<inter> set ls = {}"
  using assms(1)
proof (rule level_ret)
  fix t status chain lost revoked
  let ?enc = "enclave proof chain registered"
  let ?all = "all_labels labels status (snd (chain_labels chain trust (lv_source lv))) ?enc revoked
       (inconsistent proof chain trust registered) (app_labels chain trust registered) (lv_proven lv \<noteq> ''none'' \<and> \<not> di)"
  assume i: "instant_for stamped anchored (device_clock_of proof) clock = (Some t, lv_source lv)" "lv_instant lv = t"
    and k: "key_status_labels P proof registered statement (if trusted_source (lv_source lv) then Some t else Some clock) signers = Inr status"
    and c: "level_chain P K proof spki trust (Some t) clock = ret chain"
    and r: "revocation_labels P proof core signers chain trust (if trusted_source (lv_source lv) then Some t else None) = Inr (lost, revoked)"
    and p: "lv_proven lv = (if lost then ''none'' else if ?enc then ''secureEnclave'' else fst (chain_labels chain trust (lv_source lv)))"
    and ls: "ls = sort ?all" and ceil: "lv_ceiling lv = ceiling_of (lv_proven lv) registered (lv_source lv) ls"
  note g = ceiling_green [OF trans [OF ceil [symmetric] assms(2)]]
  have clear: "x \<notin> set status" "x \<notin> set revoked" "x \<notin> set (app_labels chain trust registered)"
    "x = ''integrity not proven'' \<Longrightarrow> di" if "x \<in> {''key revoked'', ''attestation key revoked''} \<union> set AMBER_CAUSES" for x
  proof -
    have "x \<noteq> ''origin not hardware-attested''" using that by (auto simp: AMBER_CAUSES_def)
    moreover have "x \<notin> set ?all" using that g(4-6) ls by auto
    ultimately show "x \<notin> set status" "x \<notin> set revoked" "x \<notin> set (app_labels chain trust registered)"
      "x = ''integrity not proven'' \<Longrightarrow> di" using g(1) by (auto simp: all_labels_mem)
  qed
  have di: di using clear(4) by (simp add: AMBER_CAUSES_def)
  have status: "\<exists>st. statement = Some st \<and> verify_key_status P st (b64_decode (key_id_text proof)) t signers = Inr (Key_status 1)"
    using k g(2,3) clear(1) by (intro key_status_valid) (auto simp: AMBER_CAUSES_def)
  have "\<not> ?enc" using assms(3) di by (simp add: enclave_def)
  then have chained: "fst (chain_labels chain trust (lv_source lv)) = lv_proven lv" "lv_proven lv \<noteq> ''none''"
    using p g(1) by (auto split: if_splits)
  then obtain out where out: "chain = Some out" "roots_of trust \<noteq> []" "co_proven out = lv_proven lv"
    by (cases chain) (auto simp: chain_labels_def split: if_splits)
  obtain ch where ch: "member proof ''attestation'' = Some (JArr ch)" "is_name ''android'' (member (field proof ''device'') ''platform'')"
    "validate_chain P K ch spki (roots_of trust) (Some t) clock = ret out"
    using c unfolding out(1) by (rule level_chain_Some)
  have stands: "chain_stands (Some out) trust"
    using validate_chain_valid [OF ch(3)] out chained by (simp add: chain_stands_def)
  have "unrevoked P proof core signers (co_serials out) t"
    using r g(3) clear(2) stands out(1) by (intro revocation_clear [THEN conjunct2]) (auto simp: AMBER_CAUSES_def)
  moreover have "app_admitted registered out"
    using clear(3) stands out(1) g(2) by (intro app_clear) (auto simp: AMBER_CAUSES_def)
  ultimately show ?thesis using di status ch out chained i g by (auto simp: green_evidence_def)
qed

text \<open>C2. A green ceiling is earned: the instant is a token's or an anchored block's, the key was in the log before the capture and
  is valid there by a signed statement about that very instant, the device's integrity is proven, and the level is that
  of an attestation chain that was valid at the instant, with a signed snapshot in which none of its certificates is
  revoked at it (and which covers them all unless it names one revoked later), and whose app the log admits. No cause for amber is among the labels.\<close>

theorem green_level:
  assumes "level P K proof spki core labels trust signers clock registered statement anchored stamped di = ret (lv, ls)"
    and "lv_ceiling lv = Green" "di \<Longrightarrow> \<not> is_name ''ios'' (member (field proof ''device'') ''platform'')"
  shows "di \<and> green_evidence P K proof spki core trust signers clock registered statement lv
    \<and> instant_for stamped anchored (device_clock_of proof) clock = (Some (lv_instant lv), lv_source lv) \<and> set AMBER_CAUSES \<inter> set ls = {}"
  using assms by (rule level_green)

definition demo_log :: trusted_log where
  "demo_log = \<lparr>log_id = js ''l'', log_spki = js ''AA'', app_signing_digests = None\<rparr>"

lemma demo_log_signs: "signed_by_log tail_platform [demo_log] message (replicate 64 0)"
  by (simp add: signed_by_log_def log_key_def demo_log_def public_key_from_spki_def tail_platform_def verify_es256_def)

definition demo_snapshot :: "json list \<Rightarrow> json" where
  "demo_snapshot entries = JObj [(js ''source'', JStr (js ''googleStatusList'')), (js ''fetched_at'', JNum (NInt 9)),
     (js ''sig'', JStr (b64url_encode (replicate 64 0))), (js ''entries'', JArr entries)]"

lemma demo_snapshot_signed:
  assumes "\<not> non_finite (JArr entries)"
  shows "frozen_revocation tail_platform (demo_snapshot entries) core [demo_log] serials
    = (case frozen_loop (by_serial entries) serials of (rs, incomplete) \<Rightarrow> Inr (Checked rs incomplete))"
proof -
  have m: "member (demo_snapshot entries) ''source'' = Some (JStr (js ''googleStatusList''))" "member (demo_snapshot entries) ''fetched_at'' = Some (JNum (NInt 9))"
    "member (demo_snapshot entries) ''sig'' = Some (JStr (b64url_encode (replicate 64 0)))" "member (demo_snapshot entries) ''entries'' = Some (JArr entries)"
    by (simp_all add: demo_snapshot_def del: b64url_encode.simps)
  obtain message where "attestation_status_message core (JArr entries) 9 = Inr message"
    using assms by (simp add: attestation_status_message_def jcs_of_def jcs_def u64be_def put_be_def)
  then show ?thesis
    by (simp add: frozen_revocation_def m demo_log_signs b64_decode_encode safe_int_def max_safe_def del: b64url_encode.simps)
qed

definition demo_valid :: "json list" where
  "demo_valid = [JObj [(js ''serial'', JStr []), (js ''status'', JStr (js ''valid''))]]"

definition demo_attested :: json where
  "demo_attested = JObj [(js ''device'', JObj [(js ''platform'', JStr (js ''android'')), (js ''secure_hw'', JStr (js ''tee'')), (js ''key_id'', JStr [])]),
     (js ''attestation'', JArr demo_chain), (js ''attestation_status'', demo_snapshot demo_valid)]"

definition demo_statement :: key_status_statement where
  "demo_statement = \<lparr>ks_log_id = js ''l'', ks_at = 50, ks_tree_size = 1, ks_status = 1, ks_signature = b64url_encode (replicate 64 0)\<rparr>"

definition demo_trust :: trust_bundle where
  "demo_trust = \<lparr>attestation_roots = [demo_root], trusted_logs = [demo_log], tsa_roots = []\<rparr>"

lemma demo_statement_valid: "verify_key_status tail_platform demo_statement kid 50 [demo_log] = Inr (Key_status 1)"
  by (simp add: verify_key_status_def demo_statement_def find_log_def demo_log_def log_key_def public_key_from_spki_def tail_platform_def
      key_status_message_def u64be_def put_be_def verify_es256_def b64_decode_encode del: b64url_encode.simps)

theorem green_level_witness:
  "\<exists>lv ls. level tail_platform demo_pki demo_attested [1] [7] [] (Some demo_trust) [demo_log] 200
      (Registered (Some (JStr (js ''tee''))) True (Some [js ''07''])) (Some demo_statement) Not_anchored (Stamped 50 0 100) True = ret (lv, ls)
    \<and> green_evidence tail_platform demo_pki demo_attested [1] [7] (Some demo_trust) [demo_log] 200
        (Registered (Some (JStr (js ''tee''))) True (Some [js ''07''])) (Some demo_statement) lv \<and> lv_proven lv = ''tee''"
proof -
  let ?reg = "Registered (Some (JStr (js ''tee''))) True (Some [js ''07''])"
  have f: "field demo_attested ''device'' = JObj [(js ''platform'', JStr (js ''android'')), (js ''secure_hw'', JStr (js ''tee'')), (js ''key_id'', JStr [])]"
    "member demo_attested ''attestation'' = Some (JArr demo_chain)" "obj_of (member demo_attested ''attestation_status'') = Some (demo_snapshot demo_valid)"
    by (simp_all add: demo_attested_def field_def obj_of_def demo_snapshot_def del: b64url_encode.simps)
  obtain out where out: "validate_chain tail_platform demo_pki demo_chain [1] [demo_root] (Some 50) 200 = ret out" "co_proven out = ''tee''"
    "co_invalid out = False" "co_digests out = Some [js ''07'']" "co_serials out = [[]]" by (rule demo_validates)
  have i: "instant_for (Stamped 50 0 100) Not_anchored (device_clock_of demo_attested) 200 = (Some 50, By_timestamp)"
    by (simp add: instant_for_def date_of_def)
  have k: "key_status_labels tail_platform demo_attested ?reg (Some demo_statement) (Some 50) [demo_log] = Inr []"
    by (simp add: key_status_labels_def demo_statement_valid)
  have c: "level_chain tail_platform demo_pki demo_attested [1] (Some demo_trust) (Some 50) 200 = ret (Some out)"
    using f out(1) by (simp add: level_chain_def is_name_def roots_of_def demo_trust_def)
  have stands: "chain_stands (Some out) (Some demo_trust)" using out by (simp add: chain_stands_def roots_of_def demo_trust_def)
  have "frozen_loop (by_serial demo_valid) [[]] = ([], False)" by code_simp
  then have "frozen_revocation tail_platform (demo_snapshot demo_valid) [7] [demo_log] (co_serials out) = Inr (Checked [] False)"
    using out(5) by (subst demo_snapshot_signed) (simp_all add: demo_valid_def)
  then have r: "revocation_labels tail_platform demo_attested [7] [demo_log] (Some out) (Some demo_trust) (Some 50) = Inr (False, [])"
    using stands f(3) by (simp add: revocation_labels_def)
  have n: "\<not> inconsistent demo_attested (Some out) (Some demo_trust) ?reg" "\<not> enclave demo_attested (Some out) ?reg"
    using out(2) f(1) stands
    by (simp_all add: inconsistent_def Let_def claimed_level_def name_in_def PLATFORMS_def SECURE_HW_def rank_of_def INHERITED_def
        above_def is_name_def RANK_def enclave_def)
  have a: "app_labels (Some out) (Some demo_trust) ?reg = []" using out(4) stands by (simp add: app_labels_def)
  have l: "chain_labels (Some out) (Some demo_trust) By_timestamp = (''tee'', [])"
    using out(2) by (simp add: chain_labels_def roots_of_def demo_trust_def)
  have g: "ceiling_of ''tee'' ?reg By_timestamp [] = Green" by (simp add: ceiling_of_def before_capture_def trusted_source_def AMBER_CAUSES_def)
  have "\<exists>lv ls. level tail_platform demo_pki demo_attested [1] [7] [] (Some demo_trust) [demo_log] 200 ?reg (Some demo_statement)
      Not_anchored (Stamped 50 0 100) True = ret (lv, ls) \<and> lv_ceiling lv = Green \<and> lv_proven lv = ''tee''"
    by (simp add: level_def i k c r n a l g trusted_source_def all_labels_def Let_def)
  then obtain lv ls where v: "level tail_platform demo_pki demo_attested [1] [7] [] (Some demo_trust) [demo_log] 200 ?reg (Some demo_statement)
      Not_anchored (Stamped 50 0 100) True = ret (lv, ls)" "lv_ceiling lv = Green" "lv_proven lv = ''tee''" by blast
  have "\<not> is_name ''ios'' (member (field demo_attested ''device'') ''platform'')" by (simp add: f(1) is_name_def)
  with green_level [OF v(1,2)] v show ?thesis by blast
qed

section \<open>A certificate the snapshot does not cover\<close>

text \<open>C39. A snapshot that leaves a certificate of the chain uncovered goes unsaid when another certificate is revoked after
  the capture: the only label is that revocation's, which caps nothing, where the specification asks for \<open>chain
  revocation not checked\<close> and amber.\<close>

theorem uncovered_certificate_unsaid:
  assumes "frozen_revocation P att core signers (co_serials out) = Inr (Checked rs True)" "rs \<noteq> []" "after_capture (Some t) rs"
    and "chain_stands (Some out) trust" "obj_of (member proof ''attestation_status'') = Some att"
  shows "revocation_labels P proof core signers (Some out) trust (Some t) = Inr (False, [''attestation key revoked after the capture''])
    \<and> ''attestation key revoked after the capture'' \<notin> set AMBER_CAUSES"
  using assms by (auto simp: revocation_labels_def AMBER_CAUSES_def)

definition demo_entries :: "json list" where
  "demo_entries = [JObj [(js ''serial'', JStr (js ''0A'')), (js ''status'', JStr (js ''revoked'')), (js ''revoked_at'', JNum (NInt 8)),
     (js ''reason'', JStr (js ''SUPERSEDED''))]]"

definition demo_outcome :: chain_outcome where
  "demo_outcome = \<lparr>co_proven = ''tee'', co_failures = [], co_invalid = False, co_boot_state = Some (True, ''verified''), co_expired = None,
     co_digests = None, co_serials = [js ''a'', js ''b'']\<rparr>"

theorem uncovered_certificate_unsaid_witness:
  "revocation_labels tail_platform (JObj [(js ''attestation_status'', demo_snapshot demo_entries)]) [7] [demo_log] (Some demo_outcome)
    (Some demo_trust) (Some 5)
      = Inr (False, [''attestation key revoked after the capture''])
    \<and> by_serial demo_entries (js ''b'') = None"
proof -
  have "frozen_loop (by_serial demo_entries) (co_serials demo_outcome) = ([\<lparr>rv_at = Some 8, rv_retroactive = False\<rparr>], True)"
    by code_simp
  then have f: "frozen_revocation tail_platform (demo_snapshot demo_entries) [7] [demo_log] (co_serials demo_outcome)
      = Inr (Checked [\<lparr>rv_at = Some 8, rv_retroactive = False\<rparr>] True)"
    by (subst demo_snapshot_signed) (simp_all add: demo_entries_def)
  have o: "obj_of (member (JObj [(js ''attestation_status'', demo_snapshot demo_entries)]) ''attestation_status'') = Some (demo_snapshot demo_entries)"
    by (simp add: obj_of_def demo_snapshot_def del: b64url_encode.simps)
  have u: "by_serial demo_entries (js ''b'') = None" by code_simp
  show ?thesis
    using u uncovered_certificate_unsaid [OF f _ _ _ o, of 5 "Some demo_trust"]
    by (simp add: after_capture_def chain_stands_def roots_of_def demo_trust_def demo_outcome_def)
qed

end
