(* ===== verification/Verify.thy ===== *)
theory Verify
  imports Binding Level Carrier Canonical Trailer
begin

text \<open>
  \<open>tools/src/verify.ts\<close> as a whole: \<open>judge\<close> weighs one proof over one media, \<open>verdictOfFile\<close> chooses
  between the proof a file carries and a sidecar, \<open>verifyFile\<close> takes an unusable trailer into account.
  A verdict is reached, an exception leaves the verifier (\<open>throw\<close>), or it does not return (\<open>None\<close>).
\<close>

section \<open>Verdicts\<close>

datatype outcome = No_proof_found | Corrupted_proof | Nested_proof | Unsupported_format_version
  | Tampered | Frames_not_compared | Verified_clip | Authentic

definition OUTCOME_RANK :: "outcome \<Rightarrow> nat" where
  "OUTCOME_RANK x = (case x of Authentic \<Rightarrow> 3 | Verified_clip \<Rightarrow> 2 | Frames_not_compared \<Rightarrow> 1 | _ \<Rightarrow> 0)"

datatype tampering = Alg_not_es256 | Pub_not_p256 | Sig_not_64_bytes | Core_signature_invalid | Key_id_differs
  | Attested_key_differs | Container_is_malformed | Chain_rejected "chain_reason option" | Timing_root_differs
  | Binding_problems "binding_problem list" | Media_hash_differs

datatype reason = Footer_crc | Footer_major nat | Nested_trailer | No_carrier carrier_reason | No_proof_in_manifest
  | Not_well_formed syntax_error | Not_an_object | Version_malformed | Version_major jsstr | Bad_shape shape_problem
  | Media_unreadable | Tampering tampering | No_frames not_located | Unbound "string option" "timing_problem option"
  | Media_differs | Segments_missing | Source_capture | Pub_not_p256_alone | Chain_alone "chain_reason option"

record verdict =
  vd_outcome :: outcome
  vd_labels :: "string list"
  vd_not_evaluated :: "jsstr list"
  vd_core_hash :: "bytes option"
  vd_segments :: "int list option"
  vd_level :: "proof_level option"
  vd_location :: "(string \<times> string) option"
  vd_source :: "proof_source option"
  vd_frames_name_capture :: "bool option"
  vd_reason :: "reason option"

definition fail :: "outcome \<Rightarrow> reason \<Rightarrow> verdict" where
  "fail outcome why = \<lparr>vd_outcome = outcome, vd_labels = [], vd_not_evaluated = [], vd_core_hash = None, vd_segments = None,
     vd_level = None, vd_location = None, vd_source = None, vd_frames_name_capture = None, vd_reason = Some why\<rparr>"

definition tampered :: "jsstr list \<Rightarrow> bytes \<Rightarrow> tampering \<Rightarrow> verdict" where
  "tampered unknown core why = (fail Tampered (Tampering why))\<lparr>vd_not_evaluated := unknown, vd_core_hash := Some core\<rparr>"

section \<open>What a caller supplies\<close>

record file_input =
  fi_file :: bytes
  fi_sidecar :: "bytes option"
  fi_recompute :: bool
  fi_trust :: "trust_bundle option"
  fi_clock :: int
  fi_key_status :: "key_status_statement option"
  fi_chain_read :: "chain_read option"
  fi_store :: "bytes option"

section \<open>judge: the core\<close>

text \<open>A signed core: the proof, what it signs, and the key that signed it.\<close>

record signed_core =
  sc_proof :: json
  sc_unknown :: "jsstr list"
  sc_hash :: bytes
  sc_spki :: bytes
  sc_key :: key_object

text \<open>Steps 2 to 4: reading, version, shape, signature and key binding.\<close>

definition leaf_differs :: "pki \<Rightarrow> json \<Rightarrow> bytes \<Rightarrow> bool" where
  "leaf_differs K proof spki = (case arr_of (member proof ''attestation'') of
     Some (leaf # _) \<Rightarrow> (case leaf_spki K leaf of None \<Rightarrow> False | Some k \<Rightarrow> k \<noteq> spki) | _ \<Rightarrow> False)"

definition sig_field :: "json \<Rightarrow> string \<Rightarrow> jsstr" where
  "sig_field proof k = (case str_of (member (field proof ''sig'') k) of None \<Rightarrow> [] | Some s \<Rightarrow> s)"

definition check_core :: "platform \<Rightarrow> pki \<Rightarrow> json \<Rightarrow> bytes \<Rightarrow> bytes \<Rightarrow> verdict + signed_core" where
  "check_core P K proof core_text core = (let
       unknown = unknown_keys proof; spki = b64_decode (sig_field proof ''pub''); sg = b64_decode (sig_field proof ''value'')
     in if sig_field proof ''alg'' \<noteq> js ''ES256'' then Inl (tampered unknown core Alg_not_es256)
     else case public_key_from_spki P spki of None \<Rightarrow> Inl (tampered unknown core Pub_not_p256)
     | Some key \<Rightarrow>
       if length sg \<noteq> 64 then Inl (tampered unknown core Sig_not_64_bytes)
       else if \<not> verify_es256 P core_text sg key then Inl (tampered unknown core Core_signature_invalid)
       else if key_id_text proof \<noteq> key_id P spki then Inl (tampered unknown core Key_id_differs)
       else if leaf_differs K proof spki then Inl (tampered unknown core Attested_key_differs)
       else Inr \<lparr>sc_proof = proof, sc_unknown = unknown, sc_hash = core, sc_spki = spki, sc_key = key\<rparr>)"

definition read_core :: "platform \<Rightarrow> pki \<Rightarrow> bytes \<Rightarrow> fault + (verdict + signed_core)" where
  "read_core P K payload = (case parse_proof_json payload of
     Inl e \<Rightarrow> Inr (Inl (fail No_proof_found (Not_well_formed e)))
   | Inr proof \<Rightarrow>
       if \<not> is_object proof then Inr (Inl (fail No_proof_found Not_an_object))
       else case version_of (member proof ''v'') of None \<Rightarrow> Inr (Inl (fail No_proof_found Version_malformed))
       | Some (major, _) \<Rightarrow>
         if major \<noteq> js ''1'' then Inr (Inl (fail Unsupported_format_version (Version_major major)))
         else case shape_problem proof of Some p \<Rightarrow> Inr (Inl (fail No_proof_found (Bad_shape p)))
         | None \<Rightarrow> (case (core_bytes proof, core_hash P proof) of
             (Some core_text, Some core) \<Rightarrow> Inr (check_core P K proof core_text core)
           | _ \<Rightarrow> Inl Plain_error))"

section \<open>judge: the evidence\<close>

definition ABSENT_LABELS :: "(string \<times> string) list" where
  "ABSENT_LABELS = [(''attestation'', ''origin not hardware-attested''), (''watermark'', ''no watermark'')]"

definition absent_labels :: "json \<Rightarrow> string list" where
  "absent_labels proof = map snd (filter (\<lambda>(k, _). \<not> carries proof k) ABSENT_LABELS)"

definition pseudonymous :: "json \<Rightarrow> bool" where
  "pseudonymous proof = (case obj_of (member proof ''policy'') of None \<Rightarrow> False
     | Some p \<Rightarrow> member p ''pseudonymous'' = Some (JBool True))"

text \<open>Bits 1 and 2 of the footer's flags against what the JSON says.\<close>

definition flag_labels :: "nat option \<Rightarrow> json \<Rightarrow> string list" where
  "flag_labels flags proof = (case flags of None \<Rightarrow> []
     | Some f \<Rightarrow> if odd (f div flag_segments) = carries proof ''segments'' \<and> odd (f div flag_pseudonymous) = pseudonymous proof
         then [] else [''flags disagree''])"

record evidence =
  ev_anchor :: anchor_verdict
  ev_stamp :: timestamp_verdict
  ev_registry :: registry_verdict
  ev_signers :: "trusted_log list"
  ev_integrity :: bool
  ev_location :: "string \<times> string"
  ev_labels :: "string list"

definition weigh :: "platform \<Rightarrow> pki \<Rightarrow> signed_core \<Rightarrow> file_input \<Rightarrow> nat option \<Rightarrow> string list \<Rightarrow> evidence run" where
  "weigh P K sc input flags labels = (let
       proof = sc_proof sc; core = sc_hash sc; trust = fi_trust input;
       (anchored, l1) = anchor_verdict_of P proof core (fi_chain_read input)
     in run_bind (timestamp_verdict_of P K proof core trust) (\<lambda>(stamp, l2). let
       (stamped, l3) = agree stamp anchored;
       device_clock = device_clock_of proof;
       l4 = (if device_clock = None then [''capture time not declared''] else []);
       gen_time = (case stamped of Stamped t _ _ \<Rightarrow> Some t | No_timestamp \<Rightarrow> None)
     in run_bind (run_sum (registry_verdict_of P proof (sc_spki sc) trust device_clock gen_time)) (\<lambda>(registered, l5). let
       signers = signing_logs proof trust
     in run_bind (run_sum (integrity_verdict P proof core signers)) (\<lambda>(integrity, l6).
        run_bind (run_sum (location_verdict P proof core signers)) (\<lambda>(location, l7).
        ret \<lparr>ev_anchor = anchored, ev_stamp = stamped, ev_registry = registered, ev_signers = signers,
             ev_integrity = integrity, ev_location = location,
             ev_labels = labels @ absent_labels proof @ l1 @ l2 @ l3 @ l4 @ l5 @ l6 @ l7
               @ (if carries proof ''watermark'' then [''watermark not evaluated''] else []) @ flag_labels flags proof\<rparr>)))))"

section \<open>judge: the segments\<close>

datatype segments_verdict = Decided verdict | Continue "string list" "int list option"

text \<open>Reading and binding; \<open>Inl\<close> is the malformed container.\<close>

definition read_binding :: "platform \<Rightarrow> bytes \<Rightarrow> bool \<Rightarrow> bytes \<Rightarrow> segment_entry list
    \<Rightarrow> (unit + string list \<times> binding \<times> container_reading option) run" where
  "read_binding P media recompute cid entries =
     (if \<not> recompute then ret (Inr ([''segment content not recomputed''], Not_located Not_recomputed, None))
      else case read_container P media of
        Inl Container_malformed \<Rightarrow> ret (Inl ())
      | Inl (Container_throws f) \<Rightarrow> throw f
      | Inr reading \<Rightarrow> ret (Inr ((case reading of Unreadable _ \<Rightarrow> [''segment content not recomputed''] | Gops _ \<Rightarrow> []),
          bind_segments reading cid entries, Some reading)))"

definition gops_of :: "container_reading option \<Rightarrow> gops_reading option" where
  "gops_of reading = (case reading of Some (Gops rd) \<Rightarrow> Some rd | _ \<Rightarrow> None)"

definition is_located :: "binding \<Rightarrow> bool" where
  "is_located b = (case b of Located _ _ \<Rightarrow> True | Not_located _ \<Rightarrow> False)"

definition credited :: "binding \<Rightarrow> chain_result \<Rightarrow> int list" where
  "credited b chain = (case b of Not_located _ \<Rightarrow> [] | Located verified _ \<Rightarrow> filter (\<lambda>i. i \<in> set (ch_verified chain)) verified)"

text \<open>A verdict on the frames: everything but the outcome, the labels, the credited segments and the reason is fixed.\<close>

definition frames_verdict :: "signed_core \<Rightarrow> evidence \<Rightarrow> outcome \<Rightarrow> string list \<Rightarrow> int list \<Rightarrow> reason \<Rightarrow> verdict" where
  "frames_verdict sc ev outcome labels segments why = (fail outcome why)\<lparr>vd_labels := sort labels, vd_not_evaluated := sc_unknown sc,
     vd_core_hash := Some (sc_hash sc), vd_segments := Some segments, vd_location := Some (ev_location ev)\<rparr>"

text \<open>A file that is not the original.\<close>

definition judge_clip :: "platform \<Rightarrow> signed_core \<Rightarrow> evidence \<Rightarrow> string list \<Rightarrow> binding \<Rightarrow> gops_reading option \<Rightarrow> segment_entry list
    \<Rightarrow> int list \<Rightarrow> bool \<Rightarrow> fault + verdict" where
  "judge_clip P sc ev labels b reading entries verified authenticated = (let
       media = field (sc_proof sc) ''media''
     in case b of
       Not_located why \<Rightarrow> Inr (frames_verdict sc ev Frames_not_compared labels verified (No_frames why))
     | Located _ _ \<Rightarrow> (let
         unbound = (case reading of None \<Rightarrow> None
           | Some rd \<Rightarrow> if rd_layout rd \<noteq> None then Some ''tracks not bound''
               else if presentation_differs (field media ''presentation'') (rd_presentation rd) then Some ''presentation differs'' else None)
       in rbind (case reading of None \<Rightarrow> Inr None
           | Some rd \<Rightarrow> clip_timing_problem P rd (field media ''timing'') entries verified authenticated) (\<lambda>retimed.
         if unbound \<noteq> None \<or> retimed \<noteq> None
         then Inr (frames_verdict sc ev Frames_not_compared
           (labels @ (case unbound of None \<Rightarrow> [] | Some l \<Rightarrow> [l]) @ (if retimed \<noteq> None then [''timing differs''] else []))
           [] (Unbound unbound retimed))
         else Inr (frames_verdict sc ev Verified_clip labels verified Media_differs))))"

text \<open>The original: presentation and timing are flagged, and missing segments make it a clip.\<close>

definition judge_original :: "platform \<Rightarrow> signed_core \<Rightarrow> evidence \<Rightarrow> string list \<Rightarrow> gops_reading option \<Rightarrow> bytes \<Rightarrow> int
    \<Rightarrow> chain_status \<Rightarrow> int list \<Rightarrow> fault + segments_verdict" where
  "judge_original P sc ev labels reading cid many status verified = (let
       media = field (sc_proof sc) ''media'';
       presented = (case reading of None \<Rightarrow> False
         | Some rd \<Rightarrow> presentation_differs (field media ''presentation'') (rd_presentation rd))
     in rbind (case reading of None \<Rightarrow> Inr False
         | Some rd \<Rightarrow> original_timing_differs P rd (field media ''timing'') cid many) (\<lambda>timed. let
       ls = labels @ (if presented then [''presentation differs''] else []) @ (if timed then [''timing differs''] else [])
     in Inr (if status = Clip then Decided (frames_verdict sc ev Verified_clip ls verified Segments_missing)
        else Continue ls (Some verified))))"

text \<open>The media member \<open>segment_count\<close>, which the shape check has read as an integer.\<close>

definition segment_count_of :: "json \<Rightarrow> int" where
  "segment_count_of proof = (case int_of (member (field proof ''media'') ''segment_count'') of None \<Rightarrow> 0 | Some n \<Rightarrow> n)"

definition judge_bound :: "platform \<Rightarrow> signed_core \<Rightarrow> evidence \<Rightarrow> bool \<Rightarrow> segment_entry list \<Rightarrow> bytes \<Rightarrow> chain_result \<Rightarrow> string list
    \<Rightarrow> binding \<Rightarrow> gops_reading option \<Rightarrow> fault + segments_verdict" where
  "judge_bound P sc ev matches entries cid chain labels b reading = (let
       proof = sc_proof sc; many = segment_count_of proof; verified = credited b chain;
       red = (\<lambda>why. Inr (Decided ((tampered (sc_unknown sc) (sc_hash sc) why)\<lparr>vd_segments := Some verified\<rparr>)));
       authenticated = timing_entries_complete entries many
     in if ch_status chain = Chain_tampered then red (Chain_rejected (ch_reason chain))
     else rbind (if authenticated then entries_root P entries else Inr []) (\<lambda>root.
       if authenticated \<and> Some (JStr (b64url_encode root)) \<noteq> member (field (field proof ''media'') ''timing'') ''root''
       then red Timing_root_differs
       else case b of
         Located _ (p # ps) \<Rightarrow> red (Binding_problems (p # ps))
       | _ \<Rightarrow> if \<not> matches then rbind (judge_clip P sc ev labels b reading entries verified authenticated) (\<lambda>v. Inr (Decided v))
           else judge_original P sc ev labels reading cid many (ch_status chain) verified))"

definition capture_of :: "json \<Rightarrow> bytes" where
  "capture_of proof = (case str_of (member proof ''capture_id'') of None \<Rightarrow> [] | Some s \<Rightarrow> b64_decode s)"

text \<open>The branch of a proof with segments: the verdict or what \<open>judge\<close> goes on with, and whether frames were located.\<close>

definition judge_segments :: "platform \<Rightarrow> signed_core \<Rightarrow> evidence \<Rightarrow> bytes \<Rightarrow> bool \<Rightarrow> bool
    \<Rightarrow> (segments_verdict \<times> bool option) run" where
  "judge_segments P sc ev media matches recompute = (let
       proof = sc_proof sc; cid = capture_of proof
     in run_bind (run_sum (entries_of_proof proof)) (\<lambda>entries.
       case verify_chain P cid (segment_count_of proof) entries (sc_key sc) of None \<Rightarrow> throw Type_error
       | Some chain \<Rightarrow> run_bind (read_binding P media recompute cid entries) (\<lambda>r. case r of
           Inl _ \<Rightarrow> ret (Decided ((tampered (sc_unknown sc) (sc_hash sc) Container_is_malformed)\<lparr>vd_segments := Some []\<rparr>), None)
         | Inr (ls, b, reading) \<Rightarrow>
             run_bind (run_sum (judge_bound P sc ev matches entries cid chain (ev_labels ev @ ls) b (gops_of reading))) (\<lambda>v.
               ret (v, if recompute then Some (is_located b) else None)))))"

section \<open>judge\<close>

definition authentic_verdict :: "platform \<Rightarrow> pki \<Rightarrow> signed_core \<Rightarrow> evidence \<Rightarrow> file_input \<Rightarrow> string list \<Rightarrow> int list option \<Rightarrow> verdict run" where
  "authentic_verdict P K sc ev input labels segments =
     run_bind (level P K (sc_proof sc) (sc_spki sc) (sc_hash sc) (sort labels) (fi_trust input) (ev_signers ev) (fi_clock input)
       (ev_registry ev) (fi_key_status input) (ev_anchor ev) (ev_stamp ev) (ev_integrity ev)) (\<lambda>(lv, ls).
     ret \<lparr>vd_outcome = Authentic, vd_labels = ls, vd_not_evaluated = sc_unknown sc, vd_core_hash = Some (sc_hash sc),
       vd_segments = segments, vd_level = Some lv, vd_location = Some (ev_location ev), vd_source = None,
       vd_frames_name_capture = None, vd_reason = None\<rparr>)"

text \<open>The verdict, and whether the container was read for frames naming the capture (\<open>located.frames\<close>).\<close>

definition judge :: "platform \<Rightarrow> pki \<Rightarrow> bytes \<Rightarrow> bytes \<Rightarrow> nat option \<Rightarrow> string list \<Rightarrow> file_input \<Rightarrow> (verdict \<times> bool option) run" where
  "judge P K payload media flags labels input = run_bind (run_sum (read_core P K payload)) (\<lambda>r. case r of
       Inl v \<Rightarrow> ret (v, None)
     | Inr sc \<Rightarrow> (case media_hash P media of None \<Rightarrow> ret (fail No_proof_found Media_unreadable, None)
       | Some h \<Rightarrow> let matches = (member (field (sc_proof sc) ''media'') ''hash'' = Some (JStr h)) in
         run_bind (weigh P K sc input flags labels) (\<lambda>ev.
           if carries (sc_proof sc) ''segments'' then
             run_bind (judge_segments P sc ev media matches (fi_recompute input)) (\<lambda>(s, located). case s of
               Decided v \<Rightarrow> ret (v, located)
             | Continue ls segments \<Rightarrow> run_bind (authentic_verdict P K sc ev input ls segments) (\<lambda>v. ret (v, located)))
           else if \<not> matches then ret (tampered (sc_unknown sc) (sc_hash sc) Media_hash_differs, None)
           else run_bind (authentic_verdict P K sc ev input (ev_labels ev) None) (\<lambda>v. ret (v, None)))))"

text \<open>\<open>{ ...judge(...), proof_source }\<close> with the frames flag.\<close>

definition judged :: "platform \<Rightarrow> pki \<Rightarrow> bytes \<Rightarrow> bytes \<Rightarrow> nat option \<Rightarrow> string list \<Rightarrow> file_input \<Rightarrow> proof_source \<Rightarrow> verdict run" where
  "judged P K payload media flags labels input source = run_bind (judge P K payload media flags labels input) (\<lambda>(v, located).
     ret (v\<lparr>vd_source := Some source, vd_frames_name_capture := located\<rparr>))"

section \<open>verifyFile\<close>

definition better :: "verdict \<Rightarrow> verdict \<Rightarrow> verdict" where
  "better other v = (if OUTCOME_RANK (vd_outcome other) > OUTCOME_RANK (vd_outcome v) then other else v)"

definition depth_of :: "proof_source \<Rightarrow> nat" where
  "depth_of source = (case source of From_c2pa _ d \<Rightarrow> d | _ \<Rightarrow> 0)"

text \<open>A proof of a source capture is never held against the derivation that carries it.\<close>

definition of_source_capture :: "proof_source \<Rightarrow> verdict \<Rightarrow> verdict" where
  "of_source_capture source v =
     (if depth_of source \<ge> 1 \<and> (vd_outcome v = Tampered \<or> vd_outcome v = Frames_not_compared)
      then (fail No_proof_found Source_capture)\<lparr>vd_core_hash := vd_core_hash v, vd_source := Some source,
             vd_frames_name_capture := vd_frames_name_capture v\<rparr>
      else v)"

definition verdict_of_file :: "platform \<Rightarrow> pki \<Rightarrow> file_input \<Rightarrow> verdict run" where
  "verdict_of_file P K input = (case extract_proof (fi_file input) (fi_sidecar input) (fi_store input) of
     Corrupted \<Rightarrow> ret (fail Corrupted_proof Footer_crc)
   | Unsupported major \<Rightarrow> ret (fail Unsupported_format_version (Footer_major major))
   | Nested \<Rightarrow> ret (fail Nested_proof Nested_trailer)
   | No_proof why \<Rightarrow> ret (fail No_proof_found (No_carrier why))
   | No_proof_in_credentials \<Rightarrow> ret (fail No_proof_found No_proof_in_manifest)
   | Proof_found ex \<Rightarrow>
       run_bind (judged P K (ex_payload ex) (ex_media ex) (ex_flags ex) (ex_labels ex) input (ex_source ex)) (\<lambda>v.
         case ex_alternate ex of None \<Rightarrow> ret (of_source_capture (ex_source ex) v)
         | Some (payload, labels) \<Rightarrow>
             run_bind (judged P K payload (ex_media ex) None labels input From_sidecar) (\<lambda>other.
               if OUTCOME_RANK (vd_outcome other) > OUTCOME_RANK (vd_outcome v) then ret other
               else ret (of_source_capture (ex_source ex) v))))"

definition verify_file :: "platform \<Rightarrow> pki \<Rightarrow> file_input \<Rightarrow> verdict run" where
  "verify_file P K input = run_bind (verdict_of_file P K input) (\<lambda>v.
     case unreadable_alternate (fi_file input) (fi_sidecar input) (fi_store input) of None \<Rightarrow> ret v
     | Some alt \<Rightarrow> run_bind (judged P K (alt_payload alt) (alt_media alt) None (alt_labels alt) input From_sidecar) (\<lambda>other.
         ret (better other v)))"

section \<open>verifySegments\<close>

record segments_input =
  si_capture_id :: jsstr
  si_pub :: jsstr
  si_segment_count :: int
  si_segments :: "segment_entry list"

definition verify_segments :: "platform \<Rightarrow> segments_input \<Rightarrow> fault + verdict" where
  "verify_segments P input = (case public_key_from_spki P (b64_decode (si_pub input)) of
     None \<Rightarrow> Inr (fail Tampered Pub_not_p256_alone)
   | Some key \<Rightarrow> (case verify_chain P (b64_decode (si_capture_id input)) (si_segment_count input) (si_segments input) key of
       None \<Rightarrow> Inl Type_error
     | Some chain \<Rightarrow> Inr ((fail (case ch_status chain of Complete \<Rightarrow> Authentic | Clip \<Rightarrow> Verified_clip | Chain_tampered \<Rightarrow> Tampered)
           Segments_missing)\<lparr>vd_segments := Some (ch_verified chain), vd_reason := map_option (\<lambda>r. Chain_alone (Some r)) (ch_reason chain)\<rparr>)))"

end
