(* ===== verification/Demo.thy ===== *)
theory Demo
  imports Verify Json_Canonical
begin

text \<open>
  A concrete file for the theorems about whole verdicts: three bytes that are no known container, a sidecar holding a
  proof without attachments whose device clock is \<open>t\<close>, and a platform on which every signature verifies.
\<close>

definition demo_media :: bytes where "demo_media = [1, 2, 3]"

definition demo_device :: json where
  "demo_device = JObj [(js ''key_id'', JStr (key_id tail_platform [2])), (js ''platform'', JStr (js ''android'')),
     (js ''secure_hw'', JStr (js ''tee''))]"

definition demo_media_object :: json where
  "demo_media_object = JObj [(js ''h'', JNum (NInt 4)), (js ''hash'', JStr (b64url_encode (sha256 tail_platform demo_media))),
     (js ''mime'', JStr (js ''image/png'')), (js ''w'', JNum (NInt 6))]"

definition demo_sig :: json where
  "demo_sig = JObj [(js ''alg'', JStr (js ''ES256'')), (js ''pub'', JStr (b64url_encode [2])),
     (js ''value'', JStr (b64url_encode (replicate 64 0)))]"

definition demo_proof :: "int \<Rightarrow> json" where
  "demo_proof t = JObj [(js ''capture_id'', JStr (b64url_encode (replicate 16 0))), (js ''device'', demo_device),
     (js ''media'', demo_media_object), (js ''sig'', demo_sig), (js ''time'', JObj [(js ''device_clock'', JNum (NInt t))]),
     (js ''v'', JStr (js ''vcap/1.0''))]"

definition demo_payload :: "int \<Rightarrow> bytes" where "demo_payload t = utf8_encode (serialize (demo_proof t))"

definition demo_input :: "int \<Rightarrow> file_input" where
  "demo_input t = \<lparr>fi_file = demo_media, fi_sidecar = Some (demo_payload t), fi_recompute = False, fi_trust = None, fi_clock = 0,
     fi_key_status = None, fi_chain_read = None, fi_store = None\<rparr>"

lemmas demo_defs = demo_proof_def demo_device_def demo_media_object_def demo_sig_def

lemma demo_members [simp]:
  "member (demo_proof t) ''capture_id'' = Some (JStr (b64url_encode (replicate 16 0)))"
  "member (demo_proof t) ''device'' = Some demo_device" "member (demo_proof t) ''media'' = Some demo_media_object"
  "member (demo_proof t) ''sig'' = Some demo_sig" "member (demo_proof t) ''v'' = Some (JStr (js ''vcap/1.0''))"
  "member (demo_proof t) ''time'' = Some (JObj [(js ''device_clock'', JNum (NInt t))])"
  "member (demo_proof t) ''segments'' = None" "member (demo_proof t) ''attestation'' = None" "member (demo_proof t) ''anchor'' = None"
  "member (demo_proof t) ''timestamp'' = None" "member (demo_proof t) ''registry'' = None" "member (demo_proof t) ''integrity'' = None"
  "member (demo_proof t) ''location'' = None" "member (demo_proof t) ''location_corroboration'' = None"
  "member (demo_proof t) ''watermark'' = None" "member (demo_proof t) ''policy'' = None"
  by (simp_all add: demo_proof_def del: b64url_encode.simps)

lemma demo_field_members [simp]:
  "member demo_device ''key_id'' = Some (JStr (key_id tail_platform [2]))" "member demo_device ''platform'' = Some (JStr (js ''android''))"
  "member demo_device ''secure_hw'' = Some (JStr (js ''tee''))" "member demo_media_object ''w'' = Some (JNum (NInt 6))"
  "member demo_media_object ''h'' = Some (JNum (NInt 4))" "member demo_media_object ''mime'' = Some (JStr (js ''image/png''))"
  "member demo_media_object ''hash'' = Some (JStr (b64url_encode (sha256 tail_platform demo_media)))"
  "member demo_media_object ''presentation'' = None" "member demo_media_object ''timing'' = None"
  "member demo_sig ''alg'' = Some (JStr (js ''ES256''))" "member demo_sig ''pub'' = Some (JStr (b64url_encode [2]))"
  "member demo_sig ''value'' = Some (JStr (b64url_encode (replicate 64 0)))"
  "is_object demo_device" "is_object demo_media_object" "is_object demo_sig" "is_object (demo_proof t)"
  by (simp_all add: demo_defs is_object_def del: b64url_encode.simps)

lemma demo_value: "safe_int t \<Longrightarrow> proof_value (demo_proof t)" "depth (demo_proof t) \<le> 64"
  by (simp_all add: demo_defs safe_int_def max_safe_def del: b64url_encode.simps)

lemma sort_key_sorted: "sorted (map f xs) \<Longrightarrow> sort_key f xs = xs"
  by (simp add: sort_key_id_if_sorted)

lemma demo_canon: "canon (demo_proof t) = demo_proof t"
proof -
  have "sorted (map js [''capture_id'', ''device'', ''media'', ''sig'', ''time'', ''v''])" "sorted (map js [''key_id'', ''platform'', ''secure_hw''])"
    "sorted (map js [''h'', ''hash'', ''mime'', ''w''])" "sorted (map js [''alg'', ''pub'', ''value''])"
    by code_simp+
  then show ?thesis by (simp add: demo_defs sort_key_sorted del: b64url_encode.simps)
qed

lemma demo_parse: "safe_int t \<Longrightarrow> parse_proof_json (demo_payload t) = Inr (demo_proof t)"
  using parse_serialize [OF demo_value] demo_canon by (simp add: demo_payload_def)

lemma demo_extraction: "extract_proof demo_media (Some s) None = Proof_found \<lparr>ex_payload = s, ex_media = demo_media, ex_flags = None,
    ex_source = From_sidecar, ex_labels = [], ex_alternate = None\<rparr>" "unreadable_alternate demo_media (Some s) None = None"
  by (simp_all add: extract_proof_def unreadable_alternate_def demo_media_def parse_trailer_def unreadable_trailer_start_def
      trailer_consts carrier_of_def embedded_stores_def is_jpeg_def no_carrier_def)

lemma b64url_len_encode: "bs \<noteq> [] \<Longrightarrow> b64url_len (Some (JStr (b64url_encode bs))) (length bs)"
proof -
  assume "bs \<noteq> []"
  then have "b64url_encode bs \<noteq> []" by (cases bs rule: b64url_encode.cases) simp_all
  then show ?thesis using b64url_encode_units [of bs]
    by (simp add: b64url_len_def b64_decode_encode list_all_iff del: b64url_encode.simps)
qed

lemma demo_version: "version_of (Some (JStr (js ''vcap/1.0''))) = Some (js ''1'', js ''0'')"
  by code_simp

lemma demo_extract: "extract_core (demo_proof t) = JObj [(js ''v'', JStr (js ''vcap/1.0'')),
    (js ''capture_id'', JStr (b64url_encode (replicate 16 0))), (js ''media'', demo_media_object), (js ''device'', demo_device),
    (js ''time'', JObj [(js ''device_clock'', JNum (NInt t))])]"
  by (simp add: extract_core_def CORE_KEYS_def List.map_filter_def)

lemma demo_shape: "shape_problem (demo_proof t) = None"
proof -
  have a: "b64url_len (member (demo_proof t) ''capture_id'') 16" using b64url_len_encode [of "replicate 16 0"] by simp
  have b: "take 6 (js ''image/png'') \<noteq> js ''video/''" by code_simp
  have c: "\<not> has_non_integer (extract_core (demo_proof t))"
    by (simp add: demo_extract demo_media_object_def demo_device_def del: b64url_encode.simps)
  show ?thesis using a b c
    by (simp add: shape_problem_def field_def texts_def at_least_one_def carries_def segments_problem_def core_object_def)
qed

definition demo_text :: "int \<Rightarrow> bytes" where "demo_text t = utf8_encode (serialize (extract_core (demo_proof t)))"

lemma demo_core_bytes: "core_bytes (demo_proof t) = Some (demo_text t)" "core_hash tail_platform (demo_proof t) = Some (sha256 tail_platform (demo_text t))"
proof -
  have "\<not> non_finite (extract_core (demo_proof t))"
    by (simp add: demo_extract demo_media_object_def demo_device_def del: b64url_encode.simps)
  then show "core_bytes (demo_proof t) = Some (demo_text t)" by (simp add: core_bytes_def jcs_def demo_text_def)
  then show "core_hash tail_platform (demo_proof t) = Some (sha256 tail_platform (demo_text t))" by (simp add: core_hash_def)
qed

definition demo_core :: "int \<Rightarrow> signed_core" where
  "demo_core t = \<lparr>sc_proof = demo_proof t, sc_unknown = [], sc_hash = sha256 tail_platform (demo_text t), sc_spki = [2],
     sc_key = \<lparr>key_spki = [2], key_type = ''ec'', key_curve = Some ''prime256v1''\<rparr>\<rparr>"

lemma demo_unknown: "unknown_keys (demo_proof t) = []"
  by (simp add: unknown_keys_def demo_proof_def KNOWN_KEYS_def del: b64url_encode.simps)

lemma demo_read: "safe_int t \<Longrightarrow> read_core tail_platform demo_pki (demo_payload t) = Inr (Inr (demo_core t))"
proof -
  assume t: "safe_int t"
  have "check_core tail_platform demo_pki (demo_proof t) (demo_text t) (sha256 tail_platform (demo_text t)) = Inr (demo_core t)"
    by (simp add: check_core_def Let_def sig_field_def field_def b64_decode_encode public_key_from_spki_def verify_es256_def
        key_id_text_def leaf_differs_def demo_unknown demo_core_def tail_platform_def arr_of_def str_of_def del: b64url_encode.simps)
  then show ?thesis
    by (simp add: read_core_def demo_parse t demo_version demo_shape demo_core_bytes)
qed

definition demo_labels :: "string list" where
  "demo_labels = [''origin not hardware-attested'', ''no watermark'', ''not anchored'', ''no trusted time'',
     ''key not in transparency log'', ''integrity unevaluated'']"

definition demo_evidence :: evidence where
  "demo_evidence = \<lparr>ev_anchor = Not_anchored, ev_stamp = No_timestamp, ev_registry = Unregistered, ev_signers = [],
     ev_integrity = False, ev_location = (''none'', ''none''), ev_labels = demo_labels\<rparr>"

lemma demo_sc [simp]: "sc_proof (demo_core t) = demo_proof t"
  by (simp add: demo_core_def)

lemma demo_ev_labels [simp]: "ev_labels demo_evidence = demo_labels"
  by (simp add: demo_evidence_def)

lemma demo_clock: "device_clock_of (demo_proof t) = Some t"
  by (simp add: device_clock_of_def obj_of_def)

lemma demo_weigh: "weigh P K (demo_core t) ((demo_input t)\<lparr>fi_file := whole\<rparr>) None [] = ret demo_evidence"
proof -
  have none: "obj_of None = None" by (simp add: obj_of_def)
  show ?thesis
    by (simp add: weigh_def Let_def anchor_verdict_of_def timestamp_verdict_of_def registry_verdict_of_def integrity_verdict_def
        location_verdict_def signing_logs_def logs_of_def agree_def absent_labels_def ABSENT_LABELS_def carries_def flag_labels_def
        demo_clock none demo_input_def demo_evidence_def demo_labels_def)
qed

lemma demo_media_hash: "media_hash P demo_media = Some (b64url_encode (sha256 P demo_media))"
  by (simp add: media_hash_def canonical_bytes_def detect_container_def is_jpeg_def demo_media_def)

text \<open>Judged over these bytes, the sidecar goes on to the level; over any others it is red.\<close>

lemma demo_judge:
  assumes "safe_int t"
  shows "judge tail_platform demo_pki (demo_payload t) demo_media None [] ((demo_input t)\<lparr>fi_file := whole\<rparr>) =
    run_bind (authentic_verdict tail_platform demo_pki (demo_core t) demo_evidence ((demo_input t)\<lparr>fi_file := whole\<rparr>) demo_labels None)
      (\<lambda>v. ret (v, None))"
  by (simp add: judge_def demo_read [OF assms] demo_media_hash demo_weigh carries_def field_def)

lemma demo_file [simp]: "(demo_input t)\<lparr>fi_file := demo_media\<rparr> = demo_input t"
  by (simp add: demo_input_def)

lemma demo_verify:
  assumes "safe_int t"
  shows "verify_file tail_platform demo_pki (demo_input t) =
    run_bind (authentic_verdict tail_platform demo_pki (demo_core t) demo_evidence (demo_input t) demo_labels None)
      (\<lambda>v. ret (v\<lparr>vd_source := Some From_sidecar, vd_frames_name_capture := None\<rparr>))"
proof -
  have f: "fi_file (demo_input t) = demo_media" "fi_sidecar (demo_input t) = Some (demo_payload t)" "fi_store (demo_input t) = None"
    by (simp_all add: demo_input_def)
  show ?thesis
    using demo_judge [OF assms, of demo_media]
    by (cases "authentic_verdict tail_platform demo_pki (demo_core t) demo_evidence (demo_input t) demo_labels None")
      (auto simp: verify_file_def verdict_of_file_def f demo_extraction judged_def run_bind_def ret_def of_source_capture_def depth_of_def
        split: sum.splits)
qed

lemma demo_level_pieces:
  "key_status_labels P (demo_proof t) Unregistered statement asked signers = Inr []"
  "level_chain P K (demo_proof t) spki trust instant clock = ret None"
  "revocation_labels P (demo_proof t) core signers None trust trusted = Inr (False, [])"
  by (simp_all add: key_status_labels_def level_chain_def arr_of_def revocation_labels_def chain_stands_def)

lemma demo_level:
  "level P K (demo_proof t) spki core labels trust signers clock Unregistered statement Not_anchored No_timestamp di =
    (case date_of t of None \<Rightarrow> throw Range_error
     | Some d \<Rightarrow> ret (\<lparr>lv_claimed = ''tee'', lv_proven = ''none'', lv_ceiling = ceiling_of ''none'' Unregistered By_device_clock labels,
         lv_instant = d, lv_source = By_device_clock\<rparr>, sort labels))"
proof -
  have c: "claimed_level demo_device = ''tee''"
    by (simp add: claimed_level_def name_in_def PLATFORMS_def SECURE_HW_def)
  have e: "\<not> enclave (demo_proof t) None Unregistered" "\<not> inconsistent (demo_proof t) None trust Unregistered"
    by (simp_all add: enclave_def inconsistent_def chain_stands_def Let_def)
  show ?thesis
    by (simp add: level_def Let_def instant_for_def demo_clock demo_level_pieces chain_labels_def e all_labels_def app_labels_def
        trusted_source_def field_def c split: option.split)
qed

lemma demo_authentic:
  "\<exists>v. authentic_verdict tail_platform demo_pki (demo_core 0) demo_evidence input demo_labels None = ret v \<and> vd_outcome v = Authentic"
  by (simp add: authentic_verdict_def demo_evidence_def demo_level date_of_def)

text \<open>The same file with the footer of a trailer that is not there.\<close>

definition demo_footed :: file_input where
  "demo_footed = (demo_input 0)\<lparr>fi_file := demo_media @ MAGIC @ replicate 12 0\<rparr>"

lemma demo_footed_alternate: "unreadable_alternate (fi_file demo_footed) (fi_sidecar demo_footed) (fi_store demo_footed)
    = Some \<lparr>alt_payload = demo_payload 0, alt_media = demo_media, alt_labels = [''trailer unreadable'']\<rparr>"
  by (simp add: demo_footed_def demo_input_def demo_media_def unreadable_alternate_def unreadable_trailer_start_def parse_trailer_def
      trailer_consts slice_def carrier_of_def embedded_stores_def is_jpeg_def no_carrier_def manifest_label_def be_val_def)

end
