(* ===== verification/Verdicts.thy ===== *)
theory Verdicts
  imports Demo
begin

text \<open>
  What the verdicts of \<open>Verify\<close> mean: where a verdict comes from, what an authentic file, a verified clip and a
  green ceiling establish, that no proof presented with a file outranks the verdict, and the shape of a verdict.
\<close>

section \<open>A signed core\<close>

text \<open>The proof is readable and well shaped, and its key signed its core bytes and is the key it names.\<close>

definition core_signed :: "platform \<Rightarrow> bytes \<Rightarrow> signed_core \<Rightarrow> bool" where
  "core_signed P payload sc \<longleftrightarrow> parse_proof_json payload = Inr (sc_proof sc) \<and> shape_problem (sc_proof sc) = None
     \<and> sc_spki sc = b64_decode (sig_field (sc_proof sc) ''pub'') \<and> public_key_from_spki P (sc_spki sc) = Some (sc_key sc)
     \<and> key_id_text (sc_proof sc) = key_id P (sc_spki sc)
     \<and> (\<exists>core_text. core_bytes (sc_proof sc) = Some core_text \<and> sc_hash sc = sha256 P core_text
         \<and> verify_es256 P core_text (b64_decode (sig_field (sc_proof sc) ''value'')) (sc_key sc))"

lemma check_core_ok:
  assumes "check_core P K proof core_text core = Inr sc"
  shows "sc_proof sc = proof \<and> sc_hash sc = core \<and> sc_spki sc = b64_decode (sig_field proof ''pub'')
    \<and> public_key_from_spki P (sc_spki sc) = Some (sc_key sc) \<and> key_id_text proof = key_id P (sc_spki sc)
    \<and> verify_es256 P core_text (b64_decode (sig_field proof ''value'')) (sc_key sc)"
  using assms by (auto simp: check_core_def Let_def split: if_splits option.splits)

lemma read_core_ok:
  assumes "read_core P K payload = Inr (Inr sc)"
  shows "core_signed P payload sc"
proof -
  obtain q where p: "parse_proof_json payload = Inr q"
    using assms by (auto simp: read_core_def split: sum.splits)
  then have s: "shape_problem q = None" using assms
    by (auto simp: read_core_def split: if_splits option.splits)
  then obtain core_text core where c: "core_bytes q = Some core_text" "core_hash P q = Some core"
    "check_core P K q core_text core = Inr sc"
    using assms p by (auto simp: read_core_def split: if_splits option.splits)
  have "core = sha256 P core_text" using c(1,2) by (simp add: core_hash_def)
  then show ?thesis using p s c(1) check_core_ok [OF c(3)] by (auto simp: core_signed_def)
qed

text \<open>A verdict before the core is known says nothing about the file.\<close>

lemma check_core_red: "check_core P K proof core_text core = Inl v \<Longrightarrow> vd_outcome v = Tampered"
  by (auto simp: check_core_def Let_def tampered_def fail_def split: if_splits option.splits)

lemma read_core_rank: "read_core P K payload = Inr (Inl v) \<Longrightarrow> OUTCOME_RANK (vd_outcome v) = 0"
  by (auto simp: read_core_def fail_def OUTCOME_RANK_def check_core_red split: sum.splits if_splits option.splits)

section \<open>Where a verdict comes from\<close>

type_synonym presented_proof = "bytes \<times> bytes \<times> nat option \<times> string list \<times> proof_source"

text \<open>The proofs presented with a file: the one extracted, a differing sidecar, and the sidecar beside an unusable trailer.\<close>

definition presented :: "file_input \<Rightarrow> presented_proof list" where
  "presented input = (case extract_proof (fi_file input) (fi_sidecar input) (fi_store input) of
       Proof_found ex \<Rightarrow> (ex_payload ex, ex_media ex, ex_flags ex, ex_labels ex, ex_source ex)
         # (case ex_alternate ex of None \<Rightarrow> [] | Some (payload, labels) \<Rightarrow> [(payload, ex_media ex, None, labels, From_sidecar)])
     | _ \<Rightarrow> [])
   @ (case unreadable_alternate (fi_file input) (fi_sidecar input) (fi_store input) of None \<Rightarrow> []
     | Some alt \<Rightarrow> [(alt_payload alt, alt_media alt, None, alt_labels alt, From_sidecar)])"

definition judged_as :: "platform \<Rightarrow> pki \<Rightarrow> file_input \<Rightarrow> presented_proof \<Rightarrow> verdict run" where
  "judged_as P K input p = (case p of (payload, media, flags, labels, source) \<Rightarrow> judged P K payload media flags labels input source)"

lemma of_source_capture_rank: "OUTCOME_RANK (vd_outcome (of_source_capture source v)) \<noteq> 0 \<Longrightarrow> of_source_capture source v = v"
  by (auto simp: of_source_capture_def fail_def OUTCOME_RANK_def split: if_splits)

lemma verdict_of_file_from:
  assumes "verdict_of_file P K input = ret v" "OUTCOME_RANK (vd_outcome v) \<noteq> 0"
  shows "\<exists>p \<in> set (presented input). judged_as P K input p = ret v"
proof -
  from assms obtain ex where ex: "extract_proof (fi_file input) (fi_sidecar input) (fi_store input) = Proof_found ex"
    by (auto simp: verdict_of_file_def fail_def OUTCOME_RANK_def split: extraction.splits)
  from assms(1) ex obtain w where w: "judged P K (ex_payload ex) (ex_media ex) (ex_flags ex) (ex_labels ex) input (ex_source ex) = ret w"
    by (auto simp: verdict_of_file_def run_bind_ret)
  show ?thesis
  proof (cases "ex_alternate ex")
    case None
    then have "v = of_source_capture (ex_source ex) w" using assms(1) ex w by (simp add: verdict_of_file_def)
    then have "v = w" using assms(2) of_source_capture_rank by metis
    then show ?thesis using ex w None by (auto simp: presented_def judged_as_def)
  next
    case (Some alt)
    obtain payload labels where alt: "alt = (payload, labels)" by fastforce
    from assms(1) ex w Some alt obtain other where o: "judged P K payload (ex_media ex) None labels input From_sidecar = ret other"
      "v = other \<or> v = of_source_capture (ex_source ex) w"
      by (auto simp: verdict_of_file_def run_bind_ret split: if_splits)
    then have "v = other \<or> v = w" using assms(2) of_source_capture_rank by metis
    then show ?thesis using ex w Some alt o by (auto simp: presented_def judged_as_def)
  qed
qed

lemma verify_file_from:
  assumes "verify_file P K input = ret v" "OUTCOME_RANK (vd_outcome v) \<noteq> 0"
  shows "\<exists>p \<in> set (presented input). judged_as P K input p = ret v"
proof -
  from assms(1) obtain w where w: "verdict_of_file P K input = ret w" by (auto simp: verify_file_def run_bind_ret)
  show ?thesis
  proof (cases "unreadable_alternate (fi_file input) (fi_sidecar input) (fi_store input)")
    case None
    then have "v = w" using assms(1) w by (simp add: verify_file_def)
    then show ?thesis using verdict_of_file_from [OF w] assms(2) by simp
  next
    case (Some alt)
    then obtain other where o: "judged P K (alt_payload alt) (alt_media alt) None (alt_labels alt) input From_sidecar = ret other"
      "v = better other w" using assms(1) w by (auto simp: verify_file_def run_bind_ret)
    then have "v = other \<or> v = w" by (simp add: better_def)
    then show ?thesis using verdict_of_file_from [OF w] assms(2) o(1) Some by (auto simp: presented_def judged_as_def)
  qed
qed

text \<open>The verdict of a presented proof is that of \<open>judge\<close> with its source written in.\<close>

lemma judged_as_ret:
  assumes "judged_as P K input p = ret v"
  obtains payload media flags labels source w located where "p = (payload, media, flags, labels, source)"
    "judge P K payload media flags labels input = ret (w, located)"
    "v = w\<lparr>vd_source := Some source, vd_frames_name_capture := located\<rparr>"
proof -
  obtain payload media flags labels source where p: "p = (payload, media, flags, labels, source)" by (cases p) auto
  with assms obtain x where "judge P K payload media flags labels input = ret x"
    "(case x of (w, located) \<Rightarrow> ret (w\<lparr>vd_source := Some source, vd_frames_name_capture := located\<rparr>)) = ret v"
    by (auto simp: judged_as_def judged_def run_bind_ret)
  with p show thesis by (cases x) (auto intro: that)
qed

section \<open>How judge decides\<close>

lemma judge_ret:
  assumes "judge P K payload media flags labels input = ret (v, located)" "OUTCOME_RANK (vd_outcome v) \<noteq> 0"
  obtains sc h ev where "core_signed P payload sc" "read_core P K payload = Inr (Inr sc)" "media_hash P media = Some h"
    "weigh P K sc input flags labels = ret ev"
    "carries (sc_proof sc) ''segments'' \<Longrightarrow>
       \<exists>s. judge_segments P sc ev media (member (field (sc_proof sc) ''media'') ''hash'' = Some (JStr h)) (fi_recompute input) = ret (s, located)
         \<and> (s = Decided v \<or> (\<exists>ls segments. s = Continue ls segments \<and> authentic_verdict P K sc ev input ls segments = ret v))"
    "\<not> carries (sc_proof sc) ''segments'' \<Longrightarrow> member (field (sc_proof sc) ''media'') ''hash'' = Some (JStr h)
       \<and> authentic_verdict P K sc ev input (ev_labels ev) None = ret v"
proof -
  from assms(1) obtain r where r: "read_core P K payload = Inr r"
    by (auto simp: judge_def run_bind_ret)
  obtain sc where sc: "r = Inr sc"
    using assms r read_core_rank by (cases r) (auto simp: judge_def)
  obtain h where h: "media_hash P media = Some h"
    using assms r sc by (cases "media_hash P media") (auto simp: judge_def fail_def OUTCOME_RANK_def)
  let ?m = "member (field (sc_proof sc) ''media'') ''hash'' = Some (JStr h)"
  from assms(1) r sc h obtain ev where ev: "weigh P K sc input flags labels = ret ev"
    by (auto simp: judge_def run_bind_ret Let_def)
  note j = assms(1) [unfolded judge_def r sc h ev run_sum_simps run_bind_simps sum.case option.case Let_def]
  show thesis
  proof (rule that [OF read_core_ok _ h ev])
    show "read_core P K payload = Inr (Inr sc)" "read_core P K payload = Inr (Inr sc)" using r sc by simp_all
    assume c: "carries (sc_proof sc) ''segments''"
    from j c obtain s loc where s: "judge_segments P sc ev media ?m (fi_recompute input) = ret (s, loc)"
      by (auto simp: run_bind_ret)
    then have "(case s of Decided w \<Rightarrow> ret (w, loc)
      | Continue ls segments \<Rightarrow> run_bind (authentic_verdict P K sc ev input ls segments) (\<lambda>w. ret (w, loc))) = ret (v, located)"
      using j c by simp
    then show "\<exists>s. judge_segments P sc ev media ?m (fi_recompute input) = ret (s, located)
         \<and> (s = Decided v \<or> (\<exists>ls segments. s = Continue ls segments \<and> authentic_verdict P K sc ev input ls segments = ret v))"
      using s by (cases s) (auto simp: run_bind_ret)
  next
    assume c: "\<not> carries (sc_proof sc) ''segments''"
    have m: ?m using j c assms(2) by (cases ?m) (auto simp: tampered_def fail_def OUTCOME_RANK_def)
    then show "?m \<and> authentic_verdict P K sc ev input (ev_labels ev) None = ret v"
      using j c by (auto simp: run_bind_ret)
  qed
qed

text \<open>A verdict of the segments that is not red, or the way on to an authentic file.\<close>

definition standing :: "segments_verdict \<Rightarrow> bool" where
  "standing s = (case s of Decided v \<Rightarrow> OUTCOME_RANK (vd_outcome v) \<noteq> 0 | Continue _ _ \<Rightarrow> True)"

lemma judge_segments_ret:
  assumes "judge_segments P sc ev media matches recompute = ret (s, located)" "standing s"
  obtains entries chain ls b reading where
    "entries_of_proof (sc_proof sc) = Inr entries"
    "verify_chain P (capture_of (sc_proof sc)) (segment_count_of (sc_proof sc)) entries (sc_key sc) = Some chain"
    "read_binding P media recompute (capture_of (sc_proof sc)) entries = ret (Inr (ls, b, reading))"
    "judge_bound P sc ev matches entries (capture_of (sc_proof sc)) chain (ev_labels ev @ ls) b (gops_of reading) = Inr s"
    "located = (if recompute then Some (is_located b) else None)"
proof -
  note j = assms(1) [unfolded judge_segments_def Let_def]
  from j obtain entries where e: "entries_of_proof (sc_proof sc) = Inr entries" by (auto simp: run_bind_ret)
  note j = j [unfolded e run_sum_simps run_bind_simps]
  then obtain chain where c: "verify_chain P (capture_of (sc_proof sc)) (segment_count_of (sc_proof sc)) entries (sc_key sc) = Some chain"
    by (auto split: option.splits)
  note j = j [unfolded c option.case]
  then obtain r where r: "read_binding P media recompute (capture_of (sc_proof sc)) entries = ret r" by (auto simp: run_bind_ret)
  note j = j [unfolded r run_bind_simps]
  then obtain ls b reading where l: "r = Inr (ls, b, reading)"
    using assms(2) by (cases r) (auto simp: standing_def tampered_def fail_def OUTCOME_RANK_def)
  note j = j [unfolded l sum.case prod.case]
  then have "judge_bound P sc ev matches entries (capture_of (sc_proof sc)) chain (ev_labels ev @ ls) b (gops_of reading) = Inr s"
    "located = (if recompute then Some (is_located b) else None)" by (auto simp: run_bind_ret)
  then show thesis using that [OF e c] r l by simp
qed

lemma judge_bound_ret:
  assumes "judge_bound P sc ev matches entries cid chain labels b reading = Inr s" "standing s"
  obtains "ch_status chain \<noteq> Chain_tampered" "\<And>vs ps. b = Located vs ps \<Longrightarrow> ps = []"
    "\<not> matches \<Longrightarrow> \<exists>v. s = Decided v \<and> judge_clip P sc ev labels b reading entries (credited b chain)
       (timing_entries_complete entries (segment_count_of (sc_proof sc))) = Inr v"
    "matches \<Longrightarrow> judge_original P sc ev labels reading cid (segment_count_of (sc_proof sc)) (ch_status chain) (credited b chain) = Inr s"
    "timing_entries_complete entries (segment_count_of (sc_proof sc)) \<Longrightarrow> \<exists>root. entries_root P entries = Inr root
       \<and> member (field (field (sc_proof sc) ''media'') ''timing'') ''root'' = Some (JStr (b64url_encode root))"
proof -
  have red: "\<not> standing (Decided ((tampered u c why)\<lparr>vd_segments := x\<rparr>))" for u c why x
    by (simp add: standing_def tampered_def fail_def OUTCOME_RANK_def)
  have st: "ch_status chain \<noteq> Chain_tampered"
    using assms red by (auto simp: judge_bound_def Let_def)
  note j = assms(1) [unfolded judge_bound_def Let_def if_not_P [OF st]]
  define full where "full = timing_entries_complete entries (segment_count_of (sc_proof sc))"
  note j = j [folded full_def]
  from j obtain root where root: "(if full then entries_root P entries else Inr []) = Inr root" by (auto simp: rbind_eq_Inr)
  note j = j [unfolded root]
  have t: "full \<Longrightarrow> member (field (field (sc_proof sc) ''media'') ''timing'') ''root'' = Some (JStr (b64url_encode root))"
    using j assms(2) red by (auto split: if_splits)
  have b: "ps = []" if "b = Located vs ps" for vs ps
    using j that assms(2) red t by (cases ps) (auto split: if_splits)
  have "(if \<not> matches then rbind (judge_clip P sc ev labels b reading entries (credited b chain) full) (\<lambda>v. Inr (Decided v))
       else judge_original P sc ev labels reading cid (segment_count_of (sc_proof sc)) (ch_status chain) (credited b chain)) = Inr s"
    using j t b by (cases b) (auto split: if_splits)
  then show thesis
    using st b t root by (intro that) (auto simp: full_def rbind_eq_Inr split: if_splits)
qed

section \<open>What the evidence is\<close>

lemma weigh_ret:
  assumes "weigh P K sc input flags labels = ret ev"
  obtains stamp l2 l5 l6 l7 where
    "ev_anchor ev = fst (anchor_verdict_of P (sc_proof sc) (sc_hash sc) (fi_chain_read input))"
    "timestamp_verdict_of P K (sc_proof sc) (sc_hash sc) (fi_trust input) = ret (stamp, l2)"
    "ev_stamp ev = fst (agree stamp (ev_anchor ev))"
    "registry_verdict_of P (sc_proof sc) (sc_spki sc) (fi_trust input) (device_clock_of (sc_proof sc))
       (case ev_stamp ev of Stamped t _ _ \<Rightarrow> Some t | No_timestamp \<Rightarrow> None) = Inr (ev_registry ev, l5)"
    "ev_signers ev = signing_logs (sc_proof sc) (fi_trust input)"
    "integrity_verdict P (sc_proof sc) (sc_hash sc) (ev_signers ev) = Inr (ev_integrity ev, l6)"
    "location_verdict P (sc_proof sc) (sc_hash sc) (ev_signers ev) = Inr (ev_location ev, l7)"
    "ev_labels ev = labels @ absent_labels (sc_proof sc) @ snd (anchor_verdict_of P (sc_proof sc) (sc_hash sc) (fi_chain_read input))
       @ l2 @ snd (agree stamp (ev_anchor ev)) @ (if device_clock_of (sc_proof sc) = None then [''capture time not declared''] else [])
       @ l5 @ l6 @ l7 @ (if carries (sc_proof sc) ''watermark'' then [''watermark not evaluated''] else []) @ flag_labels flags (sc_proof sc)"
proof -
  obtain anchored l1 where a: "anchor_verdict_of P (sc_proof sc) (sc_hash sc) (fi_chain_read input) = (anchored, l1)" by fastforce
  note w = assms [unfolded weigh_def Let_def a prod.case]
  from w obtain stamp l2 where t: "timestamp_verdict_of P K (sc_proof sc) (sc_hash sc) (fi_trust input) = ret (stamp, l2)"
    by (auto simp: run_bind_ret)
  obtain stamped l3 where g: "agree stamp anchored = (stamped, l3)" by fastforce
  note w = w [unfolded t run_bind_simps prod.case g]
  from w obtain registered l5 where r: "registry_verdict_of P (sc_proof sc) (sc_spki sc) (fi_trust input) (device_clock_of (sc_proof sc))
       (case stamped of Stamped t _ _ \<Rightarrow> Some t | No_timestamp \<Rightarrow> None) = Inr (registered, l5)"
    by (auto simp: run_bind_ret)
  note w = w [unfolded r run_sum_simps run_bind_simps prod.case]
  from w obtain integrity l6 where n: "integrity_verdict P (sc_proof sc) (sc_hash sc) (signing_logs (sc_proof sc) (fi_trust input)) = Inr (integrity, l6)"
    by (auto simp: run_bind_ret)
  note w = w [unfolded n run_sum_simps run_bind_simps prod.case]
  from w obtain location l7 where l: "location_verdict P (sc_proof sc) (sc_hash sc) (signing_logs (sc_proof sc) (fi_trust input)) = Inr (location, l7)"
    by (auto simp: run_bind_ret)
  note w = w [unfolded l run_sum_simps run_bind_simps prod.case ret_eq, symmetric]
  show thesis by (rule that [of stamp l2 l5 l6 l7]; simp only: w a t g r n l evidence.simps fst_conv snd_conv)
qed

text \<open>Only an Android device's integrity is ever proven.\<close>

lemma integrity_android:
  assumes "integrity_verdict P pf core signers = Inr (True, ls)"
  shows "is_name ''android'' (member (field pf ''device'') ''platform'')"
proof (cases "obj_of (member pf ''integrity'')")
  case None
  with assms show ?thesis by (simp add: integrity_verdict_def)
next
  case (Some att)
  with assms obtain r where r: "verify_integrity P att core signers = Inr r" by (auto simp: integrity_verdict_def)
  with assms Some obtain source verdict t where "r = Integrity_ok source verdict t"
    by (cases r) (simp_all add: integrity_verdict_def)
  with assms Some r show ?thesis
    by (cases "PROVES_DEVICE_INTEGRITY source") (simp_all add: integrity_verdict_def PROVES_DEVICE_INTEGRITY_def is_name_def split: if_splits)
qed

lemma android_not_ios: "is_name ''android'' v \<Longrightarrow> \<not> is_name ''ios'' v"
  by (auto simp: is_name_def)

section \<open>Authentic\<close>

lemma authentic_verdict_ret:
  assumes "authentic_verdict P K sc ev input labels segments = ret v"
  obtains lv where "level P K (sc_proof sc) (sc_spki sc) (sc_hash sc) (sort labels) (fi_trust input) (ev_signers ev) (fi_clock input)
       (ev_registry ev) (fi_key_status input) (ev_anchor ev) (ev_stamp ev) (ev_integrity ev) = ret (lv, vd_labels v)"
    "vd_level v = Some lv" "vd_outcome v = Authentic" "vd_core_hash v = Some (sc_hash sc)" "vd_segments v = segments"
    "vd_location v = Some (ev_location ev)" "vd_not_evaluated v = sc_unknown sc" "vd_reason v = None"
  using assms by (auto simp: authentic_verdict_def run_bind_ret split: prod.splits)

lemma frames_verdict_outcome [simp]: "vd_outcome (frames_verdict sc ev x ls segs why) = x"
  by (simp add: frames_verdict_def fail_def)

lemma judge_clip_outcome:
  "judge_clip P sc ev labels b reading entries verified full = Inr v \<Longrightarrow> vd_outcome v = Frames_not_compared \<or> vd_outcome v = Verified_clip"
  by (auto simp: judge_clip_def rbind_eq_Inr Let_def split: binding.splits if_splits)

lemma judge_original_outcome:
  "judge_original P sc ev labels reading cid many status verified = Inr (Decided v) \<Longrightarrow>
     vd_outcome v = Verified_clip \<and> vd_reason v = Some Segments_missing"
  by (auto simp: judge_original_def frames_verdict_def fail_def rbind_eq_Inr Let_def split: if_splits)

lemma judge_original_Continue:
  "judge_original P sc ev labels reading cid many status verified = Inr (Continue ls segments) \<Longrightarrow>
     status \<noteq> Clip \<and> segments = Some verified"
  by (auto simp: judge_original_def rbind_eq_Inr Let_def split: if_splits)

text \<open>A media is the received file up to where a trailer starts.\<close>

lemma presented_media:
  assumes "(payload, media, flags, labels, source) \<in> set (presented input)"
  shows "\<exists>n. media = take n (fi_file input)"
proof -
  have whole: "\<exists>n. fi_file input = take n (fi_file input)" by (rule exI [of _ "length (fi_file input)"]) simp
  have "\<exists>n. ex_media ex = take n (fi_file input)" if "extract_proof (fi_file input) (fi_sidecar input) (fi_store input) = Proof_found ex" for ex
    using that whole by (auto simp: extract_proof_def Let_def split: parsed_trailer.splits if_splits option.splits)
  moreover have "\<exists>n. alt_media alt = take n (fi_file input)"
    if "unreadable_alternate (fi_file input) (fi_sidecar input) (fi_store input) = Some alt" for alt
    using that by (auto simp: unreadable_alternate_def Let_def split: option.splits)
  ultimately show ?thesis using assms by (auto simp: presented_def split: extraction.splits option.splits)
qed

lemma chain_result_holds:
  assumes "verify_chain P cid many entries key = Some chain" "ch_status chain \<noteq> Chain_tampered"
  shows "chain_holds P cid entries key" "set (ch_verified chain) = gop ` set entries"
    "ch_status chain \<noteq> Clip \<Longrightarrow> gop ` set entries = {0..<many}"
proof -
  show "chain_holds P cid entries key" using verify_chain_holds(1) [of P cid many entries key] assms by blast
  note v = verify_chain_holds(2) [OF assms]
  show "set (ch_verified chain) = gop ` set entries" using v by simp
  show "ch_status chain \<noteq> Clip \<Longrightarrow> gop ` set entries = {0..<many}" using v assms(2) by (cases "ch_status chain") auto
qed

text \<open>The chain behind an authentic proof with segments is whole.\<close>

lemma continued_chain:
  assumes "judge_segments P sc ev media matches recompute = ret (Continue ls segments, located)"
  shows "\<exists>entries. entries_of_proof (sc_proof sc) = Inr entries \<and> chain_holds P (capture_of (sc_proof sc)) entries (sc_key sc)
    \<and> gop ` set entries = {0..<segment_count_of (sc_proof sc)}"
  using assms
proof (rule judge_segments_ret)
  show "standing (Continue ls segments)" by (simp add: standing_def)
  fix entries chain l b reading
  assume e: "entries_of_proof (sc_proof sc) = Inr entries"
    and c: "verify_chain P (capture_of (sc_proof sc)) (segment_count_of (sc_proof sc)) entries (sc_key sc) = Some chain"
    and j: "judge_bound P sc ev matches entries (capture_of (sc_proof sc)) chain (ev_labels ev @ l) b (gops_of reading) = Inr (Continue ls segments)"
  have "standing (Continue ls segments)" by (simp add: standing_def)
  with j have "ch_status chain \<noteq> Chain_tampered \<and> ch_status chain \<noteq> Clip"
    by (rule judge_bound_ret) (metis judge_original_Continue segments_verdict.distinct(1))
  with c e show ?thesis using chain_result_holds [OF c] by blast
qed

lemma judge_bound_goes_on:
  assumes "judge_bound P sc ev matches entries cid chain labels b reading = Inr s" "standing s"
    and "\<And>v. s = Decided v \<Longrightarrow> vd_outcome v = Authentic"
  shows "matches \<and> (\<exists>ls segments. s = Continue ls segments)"
  using assms(1,2)
proof (rule judge_bound_ret)
  let ?n = "segment_count_of (sc_proof sc)"
  assume clip: "\<not> matches \<Longrightarrow> \<exists>v. s = Decided v \<and> judge_clip P sc ev labels b reading entries (credited b chain)
       (timing_entries_complete entries ?n) = Inr v"
    and orig: "matches \<Longrightarrow> judge_original P sc ev labels reading cid ?n (ch_status chain) (credited b chain) = Inr s"
  have matches using clip assms(3) judge_clip_outcome by fastforce
  moreover from orig [OF this] have "s \<noteq> Decided v" for v using assms(3) [of v] judge_original_outcome by fastforce
  ultimately show ?thesis by (cases s) auto
qed

lemma verify_file_authentic:
  assumes "verify_file P K input = ret v" "vd_outcome v = Authentic"
  obtains payload media flags labels source sc h ev ls segments lv where
    "(payload, media, flags, labels, source) \<in> set (presented input)" "core_signed P payload sc"
    "media_hash P media = Some h" "member (field (sc_proof sc) ''media'') ''hash'' = Some (JStr h)"
    "carries (sc_proof sc) ''segments'' \<Longrightarrow> \<exists>entries. entries_of_proof (sc_proof sc) = Inr entries
       \<and> chain_holds P (capture_of (sc_proof sc)) entries (sc_key sc) \<and> gop ` set entries = {0..<segment_count_of (sc_proof sc)}"
    "weigh P K sc input flags labels = ret ev" "vd_core_hash v = Some (sc_hash sc)" "vd_level v = Some lv"
    "level P K (sc_proof sc) (sc_spki sc) (sc_hash sc) (sort ls) (fi_trust input) (ev_signers ev) (fi_clock input)
       (ev_registry ev) (fi_key_status input) (ev_anchor ev) (ev_stamp ev) (ev_integrity ev) = ret (lv, vd_labels v)"
proof -
  from verify_file_from [OF assms(1)] assms(2) obtain p where p: "p \<in> set (presented input)" "judged_as P K input p = ret v"
    by (auto simp: OUTCOME_RANK_def)
  from p(2) obtain payload media flags labels source w located where q: "p = (payload, media, flags, labels, source)"
    "judge P K payload media flags labels input = ret (w, located)" "v = w\<lparr>vd_source := Some source, vd_frames_name_capture := located\<rparr>"
    by (rule judged_as_ret)
  have w: "vd_outcome w = Authentic" using assms(2) q(3) by simp
  then have rank: "OUTCOME_RANK (vd_outcome w) \<noteq> 0" by (simp add: OUTCOME_RANK_def)
  show thesis
  proof (rule judge_ret [OF q(2) rank])
    fix sc :: signed_core and h ev
    let ?m = "member (field (sc_proof sc) ''media'') ''hash'' = Some (JStr h)"
    assume sc: "core_signed P payload sc" and h: "media_hash P media = Some h" and ev: "weigh P K sc input flags labels = ret ev"
      and seg: "carries (sc_proof sc) ''segments'' \<Longrightarrow> \<exists>s. judge_segments P sc ev media ?m (fi_recompute input) = ret (s, located)
         \<and> (s = Decided w \<or> (\<exists>ls segments. s = Continue ls segments \<and> authentic_verdict P K sc ev input ls segments = ret w))"
      and plain: "\<not> carries (sc_proof sc) ''segments'' \<Longrightarrow> ?m \<and> authentic_verdict P K sc ev input (ev_labels ev) None = ret w"
    have cont: "?m \<and> (\<exists>ls segments. judge_segments P sc ev media ?m (fi_recompute input) = ret (Continue ls segments, located)
       \<and> authentic_verdict P K sc ev input ls segments = ret w)" if "carries (sc_proof sc) ''segments''"
    proof -
      from seg [OF that] obtain s where s: "judge_segments P sc ev media ?m (fi_recompute input) = ret (s, located)"
        "s = Decided w \<or> (\<exists>ls segments. s = Continue ls segments \<and> authentic_verdict P K sc ev input ls segments = ret w)" by blast
      have st: "standing s" using s(2) rank by (auto simp: standing_def)
      from s(1) st show ?thesis
      proof (rule judge_segments_ret)
        fix entries chain l b reading
        assume "judge_bound P sc ev ?m entries (capture_of (sc_proof sc)) chain (ev_labels ev @ l) b (gops_of reading) = Inr s"
        moreover have "\<And>x. s = Decided x \<Longrightarrow> vd_outcome x = Authentic" using s(2) w by auto
        ultimately have "?m \<and> (\<exists>ls segments. s = Continue ls segments)" using st judge_bound_goes_on by blast
        then show ?thesis using s by auto
      qed
    qed
    have "\<exists>ls segments. authentic_verdict P K sc ev input ls segments = ret w" "?m" using cont plain by blast+
    then obtain ls segments where a: "authentic_verdict P K sc ev input ls segments = ret w" and m: ?m by blast
    from a obtain lv where lv: "level P K (sc_proof sc) (sc_spki sc) (sc_hash sc) (sort ls) (fi_trust input) (ev_signers ev) (fi_clock input)
       (ev_registry ev) (fi_key_status input) (ev_anchor ev) (ev_stamp ev) (ev_integrity ev) = ret (lv, vd_labels w)"
      "vd_level w = Some lv" "vd_core_hash w = Some (sc_hash sc)" by (rule authentic_verdict_ret)
    have v: "vd_labels v = vd_labels w" "vd_level v = Some lv" "vd_core_hash v = Some (sc_hash sc)" using lv q(3) by simp_all
    show thesis
      by (rule that [OF p(1) [unfolded q(1)] sc h m _ ev v(3) v(2) lv(1) [folded v(1)]]) (use cont continued_chain in blast)
  qed
qed

lemma weigh_integrity:
  assumes "weigh P K sc input flags labels = ret ev" "ev_integrity ev"
  shows "\<not> is_name ''ios'' (member (field (sc_proof sc) ''device'') ''platform'')"
  using assms(1)
proof (rule weigh_ret)
  fix stamp l2 l5 l6 l7
  assume "integrity_verdict P (sc_proof sc) (sc_hash sc) (ev_signers ev) = Inr (ev_integrity ev, l6)"
  then show ?thesis using assms(2) integrity_android [THEN android_not_ios] by simp
qed

lemma demo_reaches: "\<exists>v. verify_file tail_platform demo_pki (demo_input 0) = ret v \<and> vd_outcome v = Authentic"
proof -
  have "safe_int 0" by (simp add: safe_int_def max_safe_def)
  note d = demo_verify [OF this]
  have "level tail_platform demo_pki (demo_proof 0) spki core labels trust signers clock Unregistered statement Not_anchored No_timestamp di =
    ret (\<lparr>lv_claimed = ''tee'', lv_proven = ''none'', lv_ceiling = ceiling_of ''none'' Unregistered By_device_clock labels,
         lv_instant = 0, lv_source = By_device_clock\<rparr>, sort labels)" for spki core labels trust signers clock statement di
    by (simp add: demo_level date_of_def)
  then show ?thesis by (simp add: d authentic_verdict_def demo_evidence_def)
qed

text \<open>C1. An authentic file is one a key sealed: one of the proofs presented with it is well shaped and signed by the key it
  names, its media hash is that of the canonical bytes of the file up to its trailer, and where the proof has segments
  its chain is whole. When the ceiling is green, the key's chain, revocation status, registration, app and integrity
  stand at an instant the device does not control.\<close>

theorem authentic_means:
  assumes "verify_file P K input = ret v" "vd_outcome v = Authentic"
  shows "\<exists>payload n flags labels source sc h ev lv. (payload, take n (fi_file input), flags, labels, source) \<in> set (presented input)
    \<and> core_signed P payload sc \<and> vd_core_hash v = Some (sc_hash sc)
    \<and> media_hash P (take n (fi_file input)) = Some h \<and> member (field (sc_proof sc) ''media'') ''hash'' = Some (JStr h)
    \<and> (carries (sc_proof sc) ''segments'' \<longrightarrow> (\<exists>entries. entries_of_proof (sc_proof sc) = Inr entries
         \<and> chain_holds P (capture_of (sc_proof sc)) entries (sc_key sc) \<and> gop ` set entries = {0..<segment_count_of (sc_proof sc)}))
    \<and> weigh P K sc input flags labels = ret ev \<and> vd_level v = Some lv
    \<and> (lv_ceiling lv = Green \<longrightarrow> ev_integrity ev \<and> green_evidence P K (sc_proof sc) (sc_spki sc) (sc_hash sc) (fi_trust input)
         (ev_signers ev) (fi_clock input) (ev_registry ev) (fi_key_status input) lv)"
  using assms
proof (rule verify_file_authentic)
  fix payload media flags labels source sc h ev ls segments lv
  assume p: "(payload, media, flags, labels, source) \<in> set (presented input)" and sc: "core_signed P payload sc"
    and h: "media_hash P media = Some h" "member (field (sc_proof sc) ''media'') ''hash'' = Some (JStr h)"
    and seg: "carries (sc_proof sc) ''segments'' \<Longrightarrow> \<exists>entries. entries_of_proof (sc_proof sc) = Inr entries
       \<and> chain_holds P (capture_of (sc_proof sc)) entries (sc_key sc) \<and> gop ` set entries = {0..<segment_count_of (sc_proof sc)}"
    and ev: "weigh P K sc input flags labels = ret ev" and v: "vd_core_hash v = Some (sc_hash sc)" "vd_level v = Some lv"
    and lv: "level P K (sc_proof sc) (sc_spki sc) (sc_hash sc) (sort ls) (fi_trust input) (ev_signers ev) (fi_clock input)
       (ev_registry ev) (fi_key_status input) (ev_anchor ev) (ev_stamp ev) (ev_integrity ev) = ret (lv, vd_labels v)"
  obtain n where n: "media = take n (fi_file input)" using presented_media [OF p] by blast
  have green: "lv_ceiling lv = Green \<longrightarrow> ev_integrity ev \<and> green_evidence P K (sc_proof sc) (sc_spki sc) (sc_hash sc) (fi_trust input)
         (ev_signers ev) (fi_clock input) (ev_registry ev) (fi_key_status input) lv"
    using level_green [OF lv _ weigh_integrity [OF ev]] by blast
  show ?thesis
    by (rule exI [of _ payload], rule exI [of _ n], rule exI [of _ flags], rule exI [of _ labels], rule exI [of _ source],
        rule exI [of _ sc], rule exI [of _ h], rule exI [of _ ev], rule exI [of _ lv], intro conjI impI seg)
      (use p sc h ev v green in \<open>simp_all add: n\<close>)
qed

theorem authentic_means_witness:
  "\<exists>v payload n flags labels source sc. verify_file tail_platform demo_pki (demo_input 0) = ret v \<and> vd_outcome v = Authentic
    \<and> (payload, take n demo_media, flags, labels, source) \<in> set (presented (demo_input 0)) \<and> core_signed tail_platform payload sc
    \<and> vd_core_hash v = Some (sc_hash sc)"
proof -
  obtain v where v: "verify_file tail_platform demo_pki (demo_input 0) = ret v" "vd_outcome v = Authentic"
    using demo_reaches by blast
  have f: "fi_file (demo_input 0) = demo_media" by (simp add: demo_input_def)
  show ?thesis using authentic_means [OF v, unfolded f] v by (elim exE conjE) (intro exI conjI)
qed

section \<open>A device clock that is no date\<close>

text \<open>C40. A proof whose signed device clock is a safe integer past the last date of ECMAScript makes the verifier throw a
  RangeError when it says at which instant it validated: \<open>toISOString\<close> of an invalid date.\<close>

theorem device_clock_beyond_dates_throws:
  assumes "device_clock_of proof = Some c" "8640000000000000 < c" "arr_of (member proof ''attestation'') = None"
    and "registered = Unregistered \<or> statement = None" "\<forall>block. anchored \<noteq> Anchored (Some block)"
  shows "level P K proof spki core labels trust signers clock registered statement anchored No_timestamp di = throw Range_error"
proof -
  have i: "instant_for No_timestamp anchored (device_clock_of proof) clock = (None, By_device_clock)"
    using assms(1,2,5) by (cases anchored) (auto simp: instant_for_def date_of_def split: option.splits)
  obtain status where "key_status_labels P proof registered statement (Some clock) signers = Inr status"
    using assms(4) by (cases registered) (auto simp: key_status_labels_def)
  moreover have "level_chain P K proof spki trust None clock = ret None" using assms(3) by (simp add: level_chain_def)
  ultimately show ?thesis
    by (simp add: level_def i trusted_source_def chain_labels_def revocation_labels_def chain_stands_def)
qed

theorem device_clock_beyond_dates_throws_witness:
  "verify_file tail_platform demo_pki (demo_input 8640000000000001) = throw Range_error"
proof -
  have "safe_int 8640000000000001" by (simp add: safe_int_def max_safe_def)
  note d = demo_verify [OF this]
  have "arr_of (member (demo_proof 8640000000000001) ''attestation'') = None" by (simp add: arr_of_def)
  note l = device_clock_beyond_dates_throws [OF demo_clock _ this]
  show ?thesis
    by (simp add: d authentic_verdict_def demo_evidence_def l)
qed

section \<open>Clips\<close>

lemma judge_clip_located:
  "judge_clip P sc ev labels (Located vs ps) (Some rd) entries verified full = Inr v \<and> vd_outcome v = Verified_clip \<longleftrightarrow>
     v = frames_verdict sc ev Verified_clip labels verified Media_differs \<and> rd_layout rd = None
     \<and> \<not> presentation_differs (field (field (sc_proof sc) ''media'') ''presentation'') (rd_presentation rd)
     \<and> clip_timing_problem P rd (field (field (sc_proof sc) ''media'') ''timing'') entries verified full = Inr None"
proof (cases "clip_timing_problem P rd (field (field (sc_proof sc) ''media'') ''timing'') entries verified full")
  case (Inr retimed)
  then show ?thesis by (cases retimed) (auto simp: judge_clip_def Let_def)
qed (auto simp: judge_clip_def Let_def)

text \<open>What a file that is not the original satisfies when it is a clip of the capture.\<close>

definition clip_holds :: "platform \<Rightarrow> signed_core \<Rightarrow> segment_entry list \<Rightarrow> bytes \<Rightarrow> gops_reading \<Rightarrow> int list \<Rightarrow> bool" where
  "clip_holds P sc entries cid rd verified \<longleftrightarrow> (let media = field (sc_proof sc) ''media'' in
     rd_gops rd \<noteq> [] \<and> (\<forall>g \<in> set (rd_gops rd). bound cid (by_index entries) g) \<and> sorted_wrt (<) (map segment_index (rd_gops rd))
     \<and> rd_layout rd = None \<and> \<not> presentation_differs (field media ''presentation'') (rd_presentation rd)
     \<and> timing_entries_complete entries (segment_count_of (sc_proof sc))
     \<and> (\<exists>root. entries_root P entries = Inr root \<and> member (field media ''timing'') ''root'' = Some (JStr (b64url_encode root)))
     \<and> clip_timing_problem P rd (field media ''timing'') entries verified True = Inr None)"

lemma judge_bound_clip:
  "judge_bound P sc ev False entries cid chain labels (bind_segments (Gops rd) cid entries) (Some rd) = Inr (Decided v)
     \<and> vd_outcome v = Verified_clip \<longleftrightarrow>
   ch_status chain \<noteq> Chain_tampered \<and> clip_holds P sc entries cid rd (filter (\<lambda>i. i \<in> set (ch_verified chain)) (map segment_index (rd_gops rd)))
     \<and> v = frames_verdict sc ev Verified_clip labels (filter (\<lambda>i. i \<in> set (ch_verified chain)) (map segment_index (rd_gops rd))) Media_differs"
  (is "?l \<longleftrightarrow> ?r")
proof
  let ?b = "bind_segments (Gops rd) cid entries" and ?full = "timing_entries_complete entries (segment_count_of (sc_proof sc))"
    and ?is = "filter (\<lambda>i. i \<in> set (ch_verified chain)) (map segment_index (rd_gops rd))"
  assume l: ?l
  then have st: "standing (Decided v)" by (simp add: standing_def OUTCOME_RANK_def)
  from conjunct1 [OF l] st show ?r
  proof (rule judge_bound_ret)
    assume t: "ch_status chain \<noteq> Chain_tampered" and ps: "\<And>vs ps. ?b = Located vs ps \<Longrightarrow> ps = []"
      and clip: "\<not> False \<Longrightarrow> \<exists>w. Decided v = Decided w \<and> judge_clip P sc ev labels ?b (Some rd) entries (credited ?b chain) ?full = Inr w"
      and root: "?full \<Longrightarrow> \<exists>root. entries_root P entries = Inr root
        \<and> member (field (field (sc_proof sc) ''media'') ''timing'') ''root'' = Some (JStr (b64url_encode root))"
    from clip have k: "judge_clip P sc ev labels ?b (Some rd) entries (credited ?b chain) ?full = Inr v" by simp
    obtain vs qs where "?b = Located vs qs" using k l by (cases ?b) (auto simp: judge_clip_def)
    with ps have b: "?b = Located vs []" by blast
    note c = b [unfolded bind_segments_clean]
    have cr: "credited (Located vs []) chain = ?is" using c by (simp add: credited_def)
    note v = k [unfolded b cr] conjunct2 [OF l]
    have w: "v = frames_verdict sc ev Verified_clip labels ?is Media_differs" "rd_layout rd = None"
      "\<not> presentation_differs (field (field (sc_proof sc) ''media'') ''presentation'') (rd_presentation rd)"
      "clip_timing_problem P rd (field (field (sc_proof sc) ''media'') ''timing'') entries ?is ?full = Inr None"
      using v judge_clip_located [of P sc ev labels vs "[]" rd entries ?is ?full v] by blast+
    then have ?full by (auto simp: clip_timing_problem_def split: if_splits)
    then show ?r using c t w root by (simp add: clip_holds_def Let_def)
  qed
next
  let ?is = "filter (\<lambda>i. i \<in> set (ch_verified chain)) (map segment_index (rd_gops rd))"
  assume r: ?r
  have b: "bind_segments (Gops rd) cid entries = Located (map segment_index (rd_gops rd)) []"
    unfolding bind_segments_clean using r by (simp add: clip_holds_def Let_def)
  have "judge_clip P sc ev labels (Located (map segment_index (rd_gops rd)) []) (Some rd) entries ?is True = Inr v"
    using r judge_clip_located [of P sc ev labels "map segment_index (rd_gops rd)" "[]" rd entries ?is True v]
    by (simp add: clip_holds_def Let_def)
  with r b show ?l by (auto simp: judge_bound_def clip_holds_def Let_def credited_def)
qed

text \<open>C3. A file that is not the original is a verified clip exactly when the chain stands and every GOP of the file is a bound
  segment in increasing order, the tracks and the presentation are the signed ones, the timing root recomputes from all
  the entries, and no credited segment is shown at another instant than the signed one.\<close>

theorem verified_clip_exact:
  "judge_bound P sc ev False entries cid chain labels (bind_segments (Gops rd) cid entries) (Some rd) = Inr (Decided v)
     \<and> vd_outcome v = Verified_clip \<longleftrightarrow>
   ch_status chain \<noteq> Chain_tampered \<and> clip_holds P sc entries cid rd (filter (\<lambda>i. i \<in> set (ch_verified chain)) (map segment_index (rd_gops rd)))
     \<and> v = frames_verdict sc ev Verified_clip labels (filter (\<lambda>i. i \<in> set (ch_verified chain)) (map segment_index (rd_gops rd))) Media_differs"
  by (rule judge_bound_clip)

section \<open>Labels and flags decide nothing\<close>

lemma run_bind_assoc: "run_bind (run_bind m f) g = run_bind m (\<lambda>x. run_bind (f x) g)"
  by (cases m) (auto simp: run_bind_def split: sum.split)

lemma run_sum_rbind: "run_sum (rbind m f) = run_bind (run_sum m) (\<lambda>x. run_sum (f x))"
  by (cases m) (simp_all add: run_sum_def run_bind_def)

text \<open>What is left of a computation of the segments once labels are forgotten.\<close>

definition seg_outcome :: "segments_verdict \<Rightarrow> outcome option" where
  "seg_outcome s = (case s of Decided v \<Rightarrow> Some (vd_outcome v) | Continue _ _ \<Rightarrow> None)"

definition only_outcome :: "('a + segments_verdict) \<Rightarrow> 'a + outcome option" where
  "only_outcome r = (case r of Inl e \<Rightarrow> Inl e | Inr s \<Rightarrow> Inr (seg_outcome s))"

lemma only_outcome_rbind: "only_outcome (rbind m f) = rbind m (\<lambda>x. only_outcome (f x))"
  by (cases m) (simp_all add: only_outcome_def)

lemma only_outcome_Inr [simp]: "only_outcome (Inr s) = Inr (seg_outcome s)"
  by (simp add: only_outcome_def)

lemma seg_outcome_simps [simp]: "seg_outcome (Decided v) = Some (vd_outcome v)" "seg_outcome (Continue ls segments) = None"
  "seg_outcome (if c then s else s') = (if c then seg_outcome s else seg_outcome s')"
  by (simp_all add: seg_outcome_def)

lemma judge_clip_labels:
  "rbind (judge_clip P sc (ev\<lparr>ev_labels := L\<rparr>) l1 b reading entries verified full) (\<lambda>v. Inr (Some (vd_outcome v)))
   = rbind (judge_clip P sc ev l2 b reading entries verified full) (\<lambda>v. Inr (Some (vd_outcome v)))"
proof (cases b)
  case (Located vs ps)
  show ?thesis
    unfolding judge_clip_def Located binding.case Let_def
    by (cases "case reading of None \<Rightarrow> Inr None
        | Some rd \<Rightarrow> clip_timing_problem P rd (field (field (sc_proof sc) ''media'') ''timing'') entries verified full")
      (auto simp: only_outcome_def)
qed (simp add: judge_clip_def)

lemma judge_original_labels:
  "only_outcome (judge_original P sc (ev\<lparr>ev_labels := L\<rparr>) l1 reading cid many status verified)
   = only_outcome (judge_original P sc ev l2 reading cid many status verified)"
  by (simp add: judge_original_def Let_def only_outcome_rbind cong: if_cong)

lemma judge_bound_labels:
  "only_outcome (judge_bound P sc (ev\<lparr>ev_labels := L\<rparr>) matches entries cid chain l1 b reading)
   = only_outcome (judge_bound P sc ev matches entries cid chain l2 b reading)"
proof -
  note c = judge_clip_labels [where ev = ev and L = L and ?l1.0 = l1 and ?l2.0 = l2]
    and o = judge_original_labels [where ev = ev and L = L and ?l1.0 = l1 and ?l2.0 = l2]
  show ?thesis
    by (simp add: judge_bound_def Let_def only_outcome_rbind c o if_distrib [of only_outcome] split: binding.split list.split cong: if_cong)
qed

lemma bound_outcome: "run_bind (run_sum r) (\<lambda>s. F (seg_outcome s)) = run_bind (run_sum (only_outcome r)) F"
  by (cases r) (simp_all add: only_outcome_def)

lemma judge_segments_labels:
  "run_bind (judge_segments P sc (ev\<lparr>ev_labels := L\<rparr>) media matches recompute) (\<lambda>(s, _). F (seg_outcome s))
   = run_bind (judge_segments P sc ev media matches recompute) (\<lambda>(s, _). F (seg_outcome s))"
proof -
  have step: "run_bind (case r of
        Inl _ \<Rightarrow> ret (Decided ((tampered (sc_unknown sc) (sc_hash sc) Container_is_malformed)\<lparr>vd_segments := Some []\<rparr>), None)
      | Inr (ls, b, reading) \<Rightarrow> run_bind (run_sum (judge_bound P sc ev' matches entries cid chain (ev_labels ev' @ ls) b (gops_of reading)))
          (\<lambda>v. ret (v, if recompute then Some (is_located b) else None))) (\<lambda>(s, _). F (seg_outcome s))
    = (case r of Inl _ \<Rightarrow> F (Some Tampered)
      | Inr (ls, b, reading) \<Rightarrow> run_bind (run_sum (only_outcome (judge_bound P sc ev' matches entries cid chain (ev_labels ev' @ ls) b (gops_of reading)))) F)"
    for ev' :: evidence and entries cid chain r
    by (auto simp: run_bind_assoc bound_outcome tampered_def fail_def split: sum.split prod.split)
  have j: "only_outcome (judge_bound P sc (ev\<lparr>ev_labels := L\<rparr>) matches entries cid chain (ev_labels (ev\<lparr>ev_labels := L\<rparr>) @ ls) b r)
      = only_outcome (judge_bound P sc ev matches entries cid chain (ev_labels ev @ ls) b r)" for entries cid chain ls b r
    by (rule judge_bound_labels)
  show ?thesis
  proof (cases "entries_of_proof (sc_proof sc)")
    case e: (Inr entries)
    show ?thesis
    proof (cases "verify_chain P (capture_of (sc_proof sc)) (segment_count_of (sc_proof sc)) entries (sc_key sc)")
      case (Some chain)
      show ?thesis
        unfolding judge_segments_def Let_def e run_sum_simps run_bind_simps Some option.case run_bind_assoc step
        by (simp only: j)
    qed (simp add: judge_segments_def Let_def e)
  qed (simp add: judge_segments_def Let_def)
qed

lemma level_labels:
  "run_bind (level P K proof spki core l1 trust signers clock registered statement anchored stamped di) (\<lambda>_. c)
   = run_bind (level P K proof spki core l2 trust signers clock registered statement anchored stamped di) (\<lambda>_. c)"
  by (simp add: level_def Let_def run_bind_assoc prod.case_distrib [of "\<lambda>m. run_bind m _"] option.case_distrib [of "\<lambda>m. run_bind m _"]
      split: prod.split cong: option.case_cong prod.case_cong)

lemma authentic_labels:
  "run_bind (authentic_verdict P K sc (ev\<lparr>ev_labels := L\<rparr>) input l1 g1) (\<lambda>_. c)
   = run_bind (authentic_verdict P K sc ev input l2 g2) (\<lambda>_. c)"
  by (simp add: authentic_verdict_def run_bind_assoc prod.case_distrib [of "\<lambda>m. run_bind m _"] level_labels [where ?l1.0 = "sort l1" and ?l2.0 = "sort l2"])

lemma weigh_labels:
  "weigh P K sc input flags labels = run_bind (weigh P K sc input None []) (\<lambda>ev.
     ret (ev\<lparr>ev_labels := labels @ ev_labels ev @ flag_labels flags (sc_proof sc)\<rparr>))"
  by (simp add: weigh_def Let_def run_bind_assoc flag_labels_def prod.case_distrib [of "\<lambda>m. run_bind m _"]
      cong: prod.case_cong)

definition outcome_run :: "(verdict \<times> bool option) run \<Rightarrow> outcome run" where
  "outcome_run r = run_bind r (\<lambda>(v, _). ret (vd_outcome v))"

lemma outcome_run_bind: "outcome_run (run_bind m f) = run_bind m (\<lambda>x. outcome_run (f x))"
  by (simp add: outcome_run_def run_bind_assoc)

lemma outcome_run_ret [simp]: "outcome_run (ret (v, x)) = ret (vd_outcome v)" "outcome_run (throw e) = throw e"
  by (simp_all add: outcome_run_def)

lemma authentic_outcome:
  "run_bind (authentic_verdict P K sc ev input ls segments) (\<lambda>v. ret (vd_outcome v))
   = run_bind (authentic_verdict P K sc ev input ls segments) (\<lambda>_. ret Authentic)"
proof -
  have "authentic_verdict P K sc ev input ls segments = ret v \<Longrightarrow> vd_outcome v = Authentic" for v
    by (rule authentic_verdict_ret)
  then show ?thesis
    by (cases "authentic_verdict P K sc ev input ls segments") (auto simp: run_bind_def ret_def split: sum.split)
qed

lemma judge_outcome:
  "outcome_run (judge P K payload media flags labels input) = outcome_run (judge P K payload media flags' labels' input)"
proof -
  let ?away = "\<lambda>sc ev. run_bind (authentic_verdict P K sc ev input [] None) (\<lambda>_. ret Authentic)"
  have after: "outcome_run (case s of Decided v \<Rightarrow> ret (v, x)
      | Continue ls segments \<Rightarrow> run_bind (authentic_verdict P K sc ev input ls segments) (\<lambda>v. ret (v, x)))
    = (case seg_outcome s of Some oc \<Rightarrow> ret oc | None \<Rightarrow> ?away sc ev)" for s x sc and ev :: evidence
    using authentic_labels [where P = P and K = K and sc = sc and ev = ev and L = "ev_labels ev" and input = input and ?l2.0 = "[]" and ?g2.0 = None]
    by (cases s) (simp_all add: outcome_run_bind authentic_outcome)
  have away: "?away sc (ev\<lparr>ev_labels := L\<rparr>) = ?away sc ev" for sc and ev :: evidence and L
    by (rule authentic_labels)
  have plain: "run_bind (authentic_verdict P K sc (ev\<lparr>ev_labels := L\<rparr>) input l g) (\<lambda>_. ret Authentic) = ?away sc ev"
    for sc and ev :: evidence and L l g
    by (rule authentic_labels)
  have tail: "outcome_run (if carries (sc_proof sc) ''segments'' then
             run_bind (judge_segments P sc (ev\<lparr>ev_labels := L\<rparr>) media m (fi_recompute input)) (\<lambda>(s, located). case s of
               Decided v \<Rightarrow> ret (v, located)
             | Continue ls segments \<Rightarrow> run_bind (authentic_verdict P K sc (ev\<lparr>ev_labels := L\<rparr>) input ls segments) (\<lambda>v. ret (v, located)))
           else if \<not> m then ret (tampered (sc_unknown sc) (sc_hash sc) Media_hash_differs, None)
           else run_bind (authentic_verdict P K sc (ev\<lparr>ev_labels := L\<rparr>) input (ev_labels (ev\<lparr>ev_labels := L\<rparr>)) None) (\<lambda>v. ret (v, None)))
    = (if carries (sc_proof sc) ''segments'' then
         run_bind (judge_segments P sc ev media m (fi_recompute input)) (\<lambda>(s, _). case seg_outcome s of Some oc \<Rightarrow> ret oc | None \<Rightarrow> ?away sc ev)
       else if \<not> m then ret Tampered else ?away sc ev)" for sc and ev :: evidence and L m
    using judge_segments_labels [where P = P and sc = sc and ev = ev and L = L and media = media and matches = m and recompute = "fi_recompute input"
      and F = "\<lambda>x. case x of Some oc \<Rightarrow> ret oc | None \<Rightarrow> ?away sc ev"]
    by (simp add: outcome_run_bind prod.case_distrib [of outcome_run] after away plain authentic_outcome tampered_def fail_def cong: option.case_cong)
  have "outcome_run (judge P K payload media flags labels input) = run_bind (run_sum (read_core P K payload)) (\<lambda>r. case r of
       Inl v \<Rightarrow> ret (vd_outcome v)
     | Inr sc \<Rightarrow> (case media_hash P media of None \<Rightarrow> ret No_proof_found
       | Some h \<Rightarrow> let m = (member (field (sc_proof sc) ''media'') ''hash'' = Some (JStr h)) in
         run_bind (weigh P K sc input None []) (\<lambda>ev. if carries (sc_proof sc) ''segments'' then
             run_bind (judge_segments P sc ev media m (fi_recompute input)) (\<lambda>(s, _). case seg_outcome s of Some oc \<Rightarrow> ret oc | None \<Rightarrow> ?away sc ev)
           else if \<not> m then ret Tampered else ?away sc ev)))" for flags labels
    unfolding judge_def outcome_run_bind weigh_labels [of P K _ input flags labels]
    by (simp add: sum.case_distrib [of outcome_run] option.case_distrib [of outcome_run] Let_def outcome_run_bind run_bind_assoc tail
        fail_def cong: sum.case_cong option.case_cong)
  then show ?thesis by simp
qed

lemma judged_outcome:
  assumes "judge P K payload media flags labels input = ret (w, located)"
  shows "judged P K payload media flags' labels' input source = ret v \<Longrightarrow> vd_outcome v = vd_outcome w"
proof -
  assume "judged P K payload media flags' labels' input source = ret v"
  then obtain x where x: "judge P K payload media flags' labels' input = ret x" "vd_outcome v = vd_outcome (fst x)"
    by (auto simp: judged_def run_bind_ret split: prod.splits)
  have "outcome_run (judge P K payload media flags' labels' input) = ret (vd_outcome (fst x))"
    by (cases x) (simp add: x(1))
  moreover have "outcome_run (judge P K payload media flags' labels' input) = ret (vd_outcome w)"
    unfolding judge_outcome [of P K payload media flags' labels' input flags labels] by (simp add: assms)
  ultimately show ?thesis using x(2) by simp
qed

lemma verdict_of_file_ranks:
  assumes "verdict_of_file P K input = ret v" "extract_proof (fi_file input) (fi_sidecar input) (fi_store input) = Proof_found ex"
  shows "\<exists>w. judged P K (ex_payload ex) (ex_media ex) (ex_flags ex) (ex_labels ex) input (ex_source ex) = ret w
    \<and> (depth_of (ex_source ex) = 0 \<longrightarrow> OUTCOME_RANK (vd_outcome w) \<le> OUTCOME_RANK (vd_outcome v))
    \<and> (\<forall>payload labels. ex_alternate ex = Some (payload, labels) \<and> depth_of (ex_source ex) = 0 \<longrightarrow> (\<exists>other.
        judged P K payload (ex_media ex) None labels input From_sidecar = ret other
        \<and> OUTCOME_RANK (vd_outcome other) \<le> OUTCOME_RANK (vd_outcome v)))"
proof -
  from assms obtain w where w: "judged P K (ex_payload ex) (ex_media ex) (ex_flags ex) (ex_labels ex) input (ex_source ex) = ret w"
    by (auto simp: verdict_of_file_def run_bind_ret)
  have same: "depth_of (ex_source ex) = 0 \<Longrightarrow> of_source_capture (ex_source ex) w = w" by (simp add: of_source_capture_def)
  show ?thesis
  proof (cases "ex_alternate ex")
    case None
    then have "v = of_source_capture (ex_source ex) w" using assms w by (simp add: verdict_of_file_def)
    with w None same show ?thesis by auto
  next
    case (Some alt)
    obtain payload labels where alt: "alt = (payload, labels)" by fastforce
    from assms w Some alt obtain other where o: "judged P K payload (ex_media ex) None labels input From_sidecar = ret other"
      by (auto simp: verdict_of_file_def run_bind_ret)
    then have "v = (if OUTCOME_RANK (vd_outcome other) > OUTCOME_RANK (vd_outcome w) then other else of_source_capture (ex_source ex) w)"
      using assms w Some alt by (simp add: verdict_of_file_def split: if_splits)
    with w o Some alt same show ?thesis by auto
  qed
qed

text \<open>A proof found up the \<open>parentOf\<close> chain comes alone.\<close>

lemma presented_depth:
  assumes "extract_proof whole sidecar store = Proof_found ex" "ex_alternate ex \<noteq> None"
  shows "depth_of (ex_source ex) = 0"
  using assms by (auto simp: extract_proof_def Let_def depth_of_def split: parsed_trailer.splits if_splits option.splits)

lemma presented_cases:
  assumes "(payload, media, flags, labels, source) \<in> set (presented input)"
  obtains (found) ex where "extract_proof (fi_file input) (fi_sidecar input) (fi_store input) = Proof_found ex"
      "(payload, media, flags, labels, source) = (ex_payload ex, ex_media ex, ex_flags ex, ex_labels ex, ex_source ex)"
    | (alternate) ex where "extract_proof (fi_file input) (fi_sidecar input) (fi_store input) = Proof_found ex"
      "ex_alternate ex = Some (payload, labels)" "media = ex_media ex" "source = From_sidecar"
    | (unreadable) alt where "unreadable_alternate (fi_file input) (fi_sidecar input) (fi_store input) = Some alt"
      "payload = alt_payload alt" "media = alt_media alt" "source = From_sidecar"
proof (cases "(payload, media, flags, labels, source) \<in> set (case unreadable_alternate (fi_file input) (fi_sidecar input) (fi_store input) of
    None \<Rightarrow> [] | Some alt \<Rightarrow> [(alt_payload alt, alt_media alt, None, alt_labels alt, From_sidecar)])")
  case True
  then show thesis by (cases "unreadable_alternate (fi_file input) (fi_sidecar input) (fi_store input)") (auto intro: unreadable)
next
  case False
  with assms obtain ex where ex: "extract_proof (fi_file input) (fi_sidecar input) (fi_store input) = Proof_found ex"
    by (cases "extract_proof (fi_file input) (fi_sidecar input) (fi_store input)") (auto simp: presented_def)
  with False assms have "(payload, media, flags, labels, source) = (ex_payload ex, ex_media ex, ex_flags ex, ex_labels ex, ex_source ex)
    \<or> ex_alternate ex = Some (payload, labels) \<and> media = ex_media ex \<and> source = From_sidecar"
    by (cases "ex_alternate ex") (auto simp: presented_def)
  with ex show thesis by (auto intro: found alternate)
qed

lemma presented_rank:
  assumes "verify_file P K input = ret v" "(payload, media, flags, labels, source) \<in> set (presented input)" "depth_of source = 0"
    and "judge P K payload media flags' labels' input = ret (w, located)"
  shows "OUTCOME_RANK (vd_outcome w) \<le> OUTCOME_RANK (vd_outcome v)"
proof -
  note same = judged_outcome [OF assms(4)]
  from assms(1) obtain v0 where v0: "verdict_of_file P K input = ret v0" by (auto simp: verify_file_def run_bind_ret)
  have up: "OUTCOME_RANK (vd_outcome v0) \<le> OUTCOME_RANK (vd_outcome v)"
    using assms(1) v0 by (auto simp: verify_file_def run_bind_ret better_def split: option.splits if_splits)
  from assms(2) show ?thesis
  proof (cases rule: presented_cases)
    case (found ex)
    then show ?thesis using verdict_of_file_ranks [OF v0 found(1)] same up assms(3) by force
  next
    case (alternate ex)
    then have "depth_of (ex_source ex) = 0" using presented_depth [OF alternate(1)] by simp
    then show ?thesis using verdict_of_file_ranks [OF v0 alternate(1)] alternate same up by force
  next
    case (unreadable alt)
    then obtain other where "judged P K (alt_payload alt) (alt_media alt) None (alt_labels alt) input From_sidecar = ret other"
      "v = better other v0" using assms(1) v0 by (auto simp: verify_file_def run_bind_ret)
    then show ?thesis using same unreadable by (auto simp: better_def)
  qed
qed

text \<open>Nothing attached to a file outranks what decides it: the verdict ranks at least as high as every proof presented with
  the file judged on its own, whatever the flags and the labels it came with. So a sidecar beside an unusable or a
  foreign trailer is worth as much as if the trailer were not there, and adding one takes nothing away.\<close>

theorem no_presented_proof_outranks:
  assumes "verify_file P K input = ret v" "(payload, media, flags, labels, source) \<in> set (presented input)" "depth_of source = 0"
    and "judge P K payload media flags' labels' input = ret (w, located)"
  shows "OUTCOME_RANK (vd_outcome w) \<le> OUTCOME_RANK (vd_outcome v)"
  using assms by (rule presented_rank)

theorem no_presented_proof_outranks_witness:
  "\<exists>v. verify_file tail_platform demo_pki demo_footed = ret v \<and> OUTCOME_RANK Authentic \<le> OUTCOME_RANK (vd_outcome v)"
proof -
  let ?whole = "demo_media @ MAGIC @ replicate 12 0"
  have safe: "safe_int 0" by (simp add: safe_int_def max_safe_def)
  have f: "demo_footed = (demo_input 0)\<lparr>fi_file := ?whole\<rparr>" "fi_file demo_footed = ?whole"
    "fi_sidecar demo_footed = Some (demo_payload 0)" "fi_store demo_footed = None"
    by (simp_all add: demo_footed_def demo_input_def)
  obtain w where w: "judge tail_platform demo_pki (demo_payload 0) demo_media None [] demo_footed = ret (w, None)" "vd_outcome w = Authentic"
    using demo_judge [OF safe, of ?whole] demo_authentic [of demo_footed] by (auto simp: f(1))
  have "\<exists>h. media_hash tail_platform ?whole = Some h"
    by (simp add: media_hash_def canonical_bytes_def detect_container_def is_jpeg_def demo_media_def)
  then obtain h where h: "media_hash tail_platform ?whole = Some h" by blast
  obtain v' where v': "authentic_verdict tail_platform demo_pki (demo_core 0) demo_evidence demo_footed demo_labels None = ret v'"
    using demo_authentic by blast
  have weighed: "weigh tail_platform demo_pki (demo_core 0) demo_footed None [] = ret demo_evidence" by (simp add: f(1) demo_weigh)
  have "\<exists>x. judge tail_platform demo_pki (demo_payload 0) ?whole None [] demo_footed = ret x"
    by (cases "b64url_encode (sha256 tail_platform demo_media) = h")
      (simp_all add: judge_def demo_read [OF safe] h v' weighed carries_def field_def)
  then obtain x where x: "judge tail_platform demo_pki (demo_payload 0) ?whole None [] demo_footed = ret x" by blast
  have carrier: "carrier_of ?whole None = no_carrier No_store_found"
    by (simp add: demo_media_def carrier_of_def embedded_stores_def is_jpeg_def latin1_def slice_def trailer_consts ascii_def char_of_def)
  have "parse_trailer ?whole = No_trailer"
    by (simp add: parse_trailer_def trailer_consts demo_media_def)
  with carrier have "extract_proof ?whole (Some (demo_payload 0)) None = Proof_found \<lparr>ex_payload = demo_payload 0, ex_media = ?whole,
      ex_flags = None, ex_source = From_sidecar, ex_labels = [], ex_alternate = None\<rparr>"
    by (simp add: extract_proof_def carrier no_carrier_def)
  with x obtain v0 where v0: "verdict_of_file tail_platform demo_pki demo_footed = ret v0"
    by (cases x) (simp add: verdict_of_file_def f(2-4) judged_def of_source_capture_def depth_of_def)
  obtain l where l: "judge tail_platform demo_pki (demo_payload 0) demo_media None [''trailer unreadable''] demo_footed = ret l"
    using judge_outcome [of tail_platform demo_pki "demo_payload 0" demo_media None "[''trailer unreadable'']" demo_footed None "[]"] w(1)
    by (auto simp: outcome_run_def run_bind_ret)
  then obtain v where v: "verify_file tail_platform demo_pki demo_footed = ret v"
    by (cases l) (simp add: verify_file_def v0 demo_footed_alternate judged_def)
  have "(demo_payload 0, demo_media, None, [''trailer unreadable''], From_sidecar) \<in> set (presented demo_footed)"
    by (simp add: presented_def demo_footed_alternate)
  from no_presented_proof_outranks [OF v this _ w(1)] v w(2) show ?thesis by (auto simp: depth_of_def)
qed

end
