(* ===== verification/Outcomes.thy ===== *)
theory Outcomes
  imports Verdicts
begin

text \<open>
  The shape every verdict has, whatever the input, and the choice of the verifier among the proofs presented with a
  file as the maximum of an abstract ranking.
\<close>

section \<open>The shape of a verdict\<close>

text \<open>
  The invariants of \<open>Verdict\<close> that its TypeScript type leaves to its comments: labels are sorted and a red verdict has
  none, a level is given for an authentic file and only there, a reason for every other one, a position for every
  outcome that says something about the bytes, and the credited segments are listed once each in index order.
\<close>

definition shaped :: "verdict \<Rightarrow> bool" where
  "shaped v \<longleftrightarrow> sorted (vd_labels v) \<and> (OUTCOME_RANK (vd_outcome v) = 0 \<longrightarrow> vd_labels v = [])
     \<and> (vd_level v \<noteq> None \<longleftrightarrow> vd_outcome v = Authentic) \<and> (vd_reason v = None \<longleftrightarrow> vd_outcome v = Authentic)
     \<and> (vd_location v \<noteq> None \<longleftrightarrow> OUTCOME_RANK (vd_outcome v) \<noteq> 0)
     \<and> (vd_outcome v = Tampered \<or> OUTCOME_RANK (vd_outcome v) \<noteq> 0 \<longrightarrow> vd_core_hash v \<noteq> None)
     \<and> (\<forall>segments. vd_segments v = Some segments \<longrightarrow> sorted_wrt (<) segments)"

lemma shaped_fail [simp]: "shaped (fail oc why) \<longleftrightarrow> OUTCOME_RANK oc = 0 \<and> oc \<noteq> Tampered"
  by (auto simp: shaped_def fail_def OUTCOME_RANK_def split: outcome.splits)

lemma shaped_tampered [simp]: "shaped (tampered unknown core why)"
  "sorted_wrt (<) segments \<Longrightarrow> shaped ((tampered unknown core why)\<lparr>vd_segments := Some segments\<rparr>)"
  by (simp_all add: shaped_def tampered_def fail_def OUTCOME_RANK_def)

lemma shaped_frames [simp]:
  "sorted_wrt (<) segments \<Longrightarrow> oc \<in> {Frames_not_compared, Verified_clip} \<Longrightarrow> shaped (frames_verdict sc ev oc ls segments why)"
  by (auto simp: shaped_def frames_verdict_def fail_def OUTCOME_RANK_def)

lemma shaped_source [simp]: "shaped (v\<lparr>vd_source := s, vd_frames_name_capture := f\<rparr>) = shaped v"
  by (simp add: shaped_def)

lemma shaped_of_source_capture: "shaped v \<Longrightarrow> shaped (of_source_capture source v)"
  by (auto simp: of_source_capture_def shaped_def fail_def OUTCOME_RANK_def)

lemma credited_sorted:
  assumes "read_binding P media recompute cid entries = ret (Inr (ls, b, reading))"
  shows "sorted_wrt (<) (credited b chain)"
proof (cases b)
  case (Located verified problems)
  have "distinct verified \<and> sorted verified"
    using assms Located
    by (auto simp: read_binding_def bind_segments_def Let_def first_seen_def split: if_splits sum.splits container_failure.splits container_reading.splits)
  then show ?thesis using Located by (simp add: credited_def strict_sorted_iff sorted_filter [where f = "\<lambda>i. i", simplified])
qed (simp add: credited_def)

lemma judge_clip_shaped: "judge_clip P sc ev ls b reading entries verified a = Inr v \<Longrightarrow> sorted_wrt (<) verified \<Longrightarrow> shaped v"
  by (auto simp: judge_clip_def Let_def rbind_eq_Inr split: binding.splits if_splits)

lemma judge_original_shaped:
  assumes "judge_original P sc ev ls reading cid many status verified = Inr s" "sorted_wrt (<) verified"
  shows "(\<forall>v. s = Decided v \<longrightarrow> shaped v) \<and> (\<forall>l segments. s = Continue l segments \<longrightarrow> segments = Some verified)"
  using assms by (auto simp: judge_original_def Let_def rbind_eq_Inr split: if_splits)

lemma judge_bound_shaped:
  assumes "judge_bound P sc ev m entries cid chain ls b reading = Inr s" "sorted_wrt (<) (credited b chain)"
  shows "(\<forall>v. s = Decided v \<longrightarrow> shaped v) \<and> (\<forall>l segments. s = Continue l segments \<longrightarrow> segments = Some (credited b chain))"
  using assms
  by (auto simp: judge_bound_def Let_def rbind_eq_Inr judge_clip_shaped dest: judge_original_shaped
      split: if_splits binding.splits list.splits)

lemma judge_segments_shaped:
  assumes "judge_segments P sc ev media m recompute = ret (s, located)"
  shows "(\<forall>v. s = Decided v \<longrightarrow> shaped v) \<and> (\<forall>l segments. s = Continue l segments \<longrightarrow> (\<exists>x. segments = Some x \<and> sorted_wrt (<) x))"
proof -
  from assms obtain entries chain r where r: "read_binding P media recompute (capture_of (sc_proof sc)) entries = ret r"
    and s: "(case r of Inl _ \<Rightarrow> ret (Decided ((tampered (sc_unknown sc) (sc_hash sc) Container_is_malformed)\<lparr>vd_segments := Some []\<rparr>), None)
         | Inr (ls, b, reading) \<Rightarrow>
             run_bind (run_sum (judge_bound P sc ev m entries (capture_of (sc_proof sc)) chain (ev_labels ev @ ls) b (gops_of reading))) (\<lambda>v.
               ret (v, if recompute then Some (is_located b) else None))) = ret (s, located)"
    by (auto simp: judge_segments_def Let_def run_bind_ret split: option.splits)
  show ?thesis
  proof (cases r)
    case (Inr t)
    obtain ls b reading where t: "t = (ls, b, reading)" by (cases t) auto
    have sorted: "sorted_wrt (<) (credited b chain)" using r [unfolded Inr t] by (rule credited_sorted)
    from s obtain u where "judge_bound P sc ev m entries (capture_of (sc_proof sc)) chain (ev_labels ev @ ls) b (gops_of reading) = Inr s"
      by (auto simp: Inr t run_bind_ret)
    then show ?thesis using sorted judge_bound_shaped by fast
  qed (use s in auto)
qed

lemma authentic_verdict_shaped:
  assumes "authentic_verdict P K sc ev input ls segments = ret v" "\<And>x. segments = Some x \<Longrightarrow> sorted_wrt (<) x"
  shows "shaped v"
proof -
  from assms(1) obtain r where r: "level P K (sc_proof sc) (sc_spki sc) (sc_hash sc) (sort ls) (fi_trust input) (ev_signers ev) (fi_clock input)
       (ev_registry ev) (fi_key_status input) (ev_anchor ev) (ev_stamp ev) (ev_integrity ev) = ret r"
    and v: "(case r of (lv, l) \<Rightarrow> ret \<lparr>vd_outcome = Authentic, vd_labels = l, vd_not_evaluated = sc_unknown sc, vd_core_hash = Some (sc_hash sc),
       vd_segments = segments, vd_level = Some lv, vd_location = Some (ev_location ev), vd_source = None,
       vd_frames_name_capture = None, vd_reason = None\<rparr>) = ret v"
    by (auto simp: authentic_verdict_def run_bind_ret)
  obtain lv l where l: "r = (lv, l)" by fastforce
  have "sorted l" using r [unfolded l] by (rule level_ret) simp
  then show ?thesis using v assms(2) by (auto simp: l shaped_def OUTCOME_RANK_def)
qed

lemma read_core_shaped: "read_core P K payload = Inr (Inl v) \<Longrightarrow> shaped v"
  by (auto simp: read_core_def check_core_def Let_def OUTCOME_RANK_def split: sum.splits if_splits option.splits)

lemma judge_shaped:
  assumes "judge P K payload media flags labels input = ret (v, located)"
  shows "shaped v"
proof -
  from assms obtain r where r: "read_core P K payload = Inr r" by (auto simp: judge_def run_bind_ret)
  show ?thesis
  proof (cases r)
    case (Inl w)
    then show ?thesis using assms r read_core_shaped by (auto simp: judge_def)
  next
    case (Inr sc)
    show ?thesis
    proof (cases "media_hash P media")
      case None
      then show ?thesis using assms r Inr by (auto simp: judge_def OUTCOME_RANK_def)
    next
      case (Some h)
      then obtain ev where ev: "weigh P K sc input flags labels = ret ev" using assms r Inr by (auto simp: judge_def Let_def run_bind_ret)
      note j = assms [unfolded judge_def r Inr, simplified, unfolded Some option.case Let_def ev, simplified]
      show ?thesis
      proof (cases "carries (sc_proof sc) ''segments''")
        case True
        from j True obtain s loc where s: "judge_segments P sc ev media (member (field (sc_proof sc) ''media'') ''hash'' = Some (JStr h))
            (fi_recompute input) = ret (s, loc)"
          "(case s of Decided w \<Rightarrow> ret (w, loc) | Continue ls segments \<Rightarrow> run_bind (authentic_verdict P K sc ev input ls segments) (\<lambda>v. ret (v, loc)))
             = ret (v, located)"
          by (auto simp: run_bind_ret)
        show ?thesis using s(2) judge_segments_shaped [OF s(1)]
          by (cases s) (auto simp: run_bind_ret intro: authentic_verdict_shaped)
      next
        case False
        then show ?thesis using j by (auto simp: run_bind_ret intro: authentic_verdict_shaped split: if_splits)
      qed
    qed
  qed
qed

lemma judged_shaped: "judged P K payload media flags labels input source = ret v \<Longrightarrow> shaped v"
  by (auto simp: judged_def run_bind_ret judge_shaped split: prod.splits)

lemma verdict_of_file_shaped: "verdict_of_file P K input = ret v \<Longrightarrow> shaped v"
  by (auto simp: verdict_of_file_def run_bind_ret OUTCOME_RANK_def judged_shaped shaped_of_source_capture split: extraction.splits option.splits if_splits)

text \<open>C19. Every verdict the verifier reaches on a file, whatever the file and whatever is presented with it, has the shape its
  readers rely on: sorted labels, none on a red verdict; a level exactly when the file is authentic and a reason exactly
  when it is not; a position exactly when the outcome says something about the bytes, and then a core hash; and the credited
  segments in increasing order.\<close>

theorem verdict_shape:
  assumes "verify_file P K input = ret v"
  shows "shaped v"
proof -
  from assms obtain w where w: "verdict_of_file P K input = ret w" by (auto simp: verify_file_def run_bind_ret)
  then have "shaped w" by (rule verdict_of_file_shaped)
  then show ?thesis
    using assms w by (auto simp: verify_file_def run_bind_ret better_def judged_shaped split: option.splits)
qed

theorem verdict_shape_witness: "\<exists>v. verify_file tail_platform demo_pki (demo_input 0) = ret v \<and> shaped v"
proof -
  obtain v where "verify_file tail_platform demo_pki (demo_input 0) = ret v" using demo_reaches by blast
  with verdict_shape show ?thesis by blast
qed

section \<open>The best of what is presented\<close>

text \<open>The specification of the choice: what a presented proof counts for, and the best of a list.\<close>

definition counts_for :: "presented_proof \<Rightarrow> verdict \<Rightarrow> nat" where
  "counts_for p v = (case p of (payload, media, flags, labels, source) \<Rightarrow> OUTCOME_RANK (vd_outcome (of_source_capture source v)))"

definition best_rank :: "nat list \<Rightarrow> nat" where
  "best_rank ranks = foldr max ranks 0"

definition verdicts_of :: "platform \<Rightarrow> pki \<Rightarrow> file_input \<Rightarrow> verdict list \<Rightarrow> bool" where
  "verdicts_of P K input ws = list_all2 (\<lambda>p w. judged_as P K input p = ret w) (presented input) ws"

lemma sidecar_stands [simp]: "of_source_capture From_sidecar v = v"
  by (simp add: of_source_capture_def depth_of_def)

lemma best_rank_simps [simp]: "best_rank [] = 0" "best_rank (r # rs) = max r (best_rank rs)"
  by (simp_all add: best_rank_def)

lemma best_rank_append: "best_rank (xs @ ys) = max (best_rank xs) (best_rank ys)"
  by (induction xs) (simp_all add: max.assoc)

text \<open>The proofs that the file and its sidecar present, without the one beside an unusable trailer.\<close>

definition extracted_proofs :: "file_input \<Rightarrow> presented_proof list" where
  "extracted_proofs input = (case extract_proof (fi_file input) (fi_sidecar input) (fi_store input) of
       Proof_found ex \<Rightarrow> (ex_payload ex, ex_media ex, ex_flags ex, ex_labels ex, ex_source ex)
         # (case ex_alternate ex of None \<Rightarrow> [] | Some (payload, labels) \<Rightarrow> [(payload, ex_media ex, None, labels, From_sidecar)])
     | _ \<Rightarrow> [])"

lemma verdict_of_file_best:
  assumes "verdict_of_file P K input = ret v"
  shows "\<exists>ws. list_all2 (\<lambda>p w. judged_as P K input p = ret w) (extracted_proofs input) ws
    \<and> OUTCOME_RANK (vd_outcome v) = best_rank (map2 counts_for (extracted_proofs input) ws)"
proof (cases "extract_proof (fi_file input) (fi_sidecar input) (fi_store input)")
  case (Proof_found ex)
  from assms Proof_found obtain w where w: "judged P K (ex_payload ex) (ex_media ex) (ex_flags ex) (ex_labels ex) input (ex_source ex) = ret w"
    by (auto simp: verdict_of_file_def run_bind_ret)
  show ?thesis
  proof (cases "ex_alternate ex")
    case None
    then have "v = of_source_capture (ex_source ex) w" using assms w Proof_found by (simp add: verdict_of_file_def)
    then show ?thesis using w None Proof_found
      by (intro exI [of _ "[w]"]) (simp add: extracted_proofs_def judged_as_def counts_for_def)
  next
    case (Some alt)
    obtain payload labels where alt: "alt = (payload, labels)" by fastforce
    have depth: "of_source_capture (ex_source ex) w = w"
      using presented_depth [OF Proof_found] Some by (simp add: of_source_capture_def)
    from assms w Some alt Proof_found obtain other where o: "judged P K payload (ex_media ex) None labels input From_sidecar = ret other"
      by (auto simp: verdict_of_file_def run_bind_ret)
    then have "v = better other w"
      using assms w Some alt Proof_found depth by (simp add: verdict_of_file_def better_def split: if_splits)
    then show ?thesis using w o Some alt Proof_found depth
      by (intro exI [of _ "[w, other]"]) (auto simp: extracted_proofs_def judged_as_def counts_for_def better_def)
  qed
qed (use assms in \<open>auto simp: verdict_of_file_def extracted_proofs_def fail_def OUTCOME_RANK_def\<close>)

text \<open>C4. The choice among proofs refines a maximum: when the verifier reaches a verdict it has judged every proof presented with
  the file, and the rank of the verdict is the best rank any of them counts for, where the proof of a source capture
  counts only for what it reaches as a clip or an original.\<close>

theorem verify_file_best:
  assumes "verify_file P K input = ret v"
  shows "\<exists>ws. verdicts_of P K input ws \<and> OUTCOME_RANK (vd_outcome v) = best_rank (map2 counts_for (presented input) ws)"
proof -
  from assms obtain w where w: "verdict_of_file P K input = ret w" by (auto simp: verify_file_def run_bind_ret)
  from verdict_of_file_best [OF w] obtain ws where ws: "list_all2 (\<lambda>p w. judged_as P K input p = ret w) (extracted_proofs input) ws"
    "OUTCOME_RANK (vd_outcome w) = best_rank (map2 counts_for (extracted_proofs input) ws)" by blast
  have len: "length (extracted_proofs input) = length ws" using ws(1) by (rule list_all2_lengthD)
  show ?thesis
  proof (cases "unreadable_alternate (fi_file input) (fi_sidecar input) (fi_store input)")
    case None
    then have "presented input = extracted_proofs input" by (simp add: presented_def extracted_proofs_def)
    moreover have "v = w" using assms w None by (simp add: verify_file_def)
    ultimately show ?thesis using ws by (auto simp: verdicts_of_def)
  next
    case (Some alt)
    let ?p = "(alt_payload alt, alt_media alt, None, alt_labels alt, From_sidecar)"
    from Some obtain other where o: "judged P K (alt_payload alt) (alt_media alt) None (alt_labels alt) input From_sidecar = ret other"
      "v = better other w" using assms w by (auto simp: verify_file_def run_bind_ret)
    have "presented input = extracted_proofs input @ [?p]" using Some by (simp add: presented_def extracted_proofs_def)
    moreover have "OUTCOME_RANK (vd_outcome v) = max (OUTCOME_RANK (vd_outcome w)) (OUTCOME_RANK (vd_outcome other))"
      using o(2) by (simp add: better_def)
    ultimately show ?thesis using ws o(1) len
      by (intro exI [of _ "ws @ [other]"]) (simp add: verdicts_of_def list_all2_appendI judged_as_def best_rank_append counts_for_def)
  qed
qed

theorem verify_file_best_witness:
  "\<exists>v ws. verify_file tail_platform demo_pki (demo_input 0) = ret v \<and> vd_outcome v = Authentic
     \<and> best_rank (map2 counts_for (presented (demo_input 0)) ws) = 3"
proof -
  obtain v where v: "verify_file tail_platform demo_pki (demo_input 0) = ret v" "vd_outcome v = Authentic" using demo_reaches by blast
  with verify_file_best [OF v(1)] show ?thesis by (auto simp: OUTCOME_RANK_def)
qed

end
