(* ===== verification/Vault.thy ===== *)
theory Vault
  imports Registry
begin

text \<open>
  \<open>tools/src/vault/format.ts\<close> and \<open>decrypt.ts\<close>: the encrypted vault object. The manifest is checked, the
  wrapped key opened, and the segments decrypted into a file that is published only when all of them were
  authenticated. What HPKE, WebCrypto, \<open>JSON.parse\<close> and Node's key import do is the record
  \<open>vault_platform\<close>; the file system is a map from paths to contents, which no one else changes meanwhile.
\<close>

section \<open>Manifest\<close>

definition CHUNK_BYTES :: nat where "CHUNK_BYTES = 1048576"
definition MAX_BYTES :: nat where "MAX_BYTES = 500000000"
definition VERSION :: string where "VERSION = ''vcap-vault/1''"

record vault_manifest =
  vm_object_id :: jsstr
  vm_capture_id :: jsstr
  vm_org_key_id :: jsstr
  vm_nonce_prefix :: jsstr
  vm_plaintext_bytes :: nat
  vm_enc :: jsstr
  vm_wrapped :: jsstr
  vm_ciphertext_sha256 :: jsstr

datatype vault_error = Invalid_manifest | Wrong_key | Invalid_key | Invalid_chunk | Input_too_large | Length_mismatch
  | Truncated | Ciphertext_mismatch | Provider_error | No_such_file | File_exists

text \<open>An object whose sorted keys, joined by commas, are the expected ones sorted and joined.\<close>

fun keys_exactly :: "json \<Rightarrow> string list \<Rightarrow> bool" where
  "keys_exactly (JObj ms) expected = (join (sort (map fst ms)) = join (sort (map js expected)))"
| "keys_exactly v expected = False"

definition base64url :: "json option \<Rightarrow> nat \<Rightarrow> bytes option" where
  "base64url v n = (case str_of v of None \<Rightarrow> None
     | Some s \<Rightarrow> if \<not> list_all b64url_unit s then None
         else if length (b64_decode s) \<noteq> n \<or> b64url_encode (b64_decode s) \<noteq> s then None else Some (b64_decode s))"

text \<open>\<open>/^[0-9a-f]{n}$/\<close>.\<close>

definition lower_hex :: "nat \<Rightarrow> json option \<Rightarrow> jsstr option" where
  "lower_hex n v = (case str_of v of None \<Rightarrow> None
     | Some s \<Rightarrow> if length s = n \<and> list_all (\<lambda>u. let k = unat u in 48 \<le> k \<and> k \<le> 57 \<or> 97 \<le> k \<and> k \<le> 102) s then Some s else None)"

definition MANIFEST_KEYS :: "string list" where
  "MANIFEST_KEYS = [''version'', ''object_id'', ''capture_id'', ''org_key_id'', ''nonce_prefix'', ''plaintext_bytes'',
     ''chunk_bytes'', ''wrapped_key'', ''ciphertext_sha256'']"

definition text_of :: "json option \<Rightarrow> jsstr" where
  "text_of v = (case str_of v of None \<Rightarrow> [] | Some s \<Rightarrow> s)"

definition manifest :: "json \<Rightarrow> vault_manifest option" where
  "manifest v = (
     if \<not> keys_exactly v MANIFEST_KEYS then None
     else if member v ''version'' \<noteq> Some (JStr (js VERSION)) \<or> member v ''chunk_bytes'' \<noteq> Some (JNum (NInt (int CHUNK_BYTES))) then None
     else case int_of (member v ''plaintext_bytes'') of None \<Rightarrow> None
     | Some n \<Rightarrow>
       if \<not> safe_int n \<or> n < 0 \<or> n > int MAX_BYTES then None
       else if lower_hex 32 (member v ''object_id'') = None \<or> lower_hex 64 (member v ''org_key_id'') = None
         \<or> lower_hex 64 (member v ''ciphertext_sha256'') = None then None
       else if base64url (member v ''capture_id'') 16 = None \<or> base64url (member v ''nonce_prefix'') 8 = None then None
       else case member v ''wrapped_key'' of None \<Rightarrow> None
       | Some w \<Rightarrow>
         if \<not> keys_exactly w [''enc'', ''ciphertext''] then None
         else case base64url (member w ''enc'') 65 of None \<Rightarrow> None
         | Some enc \<Rightarrow>
           if hd enc \<noteq> 4 \<or> base64url (member w ''ciphertext'') 48 = None then None
           else Some \<lparr>vm_object_id = text_of (member v ''object_id''), vm_capture_id = text_of (member v ''capture_id''),
             vm_org_key_id = text_of (member v ''org_key_id''), vm_nonce_prefix = text_of (member v ''nonce_prefix''),
             vm_plaintext_bytes = nat n, vm_enc = text_of (member w ''enc''), vm_wrapped = text_of (member w ''ciphertext''),
             vm_ciphertext_sha256 = text_of (member v ''ciphertext_sha256'')\<rparr>)"

section \<open>Binary metadata\<close>

text \<open>\<open>Buffer.from(s, 'hex')\<close>; a unit that is no ASCII character is no digit.\<close>

definition hex_bytes :: "jsstr \<Rightarrow> bytes" where
  "hex_bytes s = from_hex (map (\<lambda>u. if unat u < 128 then char_of (unat u) else CHR ''-'') s)"

definition u32 :: "nat \<Rightarrow> bytes option" where "u32 n = put_be 4 (int n)"
definition u64 :: "nat \<Rightarrow> bytes option" where "u64 n = put_be 8 (int n)"

text \<open>The fields in the order \<open>Buffer.concat\<close> gets them; \<open>None\<close> is an exception on a manifest nobody validated.\<close>

definition concat_parts :: "bytes option list \<Rightarrow> bytes option" where
  "concat_parts parts = map_option concat (omap id parts)"

definition vault_header :: "vault_manifest \<Rightarrow> bytes option" where
  "vault_header m = concat_parts [Some (ascii ''vcap/1.0/vault/header'' @ [0]),
     Some (hex_bytes (vm_object_id m)), base64url (Some (JStr (vm_capture_id m))) 16, Some (hex_bytes (vm_org_key_id m)),
     base64url (Some (JStr (vm_nonce_prefix m))) 8, u64 (vm_plaintext_bytes m), u32 CHUNK_BYTES]"

definition chunk_count :: "vault_manifest \<Rightarrow> nat" where
  "chunk_count m = max 1 ((vm_plaintext_bytes m + CHUNK_BYTES - 1) div CHUNK_BYTES)"

definition ciphertext_bytes :: "vault_manifest \<Rightarrow> nat" where
  "ciphertext_bytes m = vm_plaintext_bytes m + 16 * chunk_count m"

definition chunk_size :: "vault_manifest \<Rightarrow> nat \<Rightarrow> nat" where
  "chunk_size m index = min CHUNK_BYTES (vm_plaintext_bytes m - index * CHUNK_BYTES)"

definition nonce :: "vault_manifest \<Rightarrow> nat \<Rightarrow> bytes option" where
  "nonce m index = concat_parts [base64url (Some (JStr (vm_nonce_prefix m))) 8, u32 index]"

definition info :: "platform \<Rightarrow> vault_manifest \<Rightarrow> bytes option" where
  "info P m = concat_parts [Some (ascii ''vcap/1.0/vault'' @ [0]), map_option (sha256 P) (vault_header m)]"

definition aad :: "platform \<Rightarrow> vault_manifest \<Rightarrow> nat \<Rightarrow> bytes option" where
  "aad P m index = concat_parts [Some (ascii ''vcap/1.0/vault/chunk'' @ [0]), map_option (sha256 P) (vault_header m), u32 index,
     Some [if index = chunk_count m - 1 then 1 else 0]]"

section \<open>Keys and chunks\<close>

text \<open>A private key as Node imports it, with the SPKI of its normalised public half.\<close>

record private_key =
  pk_type :: string
  pk_curve :: "string option"
  pk_spki :: bytes
  pk_pkcs8 :: bytes

record vault_platform =
  vp_parse :: "bytes \<Rightarrow> json option"
  vp_private_key :: "bool \<Rightarrow> bytes \<Rightarrow> private_key option"
  vp_hpke_open :: "private_key \<Rightarrow> bytes \<Rightarrow> bytes \<Rightarrow> bytes \<Rightarrow> bytes \<Rightarrow> bytes option"
  vp_gcm_open :: "bytes \<Rightarrow> bytes \<Rightarrow> bytes \<Rightarrow> bytes \<Rightarrow> bytes option"

definition or_error :: "'e \<Rightarrow> 'a option \<Rightarrow> 'e + 'a" where
  "or_error e x = (case x of None \<Rightarrow> Inl e | Some y \<Rightarrow> Inr y)"

lemma or_error_simps [simp]: "or_error e None = Inl e" "or_error e (Some y) = Inr y" "or_error e x = Inr y \<longleftrightarrow> x = Some y"
  by (auto simp: or_error_def split: option.splits)

definition unwrap :: "platform \<Rightarrow> vault_platform \<Rightarrow> vault_manifest \<Rightarrow> bytes \<Rightarrow> vault_error + bytes" where
  "unwrap P V m pkcs8 = rbind (or_error Provider_error (vp_private_key V (take 11 pkcs8 = ascii ''-----BEGIN '') pkcs8)) (\<lambda>key.
     if pk_type key \<noteq> ''ec'' \<or> pk_curve key \<noteq> Some ''prime256v1'' then Inl Wrong_key
     else if hex_of (sha256 P (pk_spki key)) \<noteq> vm_org_key_id m then Inl Wrong_key
     else rbind (or_error Invalid_manifest (base64url (Some (JStr (vm_enc m))) 65)) (\<lambda>enc.
       rbind (or_error Invalid_manifest (info P m)) (\<lambda>ctx.
       rbind (or_error Invalid_manifest (base64url (Some (JStr (vm_wrapped m))) 48)) (\<lambda>wrapped.
       rbind (or_error Invalid_manifest (vault_header m)) (\<lambda>header.
       rbind (or_error Provider_error (vp_hpke_open V key enc ctx wrapped header)) (\<lambda>raw.
         if length raw \<noteq> 32 then Inl Invalid_key else Inr raw))))))"

definition decrypt_chunk :: "platform \<Rightarrow> vault_platform \<Rightarrow> vault_manifest \<Rightarrow> bytes \<Rightarrow> nat \<Rightarrow> bytes \<Rightarrow> vault_error + bytes" where
  "decrypt_chunk P V m key index encrypted =
     (if index \<ge> chunk_count m \<or> length encrypted \<noteq> chunk_size m index + 16 then Inl Invalid_chunk
      else rbind (or_error Invalid_manifest (nonce m index)) (\<lambda>iv. rbind (or_error Invalid_manifest (aad P m index)) (\<lambda>a.
        or_error Provider_error (vp_gcm_open V key iv a encrypted))))"

section \<open>decryptFile\<close>

type_synonym files = "string \<Rightarrow> bytes option"

definition read_small_file :: "files \<Rightarrow> string \<Rightarrow> nat \<Rightarrow> vault_error + bytes" where
  "read_small_file fs path limit = rbind (or_error No_such_file (fs path)) (\<lambda>bs.
     if length bs > limit then Inl Input_too_large else Inr bs)"

text \<open>
  The loop over the segments: where it reads, the bytes the digest has seen and the bytes written so far.
  A segment is decrypted before it is written, so what an error leaves in the temporary file is a prefix.
\<close>

record progress =
  pg_position :: nat
  pg_digested :: bytes
  pg_written :: bytes

definition chunk_step :: "platform \<Rightarrow> vault_platform \<Rightarrow> vault_manifest \<Rightarrow> bytes \<Rightarrow> bytes \<Rightarrow> nat \<Rightarrow> progress \<Rightarrow> vault_error + progress" where
  "chunk_step P V m key input index pg = (let
       encrypted = slice input (pg_position pg) (pg_position pg + chunk_size m index + 16)
     in if length encrypted < chunk_size m index + 16 then Inl Truncated
     else rbind (decrypt_chunk P V m key index encrypted) (\<lambda>plain.
       Inr \<lparr>pg_position = pg_position pg + chunk_size m index + 16, pg_digested = pg_digested pg @ encrypted,
            pg_written = pg_written pg @ plain\<rparr>))"

fun chunk_loop :: "platform \<Rightarrow> vault_platform \<Rightarrow> vault_manifest \<Rightarrow> bytes \<Rightarrow> bytes \<Rightarrow> nat list \<Rightarrow> progress
    \<Rightarrow> progress \<times> vault_error option" where
  "chunk_loop P V m key input [] pg = (pg, None)"
| "chunk_loop P V m key input (index # rest) pg = (case chunk_step P V m key input index pg of
     Inl e \<Rightarrow> (pg, Some e)
   | Inr pg' \<Rightarrow> chunk_loop P V m key input rest pg')"

definition no_progress :: progress where
  "no_progress = \<lparr>pg_position = 0, pg_digested = [], pg_written = []\<rparr>"

text \<open>What runs between the opening of the input and the \<open>finally\<close>; \<open>temporary\<close> is the random name of the partial file.\<close>

definition decrypt_into :: "platform \<Rightarrow> vault_platform \<Rightarrow> files \<Rightarrow> vault_manifest \<Rightarrow> bytes \<Rightarrow> string \<Rightarrow> string \<Rightarrow> string
    \<Rightarrow> files \<times> (vault_error + unit)" where
  "decrypt_into P V fs m input key_path temporary output_path =
     (if length input \<noteq> ciphertext_bytes m then (fs, Inl Length_mismatch)
      else case rbind (read_small_file fs key_path 16384) (unwrap P V m) of Inl e \<Rightarrow> (fs, Inl e)
      | Inr key \<Rightarrow>
        if fs temporary \<noteq> None then (fs, Inl File_exists)
        else case chunk_loop P V m key input [0..<chunk_count m] no_progress of (pg, failure) \<Rightarrow>
          let fs' = fs(temporary \<mapsto> pg_written pg) in (case failure of Some e \<Rightarrow> (fs', Inl e)
          | None \<Rightarrow>
            if length input \<noteq> pg_position pg \<or> hex_of (sha256 P (pg_digested pg)) \<noteq> vm_ciphertext_sha256 m then (fs', Inl Ciphertext_mismatch)
            else if fs' output_path \<noteq> None then (fs', Inl File_exists)
            else (fs'(output_path \<mapsto> pg_written pg), Inr ())))"

definition decrypt_file :: "platform \<Rightarrow> vault_platform \<Rightarrow> string \<Rightarrow> files \<Rightarrow> string \<Rightarrow> string \<Rightarrow> string \<Rightarrow> string
    \<Rightarrow> files \<times> (vault_error + unit)" where
  "decrypt_file P V temporary fs manifest_path input_path key_path output_path =
     (case rbind (read_small_file fs manifest_path 16384) (\<lambda>bs. rbind (or_error Provider_error (vp_parse V bs)) (\<lambda>v.
         rbind (or_error Invalid_manifest (manifest v)) (\<lambda>m. rbind (or_error No_such_file (fs input_path)) (\<lambda>input. Inr (m, input))))) of
       Inl e \<Rightarrow> (fs, Inl e)
     | Inr (m, input) \<Rightarrow> (case decrypt_into P V fs m input key_path temporary output_path of
         (fs', r) \<Rightarrow> (fs'(temporary := None), r)))"

section \<open>The segments tile the file\<close>

lemma CHUNK_pos: "0 < CHUNK_BYTES" by (simp add: CHUNK_BYTES_def)

lemma chunk_sizes: "sum_list (map (chunk_size m) [0..<k]) = min (vm_plaintext_bytes m) (k * CHUNK_BYTES)"
  by (induction k) (auto simp: chunk_size_def min_def)

lemma chunk_count_covers: "vm_plaintext_bytes m \<le> chunk_count m * CHUNK_BYTES"
proof -
  let ?n = "vm_plaintext_bytes m"
  have "?n + CHUNK_BYTES - 1 < ((?n + CHUNK_BYTES - 1) div CHUNK_BYTES + 1) * CHUNK_BYTES"
    using div_less_iff_less_mult [OF CHUNK_pos] by (metis less_add_one)
  then have "?n \<le> (?n + CHUNK_BYTES - 1) div CHUNK_BYTES * CHUNK_BYTES" using CHUNK_pos by (simp add: algebra_simps)
  also have "\<dots> \<le> chunk_count m * CHUNK_BYTES" by (simp add: chunk_count_def)
  finally show ?thesis .
qed

text \<open>Where a segment starts in the ciphertext, and its bytes.\<close>

definition chunk_start :: "vault_manifest \<Rightarrow> nat \<Rightarrow> nat" where
  "chunk_start m i = min (vm_plaintext_bytes m) (i * CHUNK_BYTES) + 16 * i"

definition chunk_at :: "vault_manifest \<Rightarrow> bytes \<Rightarrow> nat \<Rightarrow> bytes" where
  "chunk_at m input i = slice input (chunk_start m i) (chunk_start m (Suc i))"

lemma chunk_start_simps [simp]: "chunk_start m 0 = 0" "chunk_start m (chunk_count m) = ciphertext_bytes m"
  using chunk_count_covers [of m] by (simp_all add: chunk_start_def ciphertext_bytes_def min_def)

lemma chunk_start_step: "chunk_start m i + chunk_size m i + 16 = chunk_start m (Suc i)"
  by (auto simp: chunk_start_def chunk_size_def min_def)

lemma chunk_at_length:
  assumes "chunk_start m (Suc i) \<le> length input"
  shows "length (chunk_at m input i) = chunk_size m i + 16"
  using assms chunk_start_step [of m i] by (simp add: chunk_at_def length_slice)

lemma chunk_start_mono: "i \<le> j \<Longrightarrow> chunk_start m i \<le> chunk_start m j"
  unfolding chunk_start_def by (intro add_mono min.mono) simp_all

lemma chunk_start_le: "i \<le> chunk_count m \<Longrightarrow> chunk_start m i \<le> ciphertext_bytes m"
  using chunk_start_mono [of i "chunk_count m" m] by simp

section \<open>The loop\<close>

text \<open>A segment opens to a plaintext under its own nonce and additional data.\<close>

definition opens :: "platform \<Rightarrow> vault_platform \<Rightarrow> vault_manifest \<Rightarrow> bytes \<Rightarrow> bytes \<Rightarrow> nat \<Rightarrow> bytes \<Rightarrow> bool" where
  "opens P V m key input i plain = (\<exists>iv a. nonce m i = Some iv \<and> aad P m i = Some a
     \<and> vp_gcm_open V key iv a (chunk_at m input i) = Some plain)"

lemma decrypt_chunk_opens:
  assumes "i < chunk_count m" "length input = ciphertext_bytes m"
  shows "decrypt_chunk P V m key i (chunk_at m input i) = Inr plain \<longleftrightarrow> opens P V m key input i plain"
proof -
  have "chunk_start m (Suc i) \<le> length input" using assms chunk_start_le [of "Suc i" m] by simp
  then show ?thesis using assms(1) by (auto simp: decrypt_chunk_def chunk_at_length opens_def)
qed

definition reached :: "vault_manifest \<Rightarrow> bytes \<Rightarrow> nat \<Rightarrow> bytes \<Rightarrow> progress" where
  "reached m input i written = \<lparr>pg_position = chunk_start m i, pg_digested = take (chunk_start m i) input, pg_written = written\<rparr>"

lemma chunk_step_reached:
  assumes "i < chunk_count m" "length input = ciphertext_bytes m"
  shows "chunk_step P V m key input i (reached m input i written)
    = rbind (decrypt_chunk P V m key i (chunk_at m input i)) (\<lambda>plain. Inr (reached m input (Suc i) (written @ plain)))"
proof -
  have le: "chunk_start m (Suc i) \<le> length input" using assms chunk_start_le [of "Suc i" m] by simp
  have "take (chunk_start m i) input @ chunk_at m input i = take (chunk_start m (Suc i)) input"
    using slice_split [of 0 "chunk_start m i" "chunk_start m (Suc i)" input] chunk_start_mono [of i "Suc i" m] by (simp add: chunk_at_def)
  moreover have "slice input (chunk_start m i) (chunk_start m i + chunk_size m i + 16) = chunk_at m input i"
    by (simp add: chunk_at_def chunk_start_step)
  ultimately show ?thesis
    using chunk_at_length [OF le] chunk_start_step [of m i] by (simp add: chunk_step_def reached_def)
qed

lemma chunk_loop_reached:
  assumes "i \<le> chunk_count m" "length input = ciphertext_bytes m"
  shows "chunk_loop P V m key input [i..<chunk_count m] (reached m input i written) = (pg, None) \<longleftrightarrow>
    (\<exists>plains. list_all2 (opens P V m key input) [i..<chunk_count m] plains \<and> pg = reached m input (chunk_count m) (written @ concat plains))"
  using assms(1)
proof (induction i arbitrary: written rule: inc_induct)
  case (step i)
  have upt: "[i..<chunk_count m] = i # [Suc i..<chunk_count m]" using step.hyps by (simp add: upt_conv_Cons)
  note s = chunk_step_reached [OF step.hyps(2) assms(2)] and d = decrypt_chunk_opens [OF step.hyps(2) assms(2)]
  show ?case
  proof (cases "decrypt_chunk P V m key i (chunk_at m input i)")
    case (Inl e)
    then have "\<not> opens P V m key input i plain" for plain using d [of P V key plain] by simp
    then show ?thesis using Inl by (auto simp: upt s list_all2_Cons1)
  next
    case (Inr plain)
    then have o: "opens P V m key input i x \<longleftrightarrow> x = plain" for x using d [of P V key x] by auto
    show ?thesis using Inr step.IH [of "written @ plain"] by (auto simp: upt s o list_all2_Cons1)
  qed
qed auto

lemma chunk_loop_published:
  assumes "length input = ciphertext_bytes m"
  shows "chunk_loop P V m key input [0..<chunk_count m] no_progress = (pg, None) \<longleftrightarrow>
    (\<exists>plains. list_all2 (opens P V m key input) [0..<chunk_count m] plains
       \<and> pg = \<lparr>pg_position = length input, pg_digested = input, pg_written = concat plains\<rparr>)"
  using chunk_loop_reached [of 0 m input P V key "[]" pg] assms by (simp add: reached_def no_progress_def)

section \<open>What is published\<close>

lemma decrypt_into_ok:
  assumes "temporary \<noteq> output_path"
  shows "decrypt_into P V fs m input key_path temporary output_path = (fs', Inr ()) \<longleftrightarrow>
    length input = ciphertext_bytes m \<and> fs temporary = None \<and> fs output_path = None
    \<and> hex_of (sha256 P input) = vm_ciphertext_sha256 m
    \<and> (\<exists>pkcs8 key plains. read_small_file fs key_path 16384 = Inr pkcs8 \<and> unwrap P V m pkcs8 = Inr key
        \<and> list_all2 (opens P V m key input) [0..<chunk_count m] plains \<and> fs' = fs(temporary \<mapsto> concat plains, output_path \<mapsto> concat plains))"
  (is "?l \<longleftrightarrow> ?r")
proof (cases "length input = ciphertext_bytes m")
  case True
  note loop = chunk_loop_published [OF True]
  show ?thesis
  proof (cases "rbind (read_small_file fs key_path 16384) (unwrap P V m)")
    case (Inl e)
    then show ?thesis by (auto simp: decrypt_into_def)
  next
    case (Inr key)
    obtain pg failure where l: "chunk_loop P V m key input [0..<chunk_count m] no_progress = (pg, failure)" by fastforce
    have k: "read_small_file fs key_path 16384 = Inr x \<Longrightarrow> unwrap P V m x = Inr y \<Longrightarrow> y = key" for x y using Inr by auto
    have r: "\<exists>x. read_small_file fs key_path 16384 = Inr x \<and> unwrap P V m x = Inr key" using Inr by simp
    show ?thesis
    proof (cases failure)
      case None
      with l loop obtain plains where p: "list_all2 (opens P V m key input) [0..<chunk_count m] plains"
        "pg = \<lparr>pg_position = length input, pg_digested = input, pg_written = concat plains\<rparr>" by blast
      have u: "list_all2 (opens P V m key input) [0..<chunk_count m] x \<Longrightarrow> concat x = concat plains" for x
        using loop [of P V key "\<lparr>pg_position = length input, pg_digested = input, pg_written = concat x\<rparr>"] l p(2) None by auto
      have e: "decrypt_into P V fs m input key_path temporary output_path =
          (if fs temporary \<noteq> None then (fs, Inl File_exists)
           else if hex_of (sha256 P input) \<noteq> vm_ciphertext_sha256 m then (fs(temporary \<mapsto> concat plains), Inl Ciphertext_mismatch)
           else if fs output_path \<noteq> None then (fs(temporary \<mapsto> concat plains), Inl File_exists)
           else (fs(temporary \<mapsto> concat plains, output_path \<mapsto> concat plains), Inr ()))"
        using True assms by (simp add: decrypt_into_def Inr l None p(2))
      show ?thesis
      proof
        assume ?l
        then show ?r using True p(1) r by (auto simp: e split: if_splits)
      next
        assume x: ?r
        then obtain ps where "list_all2 (opens P V m key input) [0..<chunk_count m] ps"
          "fs' = fs(temporary \<mapsto> concat ps, output_path \<mapsto> concat ps)" using k by blast
        then show ?l using x u by (simp add: e)
      qed
    next
      case (Some e)
      have none: "\<not> list_all2 (opens P V m key input) [0..<chunk_count m] plains" for plains
        using loop [of P V key "\<lparr>pg_position = length input, pg_digested = input, pg_written = concat plains\<rparr>"] by (auto simp: l Some)
      have "\<not> ?r" using k none by blast
      moreover have "\<not> ?l" by (simp add: decrypt_into_def Inr l Some Let_def)
      ultimately show ?thesis by blast
    qed
  qed
qed (simp add: decrypt_into_def)

lemma decrypt_into_failed:
  assumes "decrypt_into P V fs m input key_path temporary output_path = (fs', Inl e)"
  shows "fs'(temporary := None) = fs(temporary := None)"
  using assms by (auto simp: decrypt_into_def Let_def split: if_splits sum.splits prod.splits option.splits)

text \<open>C25. Decryption fails closed: whatever goes wrong, at whatever segment, no file has changed when it ends but the temporary
  one, which is gone; nothing it decrypted is left behind.\<close>

theorem vault_fails_closed:
  assumes "decrypt_file P V temporary fs manifest_path input_path key_path output_path = (fs', Inl e)"
  shows "fs' = fs \<or> fs' = fs(temporary := None)"
  using assms by (auto simp: decrypt_file_def dest: decrypt_into_failed split: sum.splits prod.splits)

text \<open>C24. What decryption publishes is authentic and complete: on success there was no file at the output path, the manifest was
  accepted, the key file opened its wrapped key, the digest of the whole ciphertext is the manifest's, every segment
  in order opened under its own nonce and additional data (the last one marked as final), and the one change to the
  file system is the output file, which holds the concatenated plaintexts.\<close>

theorem vault_published:
  assumes "decrypt_file P V temporary fs manifest_path input_path key_path output_path = (fs', Inr ())" "temporary \<noteq> output_path"
  shows "\<exists>bs v m input pkcs8 key plains. read_small_file fs manifest_path 16384 = Inr bs \<and> vp_parse V bs = Some v \<and> manifest v = Some m
    \<and> fs input_path = Some input \<and> length input = ciphertext_bytes m \<and> hex_of (sha256 P input) = vm_ciphertext_sha256 m
    \<and> read_small_file fs key_path 16384 = Inr pkcs8 \<and> unwrap P V m pkcs8 = Inr key
    \<and> list_all2 (opens P V m key input) [0..<chunk_count m] plains
    \<and> fs output_path = None \<and> fs' = fs(output_path \<mapsto> concat plains)"
proof -
  from assms(1) obtain bs v m input fs1 where s: "read_small_file fs manifest_path 16384 = Inr bs" "vp_parse V bs = Some v"
    "manifest v = Some m" "fs input_path = Some input" "decrypt_into P V fs m input key_path temporary output_path = (fs1, Inr ())"
    "fs' = fs1(temporary := None)"
    by (auto simp: decrypt_file_def split: sum.splits prod.splits)
  from s(5) [unfolded decrypt_into_ok [OF assms(2)]] obtain pkcs8 key plains where
    d: "length input = ciphertext_bytes m" "fs temporary = None" "fs output_path = None" "hex_of (sha256 P input) = vm_ciphertext_sha256 m"
    "read_small_file fs key_path 16384 = Inr pkcs8" "unwrap P V m pkcs8 = Inr key"
    "list_all2 (opens P V m key input) [0..<chunk_count m] plains" "fs1 = fs(temporary \<mapsto> concat plains, output_path \<mapsto> concat plains)"
    by blast
  have "fs' = fs(output_path \<mapsto> concat plains)" using s(6) d(2,8) assms(2) by (auto simp: fun_eq_iff)
  then show ?thesis using s d by blast
qed

end
