(* ===== verification/Vault_Seal.thy ===== *)
theory Vault_Seal
  imports Vault
begin

text \<open>
  \<open>tools/src/vault/fixture.ts\<close>: the independent encoder of the vault object, with RFC 9180's labelled key
  schedule written out, and the round trip through the decoder. HMAC, AES-GCM and the curve are the record \<open>sealer\<close>.
\<close>

section \<open>The key schedule\<close>

record sealer =
  se_hmac :: "bytes \<Rightarrow> bytes \<Rightarrow> bytes"
  se_seal :: "bytes \<Rightarrow> bytes \<Rightarrow> bytes \<Rightarrow> bytes \<Rightarrow> bytes"
  se_spki :: bytes
  se_public_point :: bytes
  se_ephemeral :: bytes
  se_secret :: bytes

definition u16 :: "nat \<Rightarrow> bytes" where "u16 n = be_bytes 2 n"

text \<open>\<open>expand\<close>: blocks of 32 bytes, each keyed over the previous one, until there are enough.\<close>

fun expand_blocks :: "sealer \<Rightarrow> bytes \<Rightarrow> bytes \<Rightarrow> nat \<Rightarrow> nat \<Rightarrow> bytes \<Rightarrow> bytes" where
  "expand_blocks S prk ctx 0 index previous = []"
| "expand_blocks S prk ctx (Suc n) index previous = (let
       block = se_hmac S prk (previous @ ctx @ [of_nat index]) in block @ expand_blocks S prk ctx n (index + 1) block)"

definition expand :: "sealer \<Rightarrow> bytes \<Rightarrow> bytes \<Rightarrow> nat \<Rightarrow> bytes" where
  "expand S prk ctx n = take n (expand_blocks S prk ctx ((n + 31) div 32) 1 [])"

definition labeled_extract :: "sealer \<Rightarrow> bytes \<Rightarrow> bytes \<Rightarrow> string \<Rightarrow> bytes \<Rightarrow> bytes" where
  "labeled_extract S suite salt label ikm = se_hmac S salt (ascii ''HPKE-v1'' @ suite @ ascii label @ ikm)"

definition labeled_expand :: "sealer \<Rightarrow> bytes \<Rightarrow> bytes \<Rightarrow> string \<Rightarrow> bytes \<Rightarrow> nat \<Rightarrow> bytes" where
  "labeled_expand S suite prk label ctx n = expand S prk (u16 n @ ascii ''HPKE-v1'' @ suite @ ascii label @ ctx) n"

definition shared_secret :: "sealer \<Rightarrow> bytes" where
  "shared_secret S = (let suite = ascii ''KEM'' @ u16 0x10;
       eae_prk = labeled_extract S suite [] ''eae_prk'' (se_secret S)
     in labeled_expand S suite eae_prk ''shared_secret'' (se_ephemeral S @ se_public_point S) 32)"

text \<open>The key and the base nonce of HPKE's base mode for an \<open>info\<close>.\<close>

definition hpke_schedule :: "sealer \<Rightarrow> bytes \<Rightarrow> bytes \<times> bytes" where
  "hpke_schedule S ctx = (let suite = ascii ''HPKE'' @ u16 0x10 @ u16 1 @ u16 2;
       schedule = [0] @ labeled_extract S suite [] ''psk_id_hash'' [] @ labeled_extract S suite [] ''info_hash'' ctx;
       secret = labeled_extract S suite (shared_secret S) ''secret'' []
     in (labeled_expand S suite secret ''key'' schedule 32, labeled_expand S suite secret ''base_nonce'' schedule 12))"

section \<open>The encoder\<close>

definition dek :: bytes where "dek = replicate 32 0x40"

text \<open>The manifest before its wrapped key and digest are known.\<close>

definition fixture_manifest :: "platform \<Rightarrow> sealer \<Rightarrow> nat \<Rightarrow> vault_manifest" where
  "fixture_manifest P S n = \<lparr>vm_object_id = js (concat (replicate 16 ''10'')), vm_capture_id = b64url_encode (replicate 16 0x20),
     vm_org_key_id = hex_of (sha256 P (se_spki S)), vm_nonce_prefix = b64url_encode (replicate 8 0x30),
     vm_plaintext_bytes = n, vm_enc = b64url_encode (se_ephemeral S), vm_wrapped = [], vm_ciphertext_sha256 = []\<rparr>"

definition fixture_header :: "platform \<Rightarrow> sealer \<Rightarrow> nat \<Rightarrow> bytes option" where
  "fixture_header P S n = concat_parts [Some (ascii ''vcap/1.0/vault/header'' @ [0]), Some (from_hex (concat (replicate 16 ''10''))),
     Some (replicate 16 0x20), Some (sha256 P (se_spki S)), Some (replicate 8 0x30), u64 n, u32 CHUNK_BYTES]"

definition fixture_segment :: "sealer \<Rightarrow> bytes \<Rightarrow> bool \<Rightarrow> nat \<Rightarrow> bytes \<Rightarrow> nat \<Rightarrow> bytes option" where
  "fixture_segment S header_hash mark_final segments plaintext index = do {
     i \<leftarrow> u32 index;
     Some (se_seal S dek (replicate 8 0x30 @ i)
       (ascii ''vcap/1.0/vault/chunk'' @ [0] @ header_hash @ i @ [if mark_final \<and> index = segments - 1 then 1 else 0])
       (slice plaintext (index * CHUNK_BYTES) ((index + 1) * CHUNK_BYTES)))
   }"

definition fixture :: "platform \<Rightarrow> sealer \<Rightarrow> bytes \<Rightarrow> bool \<Rightarrow> (vault_manifest \<times> bytes) option" where
  "fixture P S plaintext mark_final = do {
     header \<leftarrow> fixture_header P S (length plaintext);
     let header_hash = sha256 P header;
     let (key, base_nonce) = hpke_schedule S (ascii ''vcap/1.0/vault'' @ [0] @ header_hash);
     let segments = max 1 ((length plaintext + CHUNK_BYTES - 1) div CHUNK_BYTES);
     parts \<leftarrow> omap (fixture_segment S header_hash mark_final segments plaintext) [0..<segments];
     Some ((fixture_manifest P S (length plaintext))\<lparr>vm_wrapped := b64url_encode (se_seal S key base_nonce header dek),
             vm_ciphertext_sha256 := hex_of (sha256 P (concat parts))\<rparr>, concat parts)
   }"

text \<open>The manifest as the object that \<open>JSON.stringify\<close> writes.\<close>

definition manifest_json :: "vault_manifest \<Rightarrow> json" where
  "manifest_json m = JObj [(js ''version'', JStr (js VERSION)), (js ''object_id'', JStr (vm_object_id m)),
     (js ''capture_id'', JStr (vm_capture_id m)), (js ''org_key_id'', JStr (vm_org_key_id m)),
     (js ''nonce_prefix'', JStr (vm_nonce_prefix m)), (js ''plaintext_bytes'', JNum (NInt (int (vm_plaintext_bytes m)))),
     (js ''chunk_bytes'', JNum (NInt (int CHUNK_BYTES))),
     (js ''wrapped_key'', JObj [(js ''enc'', JStr (vm_enc m)), (js ''ciphertext'', JStr (vm_wrapped m))]),
     (js ''ciphertext_sha256'', JStr (vm_ciphertext_sha256 m))]"

section \<open>What the decoder reads back\<close>

lemma base64url_encode [simp]: "length bs = n \<Longrightarrow> base64url (Some (JStr (b64url_encode bs))) n = Some bs"
  using b64url_encode_units [of bs] by (simp add: base64url_def str_of_def b64_decode_encode list_all_iff del: b64url_encode.simps)

lemma hex_char_code: "d < 16 \<Longrightarrow> of_char (hex_char d) = (if d < 10 then 48 + d else 87 + d :: nat)"
  by (simp add: hex_char_def)

lemma byte_nibble: "unat (b :: byte) div 16 < 16"
proof -
  have "unat b < 16 * 16" using unat_byte_less [of b] by simp
  then show ?thesis by (rule less_mult_imp_div_less)
qed

lemma hex_units: "\<forall>u \<in> set (hex_of bs). 48 \<le> unat u \<and> unat u \<le> 57 \<or> 97 \<le> unat u \<and> unat u \<le> 102"
proof -
  have "48 \<le> n \<and> n \<le> 57 \<or> 97 \<le> n \<and> n \<le> 102" if "n = (of_char (hex_char d) :: nat)" "d < 16" for n d
    using hex_char_code [OF that(2)] that by auto
  then show ?thesis using byte_nibble by (auto simp: hex_of_def js_def)
qed

lemma length_hex_of [simp]: "length (hex_of bs) = 2 * length bs"
  by (induction bs) (simp_all add: hex_of_def)

lemma hex_bytes_hex_of [simp]: "hex_bytes (hex_of bs) = bs"
proof -
  have c: "(if unat (of_char c :: 16 word) < 128 then char_of (unat (of_char c :: 16 word)) else CHR ''-'') = c"
    if "c = hex_char d" "d < 16" for c d
    using hex_char_code [OF that(2)] that by (simp add: hex_char_def)
  show ?thesis
  proof (induction bs)
    case (Cons b bs)
    have d: "unat b div 16 < 16" "unat b mod 16 < 16" using byte_nibble [of b] by simp_all
    have "of_nat (16 * (unat b div 16) + unat b mod 16) = b" by simp
    then show ?case
      using Cons c [OF refl d(1)] c [OF refl d(2)] d by (simp add: hex_bytes_def hex_of_def js_def)
  qed (simp add: hex_bytes_def hex_of_def js_def)
qed

lemma lower_hex_hex_of [simp]: "2 * length bs = n \<Longrightarrow> lower_hex n (Some (JStr (hex_of bs))) = Some (hex_of bs)"
  using hex_units [of bs] by (simp add: lower_hex_def str_of_def list_all_iff Let_def)

lemma object_id_hex: "js (concat (replicate 16 ''10'')) = hex_of (replicate 16 0x10)"
  by code_simp

lemma from_hex_object_id: "from_hex (concat (replicate 16 ''10'')) = replicate 16 0x10"
  by code_simp

text \<open>A manifest the decoder accepts.\<close>

definition manifest_ok :: "vault_manifest \<Rightarrow> bool" where
  "manifest_ok m \<longleftrightarrow> vm_plaintext_bytes m \<le> MAX_BYTES
     \<and> lower_hex 32 (Some (JStr (vm_object_id m))) = Some (vm_object_id m)
     \<and> lower_hex 64 (Some (JStr (vm_org_key_id m))) = Some (vm_org_key_id m)
     \<and> lower_hex 64 (Some (JStr (vm_ciphertext_sha256 m))) = Some (vm_ciphertext_sha256 m)
     \<and> base64url (Some (JStr (vm_capture_id m))) 16 \<noteq> None \<and> base64url (Some (JStr (vm_nonce_prefix m))) 8 \<noteq> None
     \<and> (\<exists>enc. base64url (Some (JStr (vm_enc m))) 65 = Some enc \<and> hd enc = 4) \<and> base64url (Some (JStr (vm_wrapped m))) 48 \<noteq> None"

lemma manifest_of_json: "manifest_ok m \<Longrightarrow> manifest (manifest_json m) = Some m"
proof -
  assume m: "manifest_ok m"
  have k: "keys_exactly (manifest_json m) MANIFEST_KEYS"
    "keys_exactly (JObj [(js ''enc'', JStr (vm_enc m)), (js ''ciphertext'', JStr (vm_wrapped m))]) [''enc'', ''ciphertext'']"
    by (simp_all add: manifest_json_def MANIFEST_KEYS_def)
  have v: "member (manifest_json m) ''version'' = Some (JStr (js VERSION))"
    "member (manifest_json m) ''object_id'' = Some (JStr (vm_object_id m))"
    "member (manifest_json m) ''capture_id'' = Some (JStr (vm_capture_id m))"
    "member (manifest_json m) ''org_key_id'' = Some (JStr (vm_org_key_id m))"
    "member (manifest_json m) ''nonce_prefix'' = Some (JStr (vm_nonce_prefix m))"
    "member (manifest_json m) ''plaintext_bytes'' = Some (JNum (NInt (int (vm_plaintext_bytes m))))"
    "member (manifest_json m) ''chunk_bytes'' = Some (JNum (NInt (int CHUNK_BYTES)))"
    "member (manifest_json m) ''wrapped_key'' = Some (JObj [(js ''enc'', JStr (vm_enc m)), (js ''ciphertext'', JStr (vm_wrapped m))])"
    "member (manifest_json m) ''ciphertext_sha256'' = Some (JStr (vm_ciphertext_sha256 m))"
    by (simp_all add: manifest_json_def)
  have t: "text_of (Some (JStr s)) = s" for s by (simp add: text_of_def str_of_def)
  have i: "int_of (Some (JNum (NInt i))) = Some i" for i by (simp add: int_of_def)
  have safe: "safe_int (int (vm_plaintext_bytes m))" "\<not> int MAX_BYTES < int (vm_plaintext_bytes m)"
    using m by (simp_all add: manifest_ok_def safe_int_def max_safe_def MAX_BYTES_def)
  show ?thesis using m safe
    by (auto simp: manifest_def k v t i manifest_ok_def)
qed

section \<open>Sealing\<close>

lemma fixture_header_eq:
  assumes "hash_ok P"
  shows "vault_header ((fixture_manifest P S n)\<lparr>vm_wrapped := w, vm_ciphertext_sha256 := d\<rparr>) = fixture_header P S n"
  using assms
  by (simp add: vault_header_def fixture_header_def fixture_manifest_def object_id_hex from_hex_object_id del: b64url_encode.simps replicate.simps replicate_Suc)

lemma u64_Some: "n \<le> MAX_BYTES \<Longrightarrow> \<exists>b. u64 n = Some b"
  by (simp add: u64_def MAX_BYTES_def)

lemma u32_Some: "n < 4294967296 \<Longrightarrow> \<exists>b. u32 n = Some b"
  by (simp add: u32_def)

lemma few_chunks: "n \<le> MAX_BYTES \<Longrightarrow> (n + CHUNK_BYTES - 1) div CHUNK_BYTES \<le> 477"
proof -
  assume "n \<le> MAX_BYTES"
  then have "n + CHUNK_BYTES - 1 < 478 * CHUNK_BYTES" by (simp add: MAX_BYTES_def CHUNK_BYTES_def)
  then have "(n + CHUNK_BYTES - 1) div CHUNK_BYTES < 478" by (rule less_mult_imp_div_less)
  then show ?thesis by simp
qed

text \<open>Segments whose lengths are those of the manifest are found back where they start.\<close>

lemma parts_start:
  assumes "\<And>j. j < length parts \<Longrightarrow> length (parts ! j) = chunk_size m j + 16" "i \<le> length parts"
  shows "length (concat (take i parts)) = chunk_start m i"
  using assms(2)
proof (induction i)
  case (Suc i)
  then show ?case using assms(1) [of i] chunk_start_step [of m i] by (simp add: take_Suc_conv_app_nth)
qed simp

lemma chunk_at_parts:
  assumes "\<And>j. j < length parts \<Longrightarrow> length (parts ! j) = chunk_size m j + 16" "i < length parts"
  shows "chunk_at m (concat parts) i = parts ! i"
proof -
  have split: "concat parts = concat (take i parts) @ parts ! i @ concat (drop (Suc i) parts)"
    using assms(2) by (metis append_take_drop_id concat.simps(2) concat_append Cons_nth_drop_Suc)
  have "length (concat (take i parts)) = chunk_start m i" by (rule parts_start) (use assms in auto)
  moreover have "chunk_start m (Suc i) - chunk_start m i = length (parts ! i)"
    using assms chunk_start_step [of m i] by simp
  ultimately show ?thesis by (simp add: chunk_at_def slice_def split)
qed

lemma concat_slices: "concat (map (\<lambda>i. slice xs (i * c) ((i + 1) * c)) [0..<k]) = take (k * c) xs"
proof (induction k)
  case (Suc k)
  then show ?case using slice_split [of 0 "k * c" "(k + 1) * c" xs] by simp
qed simp

section \<open>The round trip\<close>

text \<open>
  What the two sides use of cryptography: AES-GCM opens what it sealed and adds a tag of 16 bytes, and the
  recipient's HPKE context is the one of the labelled schedule (RFC 9180, base mode).
\<close>

definition crypto_agrees :: "sealer \<Rightarrow> vault_platform \<Rightarrow> private_key \<Rightarrow> bool" where
  "crypto_agrees S V key \<longleftrightarrow> pk_type key = ''ec'' \<and> pk_curve key = Some ''prime256v1'' \<and> pk_spki key = se_spki S
     \<and> length (se_ephemeral S) = 65 \<and> hd (se_ephemeral S) = 4
     \<and> (\<forall>k iv a p. length (se_seal S k iv a p) = length p + 16 \<and> vp_gcm_open V k iv a (se_seal S k iv a p) = Some p)
     \<and> (\<forall>c w a. vp_hpke_open V key (se_ephemeral S) c w a = vp_gcm_open V (fst (hpke_schedule S c)) (snd (hpke_schedule S c)) a w)"

lemma fixture_Some:
  assumes "length plaintext \<le> MAX_BYTES"
  defines "segments \<equiv> max 1 ((length plaintext + CHUNK_BYTES - 1) div CHUNK_BYTES)"
  obtains header parts where "fixture_header P S (length plaintext) = Some header"
    "list_all2 (\<lambda>i c. fixture_segment S (sha256 P header) True segments plaintext i = Some c) [0..<segments] parts"
    "fixture P S plaintext True = Some ((fixture_manifest P S (length plaintext))
       \<lparr>vm_wrapped := b64url_encode (se_seal S (fst (hpke_schedule S (ascii ''vcap/1.0/vault'' @ [0] @ sha256 P header)))
            (snd (hpke_schedule S (ascii ''vcap/1.0/vault'' @ [0] @ sha256 P header))) header dek),
        vm_ciphertext_sha256 := hex_of (sha256 P (concat parts))\<rparr>, concat parts)"
proof -
  obtain a b where "u64 (length plaintext) = Some a" "u32 CHUNK_BYTES = Some b"
    using u64_Some [OF assms(1)] u32_Some [of CHUNK_BYTES] by (auto simp: CHUNK_BYTES_def)
  then obtain h where h: "fixture_header P S (length plaintext) = Some h" by (simp add: fixture_header_def concat_parts_def)
  have "\<exists>b. u32 i = Some b" if "i < segments" for i
    using few_chunks [OF assms(1)] that by (intro u32_Some) (auto simp: segments_def)
  then have "\<exists>c. fixture_segment S (sha256 P h) True segments plaintext i = Some c" if "i < segments" for i
    using that by (fastforce simp: fixture_segment_def)
  then obtain f where f: "\<And>i. i < segments \<Longrightarrow> fixture_segment S (sha256 P h) True segments plaintext i = Some (f i)" by metis
  have o: "omap (fixture_segment S (sha256 P h) True segments plaintext) [0..<segments] = Some (map f [0..<segments])"
    by (rule omap_total) (simp add: f)
  have "list_all2 (\<lambda>i c. fixture_segment S (sha256 P h) True segments plaintext i = Some c) [0..<segments] (map f [0..<segments])"
    using f by (simp add: list_all2_conv_all_nth)
  then show thesis
    by (rule that [OF h]) (use o in \<open>simp add: fixture_def h segments_def Let_def split: prod.splits\<close>)
qed

lemma fixture_size [simp]: "vm_plaintext_bytes (fixture_manifest P S n) = n"
  by (simp add: fixture_manifest_def)

lemma fixture_segment_Some:
  "fixture_segment S header_hash True segments plaintext i = Some c \<longleftrightarrow> (\<exists>b. u32 i = Some b
     \<and> c = se_seal S dek (replicate 8 0x30 @ b) (ascii ''vcap/1.0/vault/chunk'' @ [0] @ header_hash @ b @ [if i = segments - 1 then 1 else 0])
         (slice plaintext (i * CHUNK_BYTES) ((i + 1) * CHUNK_BYTES)))"
  by (auto simp: fixture_segment_def bind_eq_Some_conv)

lemma vault_opens_sealed:
  assumes P: "hash_ok P" and C: "crypto_agrees S V key" and n: "length plaintext \<le> MAX_BYTES"
  obtains m ciphertext plains where "fixture P S plaintext True = Some (m, ciphertext)" "manifest_ok m"
    "length ciphertext = ciphertext_bytes m" "hex_of (sha256 P ciphertext) = vm_ciphertext_sha256 m"
    "vp_private_key V (take 11 pkcs8 = ascii ''-----BEGIN '') pkcs8 = Some key \<Longrightarrow> unwrap P V m pkcs8 = Inr dek"
    "list_all2 (opens P V m dek ciphertext) [0..<chunk_count m] plains" "concat plains = plaintext"
proof -
  let ?n = "length plaintext"
  define segs where "segs = max 1 ((?n + CHUNK_BYTES - 1) div CHUNK_BYTES)"
  show thesis
  proof (rule fixture_Some [OF n, of P S, folded segs_def])
    fix header parts
    let ?ctx = "ascii ''vcap/1.0/vault'' @ [0] @ sha256 P header"
    let ?w = "se_seal S (fst (hpke_schedule S ?ctx)) (snd (hpke_schedule S ?ctx)) header dek"
    define m where "m = (fixture_manifest P S ?n)\<lparr>vm_wrapped := b64url_encode ?w, vm_ciphertext_sha256 := hex_of (sha256 P (concat parts))\<rparr>"
    let ?plain = "\<lambda>i. slice plaintext (i * CHUNK_BYTES) ((i + 1) * CHUNK_BYTES)"
    assume h: "fixture_header P S ?n = Some header"
      and parts: "list_all2 (\<lambda>i c. fixture_segment S (sha256 P header) True segs plaintext i = Some c) [0..<segs] parts"
      and "fixture P S plaintext True = Some ((fixture_manifest P S ?n)
        \<lparr>vm_wrapped := b64url_encode ?w, vm_ciphertext_sha256 := hex_of (sha256 P (concat parts))\<rparr>, concat parts)"
    then have fx: "fixture P S plaintext True = Some (m, concat parts)" by (simp only: m_def)
    note c = C [unfolded crypto_agrees_def]
    have hash: "length (sha256 P x) = 32" for x using P by (simp add: hash_ok_def)
    have count: "chunk_count m = segs" by (simp add: chunk_count_def m_def segs_def)
    have head: "vault_header m = Some header" using h fixture_header_eq [OF P] by (simp add: m_def)
    have wrapped: "length ?w = 48" using c by (simp add: dek_def)
    have sizes: "vm_plaintext_bytes m = ?n" by (simp add: m_def)
    have len: "length parts = segs" using parts by (simp add: list_all2_lengthD [symmetric])
    have seg: "\<exists>b. u32 i = Some b \<and> parts ! i = se_seal S dek (replicate 8 0x30 @ b)
        (ascii ''vcap/1.0/vault/chunk'' @ [0] @ sha256 P header @ b @ [if i = segs - 1 then 1 else 0]) (?plain i)" if "i < segs" for i
    proof -
      have "fixture_segment S (sha256 P header) True segs plaintext i = Some (parts ! i)"
        using list_all2_nthD [OF parts, of i] that by simp
      then show ?thesis by (simp only: fixture_segment_Some)
    qed
    have plain_length: "length (?plain i) = chunk_size m i" for i by (simp add: length_slice chunk_size_def sizes algebra_simps)
    have lengths: "length (parts ! i) = chunk_size m i + 16" if "i < length parts" for i
      using seg [of i] that c plain_length [of i] len by auto
    have total: "length (concat parts) = ciphertext_bytes m"
      using parts_start [of parts m "length parts", OF lengths] chunk_start_simps(2) [of m] by (simp add: count len)
    have opened: "opens P V m dek (concat parts) i (?plain i)" if i: "i < segs" for i
    proof -
      obtain b where b: "u32 i = Some b" "parts ! i = se_seal S dek (replicate 8 0x30 @ b)
        (ascii ''vcap/1.0/vault/chunk'' @ [0] @ sha256 P header @ b @ [if i = segs - 1 then 1 else 0]) (?plain i)"
        using seg [OF i] by blast
      have "nonce m i = Some (replicate 8 0x30 @ b)"
        using b(1) by (simp add: nonce_def concat_parts_def m_def fixture_manifest_def del: b64url_encode.simps replicate.simps replicate_Suc)
      moreover have "aad P m i = Some (ascii ''vcap/1.0/vault/chunk'' @ [0] @ sha256 P header @ b @ [if i = segs - 1 then 1 else 0])"
        using b(1) by (simp add: aad_def concat_parts_def head count)
      moreover have "chunk_at m (concat parts) i = parts ! i"
        by (rule chunk_at_parts) (use lengths i len in auto)
      ultimately show ?thesis using b(2) c by (simp add: opens_def)
    qed
    have ok: "manifest_ok m"
      using n c wrapped hash
      by (auto simp: manifest_ok_def m_def fixture_manifest_def object_id_hex simp del: b64url_encode.simps replicate.simps replicate_Suc)
    have "unwrap P V m pkcs8 = Inr dek" if "vp_private_key V (take 11 pkcs8 = ascii ''-----BEGIN '') pkcs8 = Some key"
    proof -
      have i: "info P m = Some ?ctx" by (simp add: info_def concat_parts_def head)
      have e: "base64url (Some (JStr (vm_enc m))) 65 = Some (se_ephemeral S)" "base64url (Some (JStr (vm_wrapped m))) 48 = Some ?w"
        using c wrapped by (simp_all add: m_def fixture_manifest_def del: b64url_encode.simps)
      have k: "vm_org_key_id m = hex_of (sha256 P (se_spki S))" by (simp add: m_def fixture_manifest_def)
      show ?thesis using c by (simp add: unwrap_def that i e k head) (simp add: dek_def)
    qed
    moreover have "list_all2 (opens P V m dek (concat parts)) [0..<chunk_count m] (map ?plain [0..<segs])"
      using opened count by (simp add: list_all2_conv_all_nth)
    moreover have "concat (map ?plain [0..<segs]) = plaintext"
      unfolding concat_slices using chunk_count_covers [of m] count sizes by simp
    ultimately show thesis using fx ok total by (intro that) (auto simp: m_def)
  qed
qed

lemma vault_recovers:
  assumes "hash_ok P" "crypto_agrees S V key" "length plaintext \<le> MAX_BYTES" "temporary \<noteq> output_path"
    and "length pkcs8 \<le> 16384" "vp_private_key V (take 11 pkcs8 = ascii ''-----BEGIN '') pkcs8 = Some key"
  shows "\<exists>m ciphertext. fixture P S plaintext True = Some (m, ciphertext)
    \<and> (\<forall>fs bs. fs manifest_path = Some bs \<and> length bs \<le> 16384 \<and> vp_parse V bs = Some (manifest_json m) \<and> fs input_path = Some ciphertext
         \<and> fs key_path = Some pkcs8 \<and> fs temporary = None \<and> fs output_path = None
       \<longrightarrow> decrypt_file P V temporary fs manifest_path input_path key_path output_path = (fs(output_path \<mapsto> plaintext), Inr ()))"
proof (rule vault_opens_sealed [OF assms(1-3), of pkcs8])
  fix m ciphertext plains
  assume m: "fixture P S plaintext True = Some (m, ciphertext)" "manifest_ok m" "length ciphertext = ciphertext_bytes m"
      "hex_of (sha256 P ciphertext) = vm_ciphertext_sha256 m"
    and u: "vp_private_key V (take 11 pkcs8 = ascii ''-----BEGIN '') pkcs8 = Some key \<Longrightarrow> unwrap P V m pkcs8 = Inr dek"
    and l: "list_all2 (opens P V m dek ciphertext) [0..<chunk_count m] plains" "concat plains = plaintext"
  have "decrypt_file P V temporary fs manifest_path input_path key_path output_path = (fs(output_path \<mapsto> plaintext), Inr ())"
    if f: "fs manifest_path = Some bs" "length bs \<le> 16384" "vp_parse V bs = Some (manifest_json m)" "fs input_path = Some ciphertext"
      "fs key_path = Some pkcs8" "fs temporary = None" "fs output_path = None" for fs bs
  proof -
    have r: "read_small_file fs key_path 16384 = Inr pkcs8" "read_small_file fs manifest_path 16384 = Inr bs"
      using f assms(5) by (simp_all add: read_small_file_def)
    have "decrypt_into P V fs m ciphertext key_path temporary output_path = (fs(temporary \<mapsto> plaintext, output_path \<mapsto> plaintext), Inr ())"
      using m(3,4) f(6,7) r(1) u [OF assms(6)] l by (subst decrypt_into_ok [OF assms(4)]) blast
    moreover have "(fs(temporary \<mapsto> plaintext, output_path \<mapsto> plaintext))(temporary := None) = fs(output_path \<mapsto> plaintext)"
      using f(6) assms(4) by (auto simp: fun_eq_iff)
    ultimately show ?thesis by (simp add: decrypt_file_def r f manifest_of_json [OF m(2)])
  qed
  with m(1) show ?thesis by blast
qed

text \<open>C23. What the independent encoder seals, the decoder recovers: for every plaintext up to the size limit (the empty one and
  exact multiples of the segment size included) the encoder returns a manifest and a ciphertext, and with them, the
  organization's key and a free output path the decoder succeeds and leaves exactly the plaintext there, given that
  AES-GCM opens what it seals and HPKE's key schedule is the labelled one.\<close>

theorem vault_roundtrip:
  assumes "hash_ok P" "crypto_agrees S V key" "length plaintext \<le> MAX_BYTES" "temporary \<noteq> output_path"
    and "length pkcs8 \<le> 16384" "vp_private_key V (take 11 pkcs8 = ascii ''-----BEGIN '') pkcs8 = Some key"
  shows "\<exists>m ciphertext. fixture P S plaintext True = Some (m, ciphertext)
    \<and> (\<forall>fs bs. fs manifest_path = Some bs \<and> length bs \<le> 16384 \<and> vp_parse V bs = Some (manifest_json m) \<and> fs input_path = Some ciphertext
         \<and> fs key_path = Some pkcs8 \<and> fs temporary = None \<and> fs output_path = None
       \<longrightarrow> decrypt_file P V temporary fs manifest_path input_path key_path output_path = (fs(output_path \<mapsto> plaintext), Inr ()))"
  using assms by (rule vault_recovers)

section \<open>A sealed object\<close>

definition toy_sealer :: sealer where
  "toy_sealer = \<lparr>se_hmac = (\<lambda>k x. replicate 32 0), se_seal = (\<lambda>k iv a p. p @ replicate 16 0), se_spki = [1], se_public_point = [],
     se_ephemeral = 4 # replicate 64 0, se_secret = []\<rparr>"

definition toy_key :: private_key where
  "toy_key = \<lparr>pk_type = ''ec'', pk_curve = Some ''prime256v1'', pk_spki = [1], pk_pkcs8 = [2]\<rparr>"

definition toy_vault :: "vault_manifest \<Rightarrow> vault_platform" where
  "toy_vault m = \<lparr>vp_parse = (\<lambda>bs. Some (manifest_json m)), vp_private_key = (\<lambda>pem bs. Some toy_key),
     vp_hpke_open = (\<lambda>key enc c w a. Some (take (length w - 16) w)), vp_gcm_open = (\<lambda>k iv a c. Some (take (length c - 16) c))\<rparr>"

definition toy_files :: "bytes \<Rightarrow> files" where
  "toy_files ciphertext = [''m'' \<mapsto> [], ''c'' \<mapsto> ciphertext, ''k'' \<mapsto> [2]]"

lemma toy_agrees: "crypto_agrees toy_sealer (toy_vault m) toy_key"
  by (simp add: crypto_agrees_def toy_sealer_def toy_vault_def toy_key_def)

lemma toy_decrypts:
  "\<exists>m c. fixture tail_platform toy_sealer [1, 2, 3] True = Some (m, c) \<and>
     decrypt_file tail_platform (toy_vault m) ''t'' (toy_files c) ''m'' ''c'' ''k'' ''o'' = ((toy_files c)(''o'' \<mapsto> [1, 2, 3]), Inr ())"
proof -
  have small: "length [1, 2, 3 :: byte] \<le> MAX_BYTES" by (simp add: MAX_BYTES_def)
  note r = vault_recovers [OF tail_platform_hash toy_agrees small, of "''t''" "''o''" "[2]" _ "''m''" "''c''" "''k''"]
  obtain m c where m: "fixture tail_platform toy_sealer [1, 2, 3] True = Some (m, c)"
    using vault_opens_sealed [OF tail_platform_hash toy_agrees small, of undefined "[2]"] by metis
  then show ?thesis using r [of m] by (simp add: toy_vault_def toy_files_def)
qed

theorem vault_roundtrip_witness:
  "\<exists>m c. fixture tail_platform toy_sealer [7] True = Some (m, c) \<and>
     decrypt_file tail_platform (toy_vault m) ''t'' (toy_files c) ''m'' ''c'' ''k'' ''o'' = ((toy_files c)(''o'' \<mapsto> [7]), Inr ())"
proof -
  have small: "length [7 :: byte] \<le> MAX_BYTES" by (simp add: MAX_BYTES_def)
  note r = vault_roundtrip [OF tail_platform_hash toy_agrees small, of "''t''" "''o''" "[2]" _ "''m''" "''c''" "''k''"]
  obtain m c where m: "fixture tail_platform toy_sealer [7] True = Some (m, c)"
    using vault_opens_sealed [OF tail_platform_hash toy_agrees small, of undefined "[2]"] by metis
  then show ?thesis using r [of m] by (simp add: toy_vault_def toy_files_def)
qed

theorem vault_published_witness:
  "\<exists>m c m' key plains. fixture tail_platform toy_sealer [1, 2, 3] True = Some (m, c) \<and> manifest (manifest_json m) = Some m'
     \<and> list_all2 (opens tail_platform (toy_vault m) m' key c) [0..<chunk_count m'] plains \<and> concat plains = [1, 2, 3]"
proof -
  obtain m c where d: "fixture tail_platform toy_sealer [1, 2, 3] True = Some (m, c)"
    "decrypt_file tail_platform (toy_vault m) ''t'' (toy_files c) ''m'' ''c'' ''k'' ''o'' = ((toy_files c)(''o'' \<mapsto> [1, 2, 3]), Inr ())"
    using toy_decrypts by blast
  have f: "vp_parse (toy_vault m) x = Some v \<longleftrightarrow> v = manifest_json m" "toy_files c ''c'' = Some c" for x v
    by (auto simp: toy_vault_def toy_files_def)
  from vault_published [OF d(2)] obtain m' key plains where p: "manifest (manifest_json m) = Some m'"
    "list_all2 (opens tail_platform (toy_vault m) m' key c) [0..<chunk_count m'] plains"
    "(toy_files c)(''o'' \<mapsto> [1, 2, 3]) = (toy_files c)(''o'' \<mapsto> concat plains)"
    by (auto simp: f)
  have "concat plains = [1, 2, 3]" using fun_cong [OF p(3), of "''o''"] by simp
  with d(1) p(1,2) show ?thesis by blast
qed

theorem vault_fails_closed_witness:
  "\<exists>fs'. decrypt_file tail_platform (toy_vault undefined) ''t'' [''m'' \<mapsto> replicate 20000 0] ''m'' ''c'' ''k'' ''o'' = (fs', Inl Input_too_large)
     \<and> (fs' = [''m'' \<mapsto> replicate 20000 0] \<or> fs' = [''m'' \<mapsto> replicate 20000 0](''t'' := None))"
proof -
  have d: "decrypt_file tail_platform (toy_vault undefined) ''t'' [''m'' \<mapsto> replicate 20000 0] ''m'' ''c'' ''k'' ''o''
    = ([''m'' \<mapsto> replicate 20000 0], Inl Input_too_large)"
    by (simp add: decrypt_file_def read_small_file_def)
  show ?thesis using vault_fails_closed [OF d] d by blast
qed

end
