(* ===== verification/Writer.thy ===== *)
theory Writer
  imports Verdicts
begin

text \<open>
  The writer of \<open>tools/src/generate.ts\<close> (\<open>photoCore\<close>, \<open>sign\<close>, \<open>flagsFor\<close>, \<open>seal\<close>) and the two sides together: a
  photo sealed with it is authentic for the verifier. The private key and \<open>signEs256\<close> (a third-party curve)
  are the record \<open>signing_key\<close>.
\<close>

section \<open>The writer\<close>

record signing_key =
  sk_spki :: bytes
  sk_sign :: "bytes \<Rightarrow> bytes"

type_synonym members = "(jsstr \<times> json) list"

text \<open>\<open>{ ...base, ...extra }\<close>: a member of \<open>extra\<close> takes the place of its namesake or goes to the end.\<close>

definition spread :: "members \<Rightarrow> members \<Rightarrow> members" where
  "spread base extra = map (\<lambda>(k, v). (k, case map_of extra k of Some x \<Rightarrow> x | None \<Rightarrow> v)) base
     @ filter (\<lambda>m. fst m \<notin> fst ` set base) extra"

definition CAPTURE_ID :: bytes where "CAPTURE_ID = from_hex ''00112233445566778899aabbccddeeff''"

definition photo_core :: "platform \<Rightarrow> signing_key \<Rightarrow> bytes \<Rightarrow> jsstr \<Rightarrow> members \<Rightarrow> members option" where
  "photo_core P sk media mime extra = (case media_hash P media of None \<Rightarrow> None
     | Some h \<Rightarrow> Some (spread
         [(js ''v'', JStr (js ''vcap/1.0'')),
          (js ''capture_id'', JStr (b64url_encode CAPTURE_ID)),
          (js ''media'', JObj [(js ''mime'', JStr mime), (js ''w'', JNum (NInt 16)), (js ''h'', JNum (NInt 16)), (js ''hash'', JStr h)]),
          (js ''device'', JObj [(js ''platform'', JStr (js ''android'')), (js ''secure_hw'', JStr (js ''tee'')),
             (js ''key_id'', JStr (key_id P (sk_spki sk)))]),
          (js ''watermark'', JObj [(js ''algo'', JStr (js ''videoseal'')), (js ''layout'', JStr (js ''photo-bch-v3'')),
             (js ''payload_bits'', JNum (NInt 128)), (js ''ecc'', JStr (js ''bch-255-131'')), (js ''strength'', JNum (NInt 8))]),
          (js ''time'', JObj [(js ''device_clock'', JNum (NInt 1757332800000))]),
          (js ''location'', JObj [(js ''level'', JStr (js ''declared'')), (js ''lat_udeg'', JNum (NInt 45464664)),
             (js ''lon_udeg'', JNum (NInt 9188540)), (js ''acc_cm'', JNum (NInt 1250)), (js ''evidence'', JArr [])]),
          (js ''policy'', JObj [(js ''pseudonymous'', JBool False)])] extra))"

definition sign_proof :: "signing_key \<Rightarrow> members \<Rightarrow> (bytes \<Rightarrow> bytes) \<Rightarrow> members option" where
  "sign_proof sk proof mutate = (case core_bytes (JObj proof) of None \<Rightarrow> None
     | Some bs \<Rightarrow> Some (spread proof [(js ''sig'', JObj [(js ''alg'', JStr (js ''ES256'')),
         (js ''value'', JStr (b64url_encode (mutate (sk_sign sk bs)))), (js ''pub'', JStr (b64url_encode (sk_spki sk)))])]))"

definition flags_for :: "json \<Rightarrow> nat" where
  "flags_for proof = (if carries proof ''segments'' then flag_segments else 0) + (if pseudonymous proof then flag_pseudonymous else 0)"

record seal_options =
  so_payload :: "bytes option"
  so_flags :: "int option"
  so_crc :: "int option"

definition seal :: "bytes \<Rightarrow> json \<Rightarrow> seal_options \<Rightarrow> bytes option" where
  "seal media proof opts = do {
     payload \<leftarrow> (case so_payload opts of Some p \<Rightarrow> Some p | None \<Rightarrow> jcs proof);
     trailer \<leftarrow> build_trailer payload (no_options\<lparr>opt_flags := Some (or_else (so_flags opts) (int (flags_for proof))), opt_crc := so_crc opts\<rparr>);
     Some (media @ trailer)
   }"

definition PHOTO_LABELS :: "string list" where
  "PHOTO_LABELS = [''integrity unevaluated'', ''key not in transparency log'', ''location declared only'', ''no trusted time'',
     ''not anchored'', ''origin not hardware-attested'', ''watermark not evaluated'']"

section \<open>Reading what was written\<close>

text \<open>A proof read back has the members it was written with, in canonical order.\<close>

lemma member_canon: "distinct (map fst ms) \<Longrightarrow> member (canon (JObj ms)) k = map_option canon (map_of ms (js k))"
  using canon_JObj_members [of ms "js k"] by simp

lemma canon_value:
  assumes "proof_value v" "depth v \<le> 64"
  shows "proof_value (canon v) \<and> depth (canon v) \<le> 64" "canon (canon v) = canon v"
proof -
  show good: "proof_value (canon v) \<and> depth (canon v) \<le> 64" using parse_serialize [OF assms] by (rule parse_good)
  show "canon (canon v) = canon v"
    using canon_eq_serialize [OF _ _ assms, of "canon v"] good serialize_canon [of v] by simp
qed

lemma core_bytes_canon:
  assumes "proof_value (JObj ms)" "depth (JObj ms) \<le> 64"
  shows "core_bytes (canon (JObj ms)) = core_bytes (JObj ms)"
proof -
  note good = canon_value(1) [OF assms]
  have d: "distinct (map fst ms)" using assms(1) by simp
  have "map_option canon (member (canon (JObj ms)) k) = map_option canon (member (JObj ms) k)" for k
  proof (cases "member (JObj ms) k")
    case (Some v)
    then have "proof_value v \<and> depth v < depth (JObj ms)" using assms(1) by (intro member_proof_value)
    then have "canon (canon v) = canon v" using assms(2) by (intro canon_value(2)) auto
    then show ?thesis using Some by (simp add: member_canon [OF d] del: canon.simps)
  qed (simp add: member_canon [OF d] del: canon.simps)
  then show ?thesis
    using jcs_eq_canon [of "extract_core (canon (JObj ms))" "extract_core (JObj ms)"] extract_core_good [OF assms]
      extract_core_good [of "canon (JObj ms)"] good canon_extract_core [OF _ _ assms, of "canon (JObj ms)"]
    by (simp add: core_bytes_def del: canon.simps)
qed

lemma canon_keys: "set (keys_of (canon (JObj ms))) = fst ` set ms"
  by (force simp: image_iff)

lemma proof_value_integers: "proof_value v \<Longrightarrow> \<not> has_non_integer v"
  by (induction v rule: has_non_integer.induct) (auto simp: list_ex_iff split: jnum.splits)

declare canon.simps(2) [simp del]

lemma canon_object [simp]: "is_object (canon (JObj ms))" "obj_of (Some (canon (JObj ms))) = Some (canon (JObj ms))"
  "obj_of None = None"
  by (simp_all add: canon.simps(2) is_object_def obj_of_def)

lemma spread_simps [simp]: "spread base [] = base" "k \<notin> fst ` set base \<Longrightarrow> spread base [(k, v)] = base @ [(k, v)]"
proof -
  show "spread base [] = base" by (simp add: spread_def case_prod_unfold)
  assume k: "k \<notin> fst ` set base"
  then have "map (\<lambda>(n, x). (n, case map_of [(k, v)] n of Some y \<Rightarrow> y | None \<Rightarrow> x)) base = map id base"
    by (intro map_cong refl) (auto simp: image_iff)
  then show "spread base [(k, v)] = base @ [(k, v)]" using k by (simp add: spread_def)
qed

section \<open>A sealed photo\<close>

definition photo_media :: "jsstr \<Rightarrow> jsstr \<Rightarrow> members" where
  "photo_media h mime = [(js ''mime'', JStr mime), (js ''w'', JNum (NInt 16)), (js ''h'', JNum (NInt 16)), (js ''hash'', JStr h)]"

definition photo_device :: "platform \<Rightarrow> signing_key \<Rightarrow> members" where
  "photo_device P sk = [(js ''platform'', JStr (js ''android'')), (js ''secure_hw'', JStr (js ''tee'')),
     (js ''key_id'', JStr (key_id P (sk_spki sk)))]"

definition photo_watermark :: members where
  "photo_watermark = [(js ''algo'', JStr (js ''videoseal'')), (js ''layout'', JStr (js ''photo-bch-v3'')),
     (js ''payload_bits'', JNum (NInt 128)), (js ''ecc'', JStr (js ''bch-255-131'')), (js ''strength'', JNum (NInt 8))]"

definition photo_location :: members where
  "photo_location = [(js ''level'', JStr (js ''declared'')), (js ''lat_udeg'', JNum (NInt 45464664)),
     (js ''lon_udeg'', JNum (NInt 9188540)), (js ''acc_cm'', JNum (NInt 1250)), (js ''evidence'', JArr [])]"

definition photo_sig :: "signing_key \<Rightarrow> bytes \<Rightarrow> members" where
  "photo_sig sk sg = [(js ''alg'', JStr (js ''ES256'')), (js ''value'', JStr (b64url_encode sg)), (js ''pub'', JStr (b64url_encode (sk_spki sk)))]"

definition photo_members :: "platform \<Rightarrow> signing_key \<Rightarrow> jsstr \<Rightarrow> jsstr \<Rightarrow> members" where
  "photo_members P sk h mime = [(js ''v'', JStr (js ''vcap/1.0'')), (js ''capture_id'', JStr (b64url_encode CAPTURE_ID)),
     (js ''media'', JObj (photo_media h mime)), (js ''device'', JObj (photo_device P sk)), (js ''watermark'', JObj photo_watermark),
     (js ''time'', JObj [(js ''device_clock'', JNum (NInt 1757332800000))]), (js ''location'', JObj photo_location),
     (js ''policy'', JObj [(js ''pseudonymous'', JBool False)])]"

definition sealed_photo :: "platform \<Rightarrow> signing_key \<Rightarrow> jsstr \<Rightarrow> jsstr \<Rightarrow> bytes \<Rightarrow> members" where
  "sealed_photo P sk h mime sg = photo_members P sk h mime @ [(js ''sig'', JObj (photo_sig sk sg))]"

lemma photo_core_plain: "media_hash P media = Some h \<Longrightarrow> photo_core P sk media mime [] = Some (photo_members P sk h mime)"
  by (simp add: photo_core_def photo_members_def photo_media_def photo_device_def photo_watermark_def photo_location_def)

lemma sign_photo:
  assumes "core_bytes (JObj (photo_members P sk h mime)) = Some bs"
  shows "sign_proof sk (photo_members P sk h mime) (\<lambda>s. s) = Some (sealed_photo P sk h mime (sk_sign sk bs))"
proof -
  have "js ''sig'' \<notin> fst ` set (photo_members P sk h mime)" by (simp add: photo_members_def)
  then show ?thesis using assms by (simp add: sign_proof_def sealed_photo_def photo_sig_def)
qed

lemmas photo_defs = photo_members_def photo_media_def photo_device_def photo_watermark_def photo_location_def photo_sig_def sealed_photo_def

lemma photo_value:
  "proof_value (JObj (sealed_photo P sk h mime sg))" "depth (JObj (sealed_photo P sk h mime sg)) \<le> 64"
  "proof_value (JObj (photo_members P sk h mime))" "depth (JObj (photo_members P sk h mime)) \<le> 64"
  by (simp_all add: photo_defs safe_int_def max_safe_def del: b64url_encode.simps)

lemma photo_core_bytes:
  shows "core_bytes (canon (JObj (sealed_photo P sk h mime sg))) = core_bytes (JObj (photo_members P sk h mime))"
proof -
  have "extract_core (JObj (sealed_photo P sk h mime sg)) = extract_core (JObj (photo_members P sk h mime))"
    by (rule extract_core_cong) (auto simp: CORE_KEYS_def sealed_photo_def map_add_def photo_members_def del: b64url_encode.simps)
  then show ?thesis using core_bytes_canon [OF photo_value(1,2)] by (simp add: core_bytes_def)
qed

text \<open>The proof the verifier works on, and its members.\<close>

definition read_photo :: "platform \<Rightarrow> signing_key \<Rightarrow> jsstr \<Rightarrow> jsstr \<Rightarrow> bytes \<Rightarrow> json" where
  "read_photo P sk h mime sg = canon (JObj (sealed_photo P sk h mime sg))"

lemma photo_members_read:
  fixes P sk h mime sg
  defines "q \<equiv> read_photo P sk h mime sg"
  shows "member q ''v'' = Some (JStr (js ''vcap/1.0''))" "member q ''capture_id'' = Some (JStr (b64url_encode CAPTURE_ID))"
    "member q ''media'' = Some (canon (JObj (photo_media h mime)))" "member q ''device'' = Some (canon (JObj (photo_device P sk)))"
    "member q ''watermark'' = Some (canon (JObj photo_watermark))" "member q ''sig'' = Some (canon (JObj (photo_sig sk sg)))"
    "member q ''time'' = Some (canon (JObj [(js ''device_clock'', JNum (NInt 1757332800000))]))"
    "member q ''location'' = Some (canon (JObj photo_location))" "member q ''policy'' = Some (canon (JObj [(js ''pseudonymous'', JBool False)]))"
    "k \<in> {''segments'', ''attestation'', ''anchor'', ''timestamp'', ''registry'', ''integrity'', ''location_corroboration''} \<Longrightarrow> member q k = None"
proof -
  have d: "distinct (map fst (sealed_photo P sk h mime sg))" by (simp add: sealed_photo_def photo_members_def)
  have m: "member q k = (case map_of (sealed_photo P sk h mime sg) (js k) of None \<Rightarrow> None | Some v \<Rightarrow> Some (canon v))" for k
    unfolding q_def read_photo_def member_canon [OF d] by (cases "map_of (sealed_photo P sk h mime sg) (js k)") simp_all
  note l = sealed_photo_def photo_members_def
  show "member q ''v'' = Some (JStr (js ''vcap/1.0''))" unfolding m l by simp
  show "member q ''capture_id'' = Some (JStr (b64url_encode CAPTURE_ID))" unfolding m l by simp
  show "member q ''media'' = Some (canon (JObj (photo_media h mime)))" unfolding m l by simp
  show "member q ''device'' = Some (canon (JObj (photo_device P sk)))" unfolding m l by simp
  show "member q ''watermark'' = Some (canon (JObj photo_watermark))" unfolding m l by simp
  show "member q ''sig'' = Some (canon (JObj (photo_sig sk sg)))" unfolding m l by simp
  show "member q ''time'' = Some (canon (JObj [(js ''device_clock'', JNum (NInt 1757332800000))]))" unfolding m l by simp
  show "member q ''location'' = Some (canon (JObj photo_location))" unfolding m l by simp
  show "member q ''policy'' = Some (canon (JObj [(js ''pseudonymous'', JBool False)]))" unfolding m l by simp
  show "k \<in> {''segments'', ''attestation'', ''anchor'', ''timestamp'', ''registry'', ''integrity'', ''location_corroboration''} \<Longrightarrow> member q k = None"
    unfolding m l by (elim insertE emptyE; hypsubst; simp)
qed

lemma photo_fields_read:
  "member (canon (JObj (photo_media h mime))) ''mime'' = Some (JStr mime)" "member (canon (JObj (photo_media h mime))) ''hash'' = Some (JStr h)"
  "member (canon (JObj (photo_media h mime))) ''w'' = Some (JNum (NInt 16))" "member (canon (JObj (photo_media h mime))) ''h'' = Some (JNum (NInt 16))"
  "member (canon (JObj (photo_media h mime))) ''presentation'' = None" "member (canon (JObj (photo_media h mime))) ''timing'' = None"
  "member (canon (JObj (photo_device P sk))) ''platform'' = Some (JStr (js ''android''))"
  "member (canon (JObj (photo_device P sk))) ''secure_hw'' = Some (JStr (js ''tee''))"
  "member (canon (JObj (photo_device P sk))) ''key_id'' = Some (JStr (key_id P (sk_spki sk)))"
  "member (canon (JObj (photo_sig sk sg))) ''alg'' = Some (JStr (js ''ES256''))"
  "member (canon (JObj (photo_sig sk sg))) ''value'' = Some (JStr (b64url_encode sg))"
  "member (canon (JObj (photo_sig sk sg))) ''pub'' = Some (JStr (b64url_encode (sk_spki sk)))"
  "member (canon (JObj photo_location)) ''level'' = Some (JStr (js ''declared''))"
  "member (canon (JObj photo_location)) ''lat_udeg'' = Some (JNum (NInt 45464664))"
  "member (canon (JObj photo_location)) ''lon_udeg'' = Some (JNum (NInt 9188540))"
  "member (canon (JObj photo_location)) ''evidence'' = Some (JArr [])"
  "member (canon (JObj [(js ''device_clock'', JNum (NInt 1757332800000))])) ''device_clock'' = Some (JNum (NInt 1757332800000))"
  "member (canon (JObj [(js ''pseudonymous'', JBool False)])) ''pseudonymous'' = Some (JBool False)"
  by (simp_all add: member_canon photo_defs del: b64url_encode.simps)

lemmas photo_read = photo_members_read photo_fields_read

lemma photo_shape:
  assumes "take 6 mime \<noteq> js ''video/''"
  shows "shape_problem (read_photo P sk h mime sg) = None"
proof -
  have "CAPTURE_ID \<noteq> []" "length CAPTURE_ID = 16" by code_simp+
  then have a: "b64url_len (Some (JStr (b64url_encode CAPTURE_ID))) 16" using b64url_len_encode [of CAPTURE_ID] by simp
  have "proof_value (extract_core (read_photo P sk h mime sg))"
    using extract_core_good [of "read_photo P sk h mime sg"] canon_value(1) [OF photo_value(1,2)] by (simp add: read_photo_def)
  then have c: "\<not> has_non_integer (extract_core (read_photo P sk h mime sg))" by (rule proof_value_integers)
  show ?thesis using a c assms
    by (simp add: shape_problem_def field_def texts_def at_least_one_def carries_def segments_problem_def core_object_def photo_read)
qed

lemma photo_unknown: "unknown_keys (read_photo P sk h mime sg) = []"
proof -
  have "set (keys_of (read_photo P sk h mime sg)) \<subseteq> js ` set KNOWN_KEYS"
    by (simp add: read_photo_def canon_keys sealed_photo_def photo_members_def KNOWN_KEYS_def)
  then have "filter (\<lambda>k. k \<notin> js ` set KNOWN_KEYS) (keys_of (read_photo P sk h mime sg)) = []" by (subst filter_empty_conv) blast
  then show ?thesis by (simp only: unknown_keys_def sort_key_simps)
qed

text \<open>The key of the platform is the writer's, and what it signs verifies.\<close>

definition signs :: "platform \<Rightarrow> signing_key \<Rightarrow> key_object \<Rightarrow> bool" where
  "signs P sk key \<longleftrightarrow> create_public_key P (sk_spki sk) = Some key \<and> key_type key = ''ec'' \<and> key_curve key = Some ''prime256v1''
     \<and> (\<forall>bs. length (sk_sign sk bs) = 64 \<and> verify_p1363 P bs key (sk_sign sk bs))"

definition photo_core_hash :: "platform \<Rightarrow> signing_key \<Rightarrow> jsstr \<Rightarrow> jsstr \<Rightarrow> bytes" where
  "photo_core_hash P sk h mime = the (core_hash P (JObj (photo_members P sk h mime)))"

definition photo_signed :: "platform \<Rightarrow> signing_key \<Rightarrow> key_object \<Rightarrow> jsstr \<Rightarrow> jsstr \<Rightarrow> bytes \<Rightarrow> signed_core" where
  "photo_signed P sk key h mime sg = \<lparr>sc_proof = read_photo P sk h mime sg, sc_unknown = [], sc_hash = photo_core_hash P sk h mime,
     sc_spki = sk_spki sk, sc_key = key\<rparr>"

lemma photo_signable: "\<exists>bs. core_bytes (JObj (photo_members P sk h mime)) = Some bs"
proof -
  have "\<not> non_finite (extract_core (JObj (photo_members P sk h mime)))"
    using extract_core_good [OF photo_value(3,4)] proof_value_finite by blast
  then show ?thesis by (simp add: core_bytes_def jcs_def)
qed

lemma photo_read_core:
  assumes "signs P sk key" "take 6 mime \<noteq> js ''video/''" "core_bytes (JObj (photo_members P sk h mime)) = Some bs"
  shows "read_core P K (utf8_encode (serialize (JObj (sealed_photo P sk h mime (sk_sign sk bs))))) = Inr (Inr (photo_signed P sk key h mime (sk_sign sk bs)))"
proof -
  let ?q = "read_photo P sk h mime (sk_sign sk bs)"
  have p: "parse_proof_json (utf8_encode (serialize (JObj (sealed_photo P sk h mime (sk_sign sk bs))))) = Inr ?q"
    unfolding read_photo_def by (rule parse_serialize [OF photo_value(1,2)])
  have c: "core_bytes ?q = Some bs" "core_hash P ?q = Some (photo_core_hash P sk h mime)"
    using assms(3) by (simp_all add: read_photo_def core_hash_def photo_core_bytes photo_core_hash_def)
  have "check_core P K ?q bs (photo_core_hash P sk h mime) = Inr (photo_signed P sk key h mime (sk_sign sk bs))"
    using assms(1) by (simp add: check_core_def Let_def sig_field_def field_def photo_read b64_decode_encode public_key_from_spki_def
        verify_es256_def signs_def key_id_text_def leaf_differs_def photo_unknown photo_signed_def arr_of_def str_of_def)
  then show ?thesis
    by (simp add: read_core_def p photo_read demo_version photo_shape [OF assms(2)] c del: serialize.simps) (simp add: read_photo_def)
qed

section \<open>Weighing and levelling it\<close>

definition photo_evidence :: "trust_bundle option \<Rightarrow> evidence" where
  "photo_evidence trust = \<lparr>ev_anchor = Not_anchored, ev_stamp = No_timestamp, ev_registry = Unregistered, ev_signers = logs_of trust,
     ev_integrity = False, ev_location = (''declared'', ''declared''),
     ev_labels = [''origin not hardware-attested'', ''not anchored'', ''no trusted time'', ''key not in transparency log'',
       ''integrity unevaluated'', ''location declared only'', ''watermark not evaluated'']\<rparr>"

lemma photo_clock: "device_clock_of (read_photo P sk h mime sg) = Some 1757332800000"
  by (simp add: device_clock_of_def photo_read)

lemma photo_located: "location_verdict P' (read_photo P sk h mime sg) core signers = Inr ((''declared'', ''declared''), [''location declared only''])"
proof -
  have "name_in LOCATION_LEVELS (Some (JStr (js ''declared''))) = Some ''declared''"
    by (simp add: name_in_def LOCATION_LEVELS_def)
  then show ?thesis by (simp add: location_verdict_def Let_def photo_read)
qed

lemma photo_weigh:
  "weigh P' K (photo_signed P sk key h mime sg) input (Some 0) [] = ret (photo_evidence (fi_trust input))"
proof -
  have flags: "flag_labels (Some 0) (read_photo P sk h mime sg) = []"
    by (simp add: flag_labels_def carries_def pseudonymous_def photo_read)
  show ?thesis
    by (simp add: weigh_def Let_def photo_signed_def anchor_verdict_of_def timestamp_verdict_of_def registry_verdict_of_def integrity_verdict_def
        photo_located signing_logs_def agree_def absent_labels_def ABSENT_LABELS_def carries_def flags photo_clock photo_evidence_def photo_read)
qed

lemma photo_level:
  "level P' K (read_photo P sk h mime sg) spki core labels trust signers clock Unregistered statement Not_anchored No_timestamp False =
    ret (\<lparr>lv_claimed = ''tee'', lv_proven = ''none'', lv_ceiling = ceiling_of ''none'' Unregistered By_device_clock labels,
         lv_instant = 1757332800000, lv_source = By_device_clock\<rparr>, sort labels)"
proof -
  let ?q = "read_photo P sk h mime sg"
  have c: "claimed_level (canon (JObj (photo_device P sk))) = ''tee''"
    by (simp add: claimed_level_def name_in_def PLATFORMS_def SECURE_HW_def photo_read)
  have e: "\<not> enclave ?q None Unregistered" "\<not> inconsistent ?q None trust Unregistered"
    by (simp_all add: enclave_def inconsistent_def chain_stands_def Let_def)
  have p: "key_status_labels P' ?q Unregistered statement (Some clock) signers = Inr []" "level_chain P' K ?q spki trust instant clock = ret None"
    "revocation_labels P' ?q core signers None trust None = Inr (False, [])" for instant
    by (simp_all add: key_status_labels_def level_chain_def arr_of_def revocation_labels_def chain_stands_def photo_read)
  show ?thesis
    by (simp add: level_def Let_def instant_for_def photo_clock p chain_labels_def e all_labels_def app_labels_def
        trusted_source_def field_def photo_read c date_of_def)
qed

section \<open>Sealed, then verified\<close>

definition photo_verdict :: "bytes \<Rightarrow> verdict" where
  "photo_verdict core = \<lparr>vd_outcome = Authentic, vd_labels = PHOTO_LABELS, vd_not_evaluated = [], vd_core_hash = Some core, vd_segments = None,
     vd_level = Some \<lparr>lv_claimed = ''tee'', lv_proven = ''none'', lv_ceiling = Amber, lv_instant = 1757332800000, lv_source = By_device_clock\<rparr>,
     vd_location = Some (''declared'', ''declared''), vd_source = Some From_trailer, vd_frames_name_capture = None, vd_reason = None\<rparr>"

lemma photo_judge:
  assumes "signs P sk key" "take 6 mime \<noteq> js ''video/''" "core_bytes (JObj (photo_members P sk h mime)) = Some bs" "media_hash P media = Some h"
  shows "judge P K (utf8_encode (serialize (JObj (sealed_photo P sk h mime (sk_sign sk bs))))) media (Some 0) [] input =
    ret ((photo_verdict (photo_core_hash P sk h mime))\<lparr>vd_source := None\<rparr>, None)"
proof -
  have l: "sort (ev_labels (photo_evidence trust)) = PHOTO_LABELS" for trust
    unfolding photo_evidence_def evidence.simps PHOTO_LABELS_def by code_simp
  have s: "sort PHOTO_LABELS = PHOTO_LABELS" unfolding PHOTO_LABELS_def by code_simp
  have c: "ceiling_of ''none'' Unregistered By_device_clock PHOTO_LABELS = Amber" by (simp add: ceiling_of_def PHOTO_LABELS_def)
  let ?sc = "photo_signed P sk key h mime (sk_sign sk bs)"
  have f: "sc_proof ?sc = read_photo P sk h mime (sk_sign sk bs)" "sc_unknown ?sc = []" "sc_hash ?sc = photo_core_hash P sk h mime" "sc_spki ?sc = sk_spki sk"
    by (simp_all add: photo_signed_def)
  have e: "ev_registry (photo_evidence t) = Unregistered" "ev_anchor (photo_evidence t) = Not_anchored" "ev_stamp (photo_evidence t) = No_timestamp"
    "ev_integrity (photo_evidence t) = False" "ev_location (photo_evidence t) = (''declared'', ''declared'')" for t
    by (simp_all add: photo_evidence_def)
  have "authentic_verdict P K ?sc (photo_evidence (fi_trust input)) input (ev_labels (photo_evidence (fi_trust input))) None =
      ret ((photo_verdict (photo_core_hash P sk h mime))\<lparr>vd_source := None\<rparr>)"
    by (simp add: authentic_verdict_def f e l s c photo_level photo_verdict_def)
  then show ?thesis
    by (simp add: judge_def photo_read_core [OF assms(1-3)] assms(4) f photo_weigh carries_def field_def photo_read del: serialize.simps)
qed

definition plain_seal :: seal_options where
  "plain_seal = \<lparr>so_payload = None, so_flags = None, so_crc = None\<rparr>"

lemma photo_flags: "flags_for (JObj (sealed_photo P sk h mime sg)) = 0"
  by (simp add: flags_for_def carries_def pseudonymous_def sealed_photo_def photo_members_def obj_of_def)

lemma sealed_photo_verified:
  assumes "signs P sk key" "photo_core P sk media mime [] = Some core" "sign_proof sk core (\<lambda>s. s) = Some proof"
    and "seal media (JObj proof) plain_seal = Some file"
    and "take 6 mime \<noteq> js ''video/''" "parse_trailer media = No_trailer" "ca_active (carrier_of media (fi_store input)) = None"
    and "fi_file input = file" "fi_sidecar input = None"
  shows "verify_file P K input = ret (photo_verdict (the (core_hash P (JObj core))))"
proof -
  from assms(2) obtain h where h: "media_hash P media = Some h" by (auto simp: photo_core_def split: option.splits)
  then have core: "core = photo_members P sk h mime" using assms(2) photo_core_plain [of P media h sk mime] by simp
  obtain bs where bs: "core_bytes (JObj (photo_members P sk h mime)) = Some bs" using photo_signable by blast
  have pr: "proof = sealed_photo P sk h mime (sk_sign sk bs)" using assms(3) sign_photo [OF bs] by (simp add: core)
  let ?payload = "utf8_encode (serialize (JObj proof))"
  have payload: "jcs (JObj proof) = Some ?payload"
    using proof_value_finite [OF photo_value(1)] by (simp add: jcs_def pr del: serialize.simps)
  have flags: "flags_for (JObj proof) = 0" unfolding pr by (rule photo_flags)
  obtain t where t: "build_trailer ?payload (no_options\<lparr>opt_flags := Some 0\<rparr>) = Some t" "file = media @ t"
    using assms(4) by (auto simp: seal_def plain_seal_def payload flags no_options_def bind_eq_Some_conv simp del: serialize.simps)
  have parsed: "parse_trailer file = Trailer ?payload 0 0 (length media)"
    unfolding t(2) using parse_build [OF t(1), of media] by (simp add: no_options_def del: serialize.simps)
  have extracted: "extract_proof file None (fi_store input) = Proof_found \<lparr>ex_payload = ?payload, ex_media = media, ex_flags = Some 0,
      ex_source = From_trailer, ex_labels = [], ex_alternate = None\<rparr>"
    using assms(6,7) by (simp add: extract_proof_def parsed [unfolded t(2)] manifest_label_def t(2) Let_def del: serialize.simps)
  note j = photo_judge [OF assms(1,5) bs h, of K input, folded pr]
  have "photo_core_hash P sk h mime = the (core_hash P (JObj core))" by (simp add: photo_core_hash_def core)
  then show ?thesis
    by (simp add: verify_file_def verdict_of_file_def assms(8,9) extracted judged_def j unreadable_alternate_def of_source_capture_def
        depth_of_def photo_verdict_def del: serialize.simps)
qed

section \<open>The writer answers\<close>

text \<open>A bound on the length of a serialized value, so that its length fits the 32-bit field of the footer.\<close>

fun weight :: "json \<Rightarrow> nat" where
  "weight (JStr s) = 6 * length s + 2"
| "weight (JNum n) = length (num_text n)"
| "weight (JArr vs) = 2 + sum_list (map (\<lambda>v. weight v + 1) vs)"
| "weight (JObj ms) = 2 + sum_list (map (\<lambda>m. 6 * length (fst m) + 4 + weight (snd m)) ms)"
| "weight _ = 5"

lemma quote_length: "length (quote s) \<le> 6 * length s + 2"
  unfolding quote_def by (induction s rule: quote_body.induct) (auto simp: quote_unit_def u_escape_def)

lemma join_length: "length (join xs) \<le> sum_list (map (\<lambda>x. length x + 1) xs)"
  by (induction xs rule: join.induct) auto

lemma sum_list_sort_key: "sum_list (map f (sort_key g xs)) = sum_list (map f xs)" for f :: "'a \<Rightarrow> nat"
  by (metis mset_map mset_sort sum_mset_sum_list)

lemma serialize_length: "length (serialize v) \<le> weight v"
proof (induction v rule: serialize.induct)
  case (5 vs)
  have "sum_list (map (\<lambda>x. length x + 1) (map serialize vs)) \<le> sum_list (map (\<lambda>v. weight v + 1) vs)"
    unfolding map_map by (rule sum_list_mono) (simp add: 5)
  then show ?case using join_length [of "map serialize vs"] by simp
next
  case (6 ms)
  let ?f = "\<lambda>(k, v). quote k @ 58 # serialize v"
  have "sum_list (map (\<lambda>x. length x + 1) (map ?f (sort_key fst ms))) \<le> sum_list (map (\<lambda>m. 6 * length (fst m) + 4 + weight (snd m)) (sort_key fst ms))"
    unfolding map_map
  proof (rule sum_list_mono)
    fix m assume "m \<in> set (sort_key fst ms)"
    then have "length (serialize (snd m)) \<le> weight (snd m)" using 6 [of m "fst m" "snd m"] by simp
    then show "((\<lambda>x. length x + 1) \<circ> ?f) m \<le> 6 * length (fst m) + 4 + weight (snd m)"
      using quote_length [of "fst m"] by (simp add: case_prod_unfold)
  qed
  then show ?case using join_length [of "map ?f (sort_key fst ms)"] by (simp add: sum_list_sort_key)
qed (use quote_length in auto)

lemma unit_length: "length (Encoding.cp_bytes (unat u)) \<le> 3" for u :: "16 word"
proof -
  have "unat u < 65536" using unsigned_less [of u] by simp
  then show ?thesis by (simp add: Encoding.cp_bytes_def)
qed

lemma utf8_length: "length (utf8_encode s) \<le> 3 * length s"
proof (induction s rule: code_points.induct)
  case (2 u)
  have "length (Encoding.cp_bytes 0xFFFD) \<le> 3" by (simp add: Encoding.cp_bytes_def)
  then show ?case using unit_length [of u] by (simp add: utf8_encode_def)
next
  case (3 u v r)
  have "length (Encoding.cp_bytes c) \<le> 4" for c by (simp add: Encoding.cp_bytes_def)
  from this [of "65536 + (unat u - 55296) * 1024 + (unat v - 56320)"]
  have "length (Encoding.cp_bytes (65536 + (unat u - 55296) * 1024 + (unat v - 56320))) \<le> 6" by linarith
  moreover have "length (Encoding.cp_bytes 0xFFFD) \<le> 3" by (simp add: Encoding.cp_bytes_def)
  ultimately show ?case using 3 unit_length [of u] by (auto simp: utf8_encode_def intro: add_mono)
qed (simp add: utf8_encode_def)

lemma b64url_length: "length (b64url_encode bs) \<le> 2 * length bs"
  by (induction bs rule: b64url_encode.induct) simp_all

lemma build_answers:
  assumes "24 + length payload < 256 ^ 4"
  shows "\<exists>t. build_trailer payload (no_options\<lparr>opt_flags := Some 0\<rparr>) = Some t"
proof -
  have n: "24 + length payload = BOX_HEADER_LEN + length payload + FOOTER_LEN" by (simp add: trailer_consts)
  have p: "put_be 4 (int (BOX_HEADER_LEN + length payload + FOOTER_LEN)) = Some (be_bytes 4 (BOX_HEADER_LEN + length payload + FOOTER_LEN))"
    "put_be 4 (int (length payload)) = Some (be_bytes 4 (length payload))"
    by (rule put_be_int, use assms n in simp)+
  have "put_be 4 (int (crc32 payload)) = Some (be_bytes 4 (crc32 payload))" by (rule put_be_int, rule crc32_less)
  moreover have "\<exists>b. put_be n v = Some b" if "0 \<le> v" "v < 256 ^ n" for n v using that by (simp add: put_be_Some)
  ultimately show ?thesis by (simp add: build_trailer_def no_options_def p Let_def bind_eq_Some_conv del: be_bytes.simps) (use assms in \<open>simp add: put_be_Some trailer_consts\<close>)
qed

lemma capture_id_length: "length CAPTURE_ID = 16"
  unfolding CAPTURE_ID_def by code_simp

lemma photo_weight: "weight (JObj (sealed_photo P sk h mime sg))
    \<le> 6 * (length mime + length h + length (key_id P (sk_spki sk)) + 2 * length sg + 2 * length (sk_spki sk)) + 3000"
  using b64url_length [of sg] b64url_length [of "sk_spki sk"] b64url_length [of CAPTURE_ID]
  by (simp add: photo_defs int_text_def nat_text.simps capture_id_length del: b64url_encode.simps)

definition toy_signer :: signing_key where "toy_signer = \<lparr>sk_spki = [2], sk_sign = (\<lambda>bs. replicate 64 0)\<rparr>"

lemma toy_signs: "signs tail_platform toy_signer \<lparr>key_spki = [2], key_type = ''ec'', key_curve = Some ''prime256v1''\<rparr>"
  by (simp add: signs_def toy_signer_def tail_platform_def)

lemma toy_lengths: "length (key_id tail_platform bs) \<le> 64" "media_hash P media = Some h \<Longrightarrow> hash_ok P \<Longrightarrow> length h \<le> 64"
  using b64url_length [of "sha256 tail_platform bs"] b64url_length [of "sha256 P (the (canonical_bytes media))"] tail_platform_hash
  by (auto simp: key_id_def hash_ok_def media_hash_def)

lemma toy_media: "parse_trailer demo_media = No_trailer" "carrier_of demo_media None = no_carrier No_store_found"
    "media_hash tail_platform demo_media \<noteq> None"
  by (simp_all add: demo_media_def parse_trailer_def trailer_consts carrier_of_def embedded_stores_def is_jpeg_def media_hash_def
      canonical_bytes_def detect_container_def)

text \<open>C5. What the writer seals, the verifier accepts: for a photo whose media the canonical form can be read of, which
  carries no proof yet, and a key whose signatures verify, building the core, signing it and sealing the file all
  succeed, and the verification of the sealed file ends, authentic, with exactly the labels \<open>PHOTO_LABELS\<close>, the amber
  ceiling of a bare photo and the hash of the core that was written.
\<close>

theorem sealed_photo_authentic:
  assumes "signs P sk key" "media_hash P media \<noteq> None" "take 6 mime \<noteq> js ''video/''" "parse_trailer media = No_trailer"
    and "length mime + length (the (media_hash P media)) + length (key_id P (sk_spki sk)) + 2 * length (sk_spki sk) < 100000000"
  shows "\<exists>core proof file. photo_core P sk media mime [] = Some core \<and> sign_proof sk core (\<lambda>s. s) = Some proof
    \<and> seal media (JObj proof) plain_seal = Some file
    \<and> (\<forall>input. fi_file input = file \<longrightarrow> fi_sidecar input = None \<longrightarrow> ca_active (carrier_of media (fi_store input)) = None
        \<longrightarrow> verify_file P K input = ret (photo_verdict (the (core_hash P (JObj core)))))"
proof -
  obtain h where h: "media_hash P media = Some h" using assms(2) by blast
  let ?core = "photo_members P sk h mime"
  obtain bs where bs: "core_bytes (JObj ?core) = Some bs" using photo_signable by blast
  let ?proof = "sealed_photo P sk h mime (sk_sign sk bs)"
  let ?payload = "utf8_encode (serialize (JObj ?proof))"
  have n: "length (sk_sign sk bs) = 64" using assms(1) by (simp add: signs_def)
  have "length ?payload \<le> 3 * weight (JObj ?proof)"
    using utf8_length [of "serialize (JObj ?proof)"] serialize_length [of "JObj ?proof"] by linarith
  then have "24 + length ?payload < 256 ^ 4"
    using photo_weight [of P sk h mime "sk_sign sk bs"] assms(5) n h by simp
  then obtain t where t: "build_trailer ?payload (no_options\<lparr>opt_flags := Some 0\<rparr>) = Some t" using build_answers by blast
  have s: "seal media (JObj ?proof) plain_seal = Some (media @ t)"
    using proof_value_finite [OF photo_value(1)] t photo_flags by (simp add: seal_def plain_seal_def jcs_def no_options_def del: serialize.simps)
  note c = photo_core_plain [OF h, of sk mime] and g = sign_photo [OF bs]
  show ?thesis using sealed_photo_verified [OF assms(1) c g s assms(3,4)] c g s by blast
qed

theorem sealed_photo_authentic_witness:
  "\<exists>core proof file. photo_core tail_platform toy_signer demo_media (js ''image/png'') [] = Some core
    \<and> sign_proof toy_signer core (\<lambda>s. s) = Some proof \<and> seal demo_media (JObj proof) plain_seal = Some file
    \<and> verify_file tail_platform demo_pki ((demo_input 0)\<lparr>fi_file := file, fi_sidecar := None\<rparr>)
      = ret (photo_verdict (the (core_hash tail_platform (JObj core))))"
proof -
  obtain h where h: "media_hash tail_platform demo_media = Some h" using toy_media(3) by blast
  have "length h \<le> 64" "length (key_id tail_platform [2]) \<le> 64" using toy_lengths h tail_platform_hash by blast+
  then have n: "length (js ''image/png'') + length (the (media_hash tail_platform demo_media)) + length (key_id tail_platform (sk_spki toy_signer))
      + 2 * length (sk_spki toy_signer) < 100000000"
    by (simp add: h toy_signer_def)
  have m: "take 6 (js ''image/png'') \<noteq> js ''video/''" by code_simp
  have "fi_store ((demo_input 0)\<lparr>fi_file := f, fi_sidecar := None\<rparr>) = None" "ca_active (carrier_of demo_media None) = None" for f
    by (simp_all add: demo_input_def toy_media no_carrier_def)
  then show ?thesis
    using sealed_photo_authentic [OF toy_signs toy_media(3) m toy_media(1) n, of demo_pki] by fastforce
qed

end
