(* ===== verification/Attachments.thy ===== *)
theory Attachments
  imports Writer Anchor Messages
begin

text \<open>
  The log's side of \<open>tools/src/generate.ts\<close>: the tree and the audit path (\<open>treeWith\<close>, \<open>batchWith\<close>), and the
  statements a registry signs (\<open>registryFor\<close>, \<open>anchorFor\<close>, \<open>integrityFor\<close>, \<open>corroborationFor\<close>,
  \<open>statusAttachment\<close>, \<open>statusStatement\<close>). The lemmas show that the verifier of \<open>Registry\<close>, \<open>Anchor\<close>,
  \<open>Location\<close> and \<open>Level\<close> accepts each of them, for every key whose signatures verify and every tree.
\<close>

section \<open>Texts\<close>

text \<open>\<open>toString('base64')\<close>: the other alphabet, padded.\<close>

definition std_unit :: "16 word \<Rightarrow> 16 word" where
  "std_unit u = (if u = 45 then 43 else if u = 95 then 47 else u)"

definition b64_encode :: "bytes \<Rightarrow> jsstr" where
  "b64_encode bs = map std_unit (b64url_encode bs) @ replicate ((3 - length bs mod 3) mod 3) 61"

definition of_text :: "string \<Rightarrow> bytes" where "of_text s = utf8_encode (js s)"

definition CAPTURE :: int where "CAPTURE = 1757332800000"
definition DAY :: int where "DAY = 86400000"

section \<open>The tree and the audit path\<close>

text \<open>The loop of \<open>treeWith\<close> and \<open>batchWith\<close>; the inner loop over a level is \<open>pair_up\<close>. A sibling read outside the
  level is \<open>undefined\<close>.\<close>

definition siblings :: "'h list \<Rightarrow> nat \<Rightarrow> 'h option list" where
  "siblings hs position = (if position mod 2 = 1 then [at hs (position - 1)]
     else if position + 1 < length hs then [at hs (position + 1)] else [])"

function levels :: "('h \<Rightarrow> 'h \<Rightarrow> 'h) \<Rightarrow> 'h list \<Rightarrow> nat \<Rightarrow> 'h option list \<Rightarrow> 'h option \<times> 'h option list" where
  "levels node hs position path =
     (if length hs \<le> 1 then (if hs = [] then None else Some (hd hs), path)
      else levels node (pair_up node hs) (position div 2) (path @ siblings hs position))"
  by pat_completeness auto
termination by (relation "measure (\<lambda>(node, hs, position, path). length hs)") (auto simp: length_pair_up)

declare levels.simps [simp del]

definition tree_with :: "platform \<Rightarrow> bytes \<Rightarrow> nat \<Rightarrow> nat \<Rightarrow> bytes option \<times> bytes option list" where
  "tree_with P leaf index n = levels (node_hash P)
     (map (\<lambda>i. if i = index then leaf else leaf_hash P (utf8_encode (js ''filler '' @ nat_text i))) [0..<n]) index []"

definition batch_with :: "platform \<Rightarrow> bytes \<Rightarrow> nat \<Rightarrow> nat \<Rightarrow> bytes option \<times> bytes option list" where
  "batch_with P core index n = levels (node_hash P)
     (map (\<lambda>i. leaf_hash P (if i = index then core else sha256 P (utf8_encode (js ''another capture '' @ nat_text i)))) [0..<n]) index []"

lemma levels_tree:
  "i < length hs \<Longrightarrow> levels node hs i path = (Some (mth node hs), path @ map Some (mpath node i hs))"
proof (induction hs arbitrary: i path rule: measure_induct_rule [where f = length])
  case (less hs)
  show ?case
  proof (cases "length hs \<le> 1")
    case True
    then show ?thesis using less.prems by (auto simp: levels.simps mth.simps mpath.simps)
  next
    case False
    then have n: "1 < length hs" by simp
    have p: "length (pair_up node hs) = (length hs + 1) div 2" by (rule length_pair_up)
    have "length (pair_up node hs) < length hs" "i div 2 < length (pair_up node hs)" using n less.prems p by linarith+
    note ih = less.IH [OF this]
    have s: "siblings hs i = map Some (if i mod 2 = 1 then [hs ! (i - 1)] else if i + 1 < length hs then [hs ! (i + 1)] else [])"
      using less.prems by (simp add: siblings_def at_def)
    have "levels node hs i path = levels node (pair_up node hs) (i div 2) (path @ siblings hs i)"
      using n by (simp add: levels.simps [of node hs])
    also have "\<dots> = (Some (mth node hs), path @ map Some (mpath node i hs))"
      unfolding ih mpath_pair_up [OF n less.prems, of node] mth_pair_up [OF n, of node, symmetric] s by simp
    finally show ?thesis .
  qed
qed

text \<open>Hashes of the right shape give a head and siblings of that shape.\<close>

context merkle
begin

lemma mth_path_ok:
  "i < length hs \<Longrightarrow> \<forall>h \<in> set hs. ok h \<Longrightarrow> ok (mth node hs) \<and> (\<forall>h \<in> set (mpath node i hs). ok h)"
proof (induction hs arbitrary: i rule: measure_induct_rule [where f = length])
  case (less hs)
  show ?case
  proof (cases "length hs \<le> 1")
    case True
    then show ?thesis using less.prems by (cases hs) (auto simp: mth.simps mpath.simps)
  next
    case False
    then have n: "1 < length hs" by simp
    have p: "length (pair_up node hs) = (length hs + 1) div 2" by (rule length_pair_up)
    have "length (pair_up node hs) < length hs" "i div 2 < length (pair_up node hs)" using n less.prems p by linarith+
    from less.IH [OF this pair_up_ok [OF less.prems(2)]] show ?thesis
      unfolding mpath_pair_up [OF n less.prems(1), of node] mth_pair_up [OF n, of node] using less.prems by auto
  qed
qed

end

text \<open>So what the writer publishes is the tree head and the path of RFC 6962, which the verifier's walk accepts.\<close>

lemma tree_verifies:
  assumes "i < length hs"
  obtains root path where "levels (node_hash P) hs i [] = (Some root, map Some path)"
    "verify_inclusion P (hs ! i) (json_nat i) (json_nat (length hs)) path root"
    "hash_ok P \<Longrightarrow> \<forall>h \<in> set hs. length h = 32 \<Longrightarrow> length root = 32 \<and> (\<forall>h \<in> set path. length h = 32)"
proof
  show "levels (node_hash P) hs i [] = (Some (mth (node_hash P) hs), map Some (mpath (node_hash P) i hs))"
    using levels_tree [OF assms] by simp
  show "verify_inclusion P (hs ! i) (json_nat i) (json_nat (length hs)) (mpath (node_hash P) i hs) (mth (node_hash P) hs)"
    using assms log_tree.walk_complete [of i hs P] by (simp add: verify_inclusion_nat)
  show "length (mth (node_hash P) hs) = 32 \<and> (\<forall>h \<in> set (mpath (node_hash P) i hs). length h = 32)"
    if "hash_ok P" "\<forall>h \<in> set hs. length h = 32"
    using log_tree.mth_path_ok [OF assms, of P] that by blast
qed

lemma tree_with_verifies:
  assumes "i < n"
  obtains root path where "tree_with P leaf i n = (Some root, map Some path)"
    "verify_inclusion P leaf (json_nat i) (json_nat n) path root"
    "hash_ok P \<Longrightarrow> length leaf = 32 \<Longrightarrow> length root = 32 \<and> (\<forall>h \<in> set path. length h = 32)"
proof -
  define hs where "hs = map (\<lambda>j. if j = i then leaf else leaf_hash P (utf8_encode (js ''filler '' @ nat_text j))) [0..<n]"
  have i: "i < length hs" "hs ! i = leaf" "length hs = n" using assms by (simp_all add: hs_def)
  obtain root path where r: "levels (node_hash P) hs i [] = (Some root, map Some path)"
    "verify_inclusion P (hs ! i) (json_nat i) (json_nat (length hs)) path root"
    "hash_ok P \<Longrightarrow> \<forall>h \<in> set hs. length h = 32 \<Longrightarrow> length root = 32 \<and> (\<forall>h \<in> set path. length h = 32)"
    using tree_verifies [OF i(1), of P] by blast
  show thesis
  proof (rule that [of root path])
    show "tree_with P leaf i n = (Some root, map Some path)" using r(1) by (simp add: tree_with_def hs_def)
    show "verify_inclusion P (leaf) (json_nat i) (json_nat n) path root" using r(2) by (simp only: i)
    assume "hash_ok P" "length leaf = 32"
    then have "\<forall>h \<in> set hs. length h = 32" by (auto simp: hs_def leaf_hash_def hash_ok_def)
    then show "length root = 32 \<and> (\<forall>h \<in> set path. length h = 32)" using r(3) \<open>hash_ok P\<close> by blast
  qed
qed

lemma batch_with_verifies:
  assumes "i < n"
  obtains root path where "batch_with P core i n = (Some root, map Some path)"
    "verify_inclusion P (leaf_hash P core) (json_nat i) (json_nat n) path root"
    "hash_ok P \<Longrightarrow> length root = 32 \<and> (\<forall>h \<in> set path. length h = 32)"
proof -
  define hs where "hs = map (\<lambda>j. leaf_hash P (if j = i then core else sha256 P (utf8_encode (js ''another capture '' @ nat_text j)))) [0..<n]"
  have i: "i < length hs" "hs ! i = leaf_hash P core" "length hs = n" using assms by (simp_all add: hs_def)
  obtain root path where r: "levels (node_hash P) hs i [] = (Some root, map Some path)"
    "verify_inclusion P (hs ! i) (json_nat i) (json_nat (length hs)) path root"
    "hash_ok P \<Longrightarrow> \<forall>h \<in> set hs. length h = 32 \<Longrightarrow> length root = 32 \<and> (\<forall>h \<in> set path. length h = 32)"
    using tree_verifies [OF i(1), of P] by blast
  show thesis
  proof (rule that [of root path])
    show "batch_with P core i n = (Some root, map Some path)" using r(1) by (simp add: batch_with_def hs_def)
    show "verify_inclusion P (leaf_hash P core) (json_nat i) (json_nat n) path root" using r(2) by (simp only: i)
    assume "hash_ok P"
    then have "\<forall>h \<in> set hs. length h = 32" by (auto simp: hs_def leaf_hash_def hash_ok_def)
    then show "length root = 32 \<and> (\<forall>h \<in> set path. length h = 32)" using r(3) \<open>hash_ok P\<close> by blast
  qed
qed

section \<open>The registry attachment\<close>

record registry_options =
  ro_key_id :: "jsstr option"
  ro_pub :: "jsstr option"
  ro_secure_hw :: "jsstr option"
  ro_head_timestamp :: "int option"
  ro_log_id :: "jsstr option"
  ro_forge_path :: bool
  ro_index :: "nat option"
  ro_size :: "nat option"

definition LOG_ID :: "platform \<Rightarrow> signing_key \<Rightarrow> jsstr" where
  "LOG_ID P lk = b64url_encode (sha256 P (sk_spki lk))"

definition registry_leaf :: "platform \<Rightarrow> signing_key \<Rightarrow> registry_options \<Rightarrow> json" where
  "registry_leaf P sk opts = JObj [(js ''type'', JStr (js ''key'')),
     (js ''key_id'', case leaf_key_id (or_else (ro_key_id opts) (key_id P (sk_spki sk))) of None \<Rightarrow> JNull | Some s \<Rightarrow> JStr s),
     (js ''public_key'', JStr (or_else (ro_pub opts) (b64_encode (sk_spki sk)))),
     (js ''secure_hw'', JStr (or_else (ro_secure_hw opts) (js ''tee''))),
     (js ''attestation_digest'', JStr (hex_of (sha256 P (of_text ''the chain as the log received it'')))),
     (js ''registered_at'', JNum (NInt (CAPTURE - DAY)))]"

text \<open>\<open>None\<close> where the code throws: a sibling or a root that is \<open>undefined\<close>, a number no 64-bit field holds.\<close>

definition registry_for :: "platform \<Rightarrow> signing_key \<Rightarrow> signing_key \<Rightarrow> registry_options \<Rightarrow> json option" where
  "registry_for P sk lk opts = (let leaf = registry_leaf P sk opts; index = or_else (ro_index opts) 3; n = or_else (ro_size opts) 7;
       timestamp = or_else (ro_head_timestamp opts) (CAPTURE - 3600000) in do {
     leaf_bytes \<leftarrow> jcs leaf;
     let (head, siblings) = tree_with P (leaf_hash P leaf_bytes) index n;
     root \<leftarrow> head;
     path \<leftarrow> omap (\<lambda>h. h) (if ro_forge_path opts then map (\<lambda>_. Some (sha256 P (of_text ''not the sibling''))) siblings else siblings);
     message \<leftarrow> ok_bytes (tree_head_message (json_nat n) (Some (JNum (NInt timestamp))) root);
     Some (JObj [(js ''log_id'', JStr (or_else (ro_log_id opts) (LOG_ID P lk))),
       (js ''leaf_index'', JNum (NInt (int index))), (js ''leaf'', leaf),
       (js ''inclusion_path'', JArr (map (\<lambda>h. JStr (b64url_encode h)) path)),
       (js ''tree_head'', JObj [(js ''tree_size'', JNum (NInt (int n))), (js ''timestamp'', JNum (NInt timestamp)),
          (js ''root_hash'', JStr (b64url_encode root)), (js ''signature'', JStr (b64url_encode (sk_sign lk message)))])]) })"

text \<open>The log a verifier trusts under the key's own identifier, with a key object its signatures verify under.\<close>

definition trusts :: "platform \<Rightarrow> trusted_log list \<Rightarrow> signing_key \<Rightarrow> bool" where
  "trusts P logs lk \<longleftrightarrow> (\<exists>l key. find_log logs (Some (JStr (LOG_ID P lk))) = Some l \<and> log_key P l = Some key
     \<and> (\<forall>m. verify_es256 P m (sk_sign lk m) key))"

lemma trusts_signed: "trusts P logs lk \<Longrightarrow> signed_by_log P logs m (sk_sign lk m)"
proof -
  assume "trusts P logs lk"
  then obtain l key where "l \<in> set logs" "log_key P l = Some key" "verify_es256 P m (sk_sign lk m) key"
    using find_log_Some by (fastforce simp: trusts_def)
  then show ?thesis unfolding signed_by_log_def list_ex_iff by (metis option.case(2))
qed

lemma b64_val_std: "b64_val (std_unit u) = b64_val u"
  by (auto simp: std_unit_def b64_val_def)

lemma map_filter_std: "List.map_filter b64_val (map std_unit s) = List.map_filter b64_val s"
  by (induction s) (simp_all add: map_filter_simps b64_val_std split: option.splits)

lemma map_filter_replicate: "f x = None \<Longrightarrow> List.map_filter f (replicate n x) = []"
  by (induction n) (simp_all add: map_filter_simps)

lemma map_filter_append: "List.map_filter f (xs @ ys) = List.map_filter f xs @ List.map_filter f ys"
  by (simp add: List.map_filter_def)

lemma b64_std_decode: "b64_decode (b64_encode bs) = bs"
proof -
  have "b64_val 61 = None" by (simp add: b64_val_def)
  then have "b64_decode (b64_encode bs) = b64_decode (b64url_encode bs)"
    by (simp add: b64_decode_def b64_encode_def map_filter_append map_filter_std map_filter_replicate)
  then show ?thesis by (simp add: b64_decode_encode)
qed

lemma omap_id: "omap (\<lambda>h. h) (map Some hs) = Some hs"
  by (induction hs) simp_all

lemma omap_strings: "omap (\<lambda>h. buffer_from P (Some h)) (map (\<lambda>h. JStr (b64url_encode h)) hs) = Some hs"
  by (induction hs) (simp_all add: b64_decode_encode)

text \<open>A registration of the signing key itself, under the head the log signs.\<close>

definition own_registration :: "registry_options \<Rightarrow> bool" where
  "own_registration opts \<longleftrightarrow> ro_key_id opts = None \<and> ro_pub opts = None \<and> ro_log_id opts = None \<and> \<not> ro_forge_path opts
     \<and> or_else (ro_index opts) 3 < or_else (ro_size opts) 7 \<and> or_else (ro_size opts) 7 < 256 ^ 8
     \<and> 0 \<le> or_else (ro_head_timestamp opts) (CAPTURE - 3600000) \<and> or_else (ro_head_timestamp opts) (CAPTURE - 3600000) < 256 ^ 8"

lemma registry_written:
  assumes "hash_ok P" "trusts P logs lk" "own_registration opts"
  shows "\<exists>att. registry_for P sk lk opts = Some att \<and> verify_registry P att (key_id P (sk_spki sk)) (sk_spki sk) logs =
    Inr (Registry_ok (Some (JStr (or_else (ro_secure_hw opts) (js ''tee'')))) (Some (JNum (NInt (CAPTURE - DAY))))
      (or_else (ro_head_timestamp opts) (CAPTURE - 3600000)))"
proof -
  define i n t where "i = or_else (ro_index opts) 3" and "n = or_else (ro_size opts) 7"
    and "t = or_else (ro_head_timestamp opts) (CAPTURE - 3600000)"
  have o: "ro_key_id opts = None" "ro_pub opts = None" "ro_log_id opts = None" "\<not> ro_forge_path opts"
    and b: "i < n" "n < 256 ^ 8" "0 \<le> t" "t < 256 ^ 8"
    using assms(3) by (simp_all add: own_registration_def i_def n_def t_def)
  have kid: "leaf_key_id (key_id P (sk_spki sk)) = Some (hex_of (sha256 P (sk_spki sk)))"
    using assms(1) by (simp add: leaf_key_id_def key_id_def b64_decode_encode hash_ok_def)
  let ?leaf = "registry_leaf P sk opts"
  obtain leaf_bytes where leaf: "jcs ?leaf = Some leaf_bytes" by (simp add: jcs_def registry_leaf_def o kid)
  obtain root path where tree: "tree_with P (leaf_hash P leaf_bytes) i n = (Some root, map Some path)"
      "verify_inclusion P (leaf_hash P leaf_bytes) (json_nat i) (json_nat n) path root"
    and len: "length root = 32" "\<forall>h \<in> set path. length h = 32"
  proof (rule tree_with_verifies [OF b(1), of P "leaf_hash P leaf_bytes"])
    fix root path
    assume t: "tree_with P (leaf_hash P leaf_bytes) i n = (Some root, map Some path)"
      "verify_inclusion P (leaf_hash P leaf_bytes) (json_nat i) (json_nat n) path root"
      "hash_ok P \<Longrightarrow> length (leaf_hash P leaf_bytes) = 32 \<Longrightarrow> length root = 32 \<and> (\<forall>h \<in> set path. length h = 32)"
    have "length (leaf_hash P leaf_bytes) = 32" using assms(1) by (simp add: leaf_hash_def hash_ok_def)
    with t assms(1) show thesis by (intro that) blast+
  qed
  have n64: "put_be 8 (int n) = Some (be_bytes 8 n)" by (rule put_be_int) (rule b(2))
  have t64: "put_be 8 t = Some (be_bytes 8 (nat t))" using b(3,4) by (simp add: put_be_Some)
  obtain message where head: "tree_head_message (json_nat n) (Some (JNum (NInt t))) root = Inr message"
    by (simp add: tree_head_message_def u64be_json_def json_nat_def u64be_def n64 t64)
  obtain l key where log: "find_log logs (Some (JStr (LOG_ID P lk))) = Some l" "log_key P l = Some key"
    "\<And>m. verify_es256 P m (sk_sign lk m) key" using assms(2) by (auto simp: trusts_def)
  define att where "att = JObj [(js ''log_id'', JStr (LOG_ID P lk)), (js ''leaf_index'', JNum (NInt (int i))), (js ''leaf'', ?leaf),
       (js ''inclusion_path'', JArr (map (\<lambda>h. JStr (b64url_encode h)) path)),
       (js ''tree_head'', JObj [(js ''tree_size'', JNum (NInt (int n))), (js ''timestamp'', JNum (NInt t)),
          (js ''root_hash'', JStr (b64url_encode root)), (js ''signature'', JStr (b64url_encode (sk_sign lk message)))])]"
  have w: "registry_for P sk lk opts = Some att"
    unfolding registry_for_def Let_def i_def [symmetric] n_def [symmetric] t_def [symmetric] leaf
    by (simp add: tree(1) o omap_id head att_def ok_bytes_def)
  have f: "head_fields P att = Some (root, sk_sign lk message, path)"
    by (simp add: head_fields_def att_def b64_decode_encode omap_strings arr_of_def)
  have c: "check_leaf P ?leaf (key_id P (sk_spki sk)) (sk_spki sk) (Some (JNum (NInt t))) =
      Inr (Registry_ok (Some (JStr (or_else (ro_secure_hw opts) (js ''tee'')))) (Some (JNum (NInt (CAPTURE - DAY)))) t)"
    by (simp add: check_leaf_def registry_leaf_def o kid b64_std_decode int_of_def)
  have m: "member att ''log_id'' = Some (JStr (LOG_ID P lk))" "member att ''leaf'' = Some ?leaf" "member att ''leaf_index'' = json_nat i"
    "member (the (member att ''tree_head'')) ''tree_size'' = json_nat n"
    "member (the (member att ''tree_head'')) ''timestamp'' = Some (JNum (NInt t))"
    by (simp_all add: att_def json_nat_def)
  have "verify_registry P att (key_id P (sk_spki sk)) (sk_spki sk) logs =
      Inr (Registry_ok (Some (JStr (or_else (ro_secure_hw opts) (js ''tee'')))) (Some (JNum (NInt (CAPTURE - DAY)))) t)"
    using len by (simp add: verify_registry_def m log f Let_def head jcs_of_def leaf tree(2) c)
  with w show ?thesis unfolding t_def by blast
qed

section \<open>The anchor\<close>

record anchor_options =
  ao_forge_path :: bool
  ao_index :: "nat option"
  ao_size :: "nat option"

definition anchor_for :: "platform \<Rightarrow> json \<Rightarrow> anchor_options \<Rightarrow> json option" where
  "anchor_for P proof opts = (let index = or_else (ao_index opts) 2; n = or_else (ao_size opts) 5 in do {
     core \<leftarrow> core_hash P proof;
     let (head, siblings) = batch_with P core index n;
     root \<leftarrow> head;
     path \<leftarrow> omap (\<lambda>h. h) (if ao_forge_path opts then map (\<lambda>_. Some (sha256 P (of_text ''not the sibling''))) siblings else siblings);
     Some (JObj [(js ''chain'', JStr (js ''base-sepolia'')),
       (js ''tx'', JStr (js ''0x'' @ hex_of (sha256 P (of_text ''the anchoring transaction'')))),
       (js ''block'', JNum (NInt 46561942)), (js ''anchor_id'', JNum (NInt 0)), (js ''index'', JNum (NInt (int index))),
       (js ''tree_size'', JNum (NInt (int n))), (js ''root'', JStr (b64url_encode root)),
       (js ''merkle_path'', JArr (map (\<lambda>h. JStr (b64url_encode h)) path))]) })"

text \<open>What the contract recorded: the root and the size the attachment names, at some block.\<close>

definition recorded :: "json \<Rightarrow> int option \<Rightarrow> chain_read option" where
  "recorded att block_time = (case (str_of (member att ''root''), int_of (member att ''tree_size'')) of
     (Some root, Some n) \<Rightarrow> Some \<lparr>cr_root = root, cr_tree_size = n, cr_block_time = block_time\<rparr> | _ \<Rightarrow> None)"

lemma anchor_written:
  assumes "hash_ok P" "core_hash P proof = Some core" "\<not> ao_forge_path opts" "or_else (ao_index opts) 2 < or_else (ao_size opts) 5"
  shows "\<exists>att. anchor_for P proof opts = Some att \<and> verify_anchor P att core None = Anchor_ok False None
    \<and> verify_anchor P att core (recorded att block_time) = Anchor_ok True block_time"
proof -
  define i n where "i = or_else (ao_index opts) 2" and "n = or_else (ao_size opts) 5"
  have b: "i < n" using assms(4) by (simp add: i_def n_def)
  obtain root path where tree: "batch_with P core i n = (Some root, map Some path)"
      "verify_inclusion P (leaf_hash P core) (json_nat i) (json_nat n) path root"
    and len: "length root = 32" "\<forall>h \<in> set path. length h = 32"
  proof (rule batch_with_verifies [OF b, of P core])
    fix root path
    assume "batch_with P core i n = (Some root, map Some path)"
      "verify_inclusion P (leaf_hash P core) (json_nat i) (json_nat n) path root"
      "hash_ok P \<Longrightarrow> length root = 32 \<and> (\<forall>h \<in> set path. length h = 32)"
    with assms(1) show thesis by (intro that) blast+
  qed
  define att where "att = JObj [(js ''chain'', JStr (js ''base-sepolia'')),
       (js ''tx'', JStr (js ''0x'' @ hex_of (sha256 P (of_text ''the anchoring transaction'')))),
       (js ''block'', JNum (NInt 46561942)), (js ''anchor_id'', JNum (NInt 0)), (js ''index'', JNum (NInt (int i))),
       (js ''tree_size'', JNum (NInt (int n))), (js ''root'', JStr (b64url_encode root)),
       (js ''merkle_path'', JArr (map (\<lambda>h. JStr (b64url_encode h)) path))]"
  have w: "anchor_for P proof opts = Some att"
    unfolding anchor_for_def Let_def i_def [symmetric] n_def [symmetric] by (simp add: assms(2,3) tree(1) omap_id att_def)
  have f: "anchor_fields P att = Some (root, path)"
    by (simp add: anchor_fields_def att_def b64_decode_encode omap_strings arr_of_def)
  have m: "member att ''index'' = json_nat i" "member att ''tree_size'' = json_nat n" by (simp_all add: att_def json_nat_def)
  have r: "recorded att block_time = Some \<lparr>cr_root = b64url_encode root, cr_tree_size = int n, cr_block_time = block_time\<rparr>"
    by (simp add: recorded_def m json_nat_def int_of_def) (simp add: att_def str_of_def)
  have v: "verify_anchor P att core read = (case read of None \<Rightarrow> Anchor_ok False None
      | Some r \<Rightarrow> if Some (JNum (NInt (cr_tree_size r))) \<noteq> json_nat n \<or> b64_decode (cr_root r) \<noteq> root
          then Anchor_bad Anchor_differs_from_chain else Anchor_ok True (cr_block_time r))" for read
    using len by (simp add: verify_anchor_def f m tree(2) cong: option.case_cong)
  show ?thesis using w v [of None] v [of "recorded att block_time"] by (simp add: r json_nat_def b64_decode_encode)
qed

section \<open>Statements about a core\<close>

record integrity_options =
  io_verdict :: "string option"
  io_source :: "string option"
  io_forge :: bool
  io_other_key :: bool

definition integrity_body :: "string \<Rightarrow> string \<Rightarrow> members" where
  "integrity_body source verdict = [(js ''source'', JStr (js source)), (js ''verdict'', JStr (js verdict)),
     (js ''evaluated_at'', JNum (NInt (CAPTURE + 1000)))]"

definition with_sig :: "members \<Rightarrow> bytes \<Rightarrow> json" where
  "with_sig body sg = JObj (spread body [(js ''sig'', JStr (b64url_encode sg))])"

definition integrity_for :: "platform \<Rightarrow> signing_key \<Rightarrow> signing_key \<Rightarrow> json \<Rightarrow> integrity_options \<Rightarrow> json option" where
  "integrity_for P lk other proof opts = (let source = or_else (io_source opts) ''playIntegrity''; verdict = or_else (io_verdict opts) ''hardware'';
       body = integrity_body source verdict; key = (if io_other_key opts then other else lk) in do {
     core \<leftarrow> core_hash P proof;
     message \<leftarrow> ok_bytes (integrity_message core (JObj (if io_forge opts then integrity_body source ''basic'' else body)));
     Some (with_sig body (sk_sign key message)) })"

record corroboration_options =
  co_method :: "string option"
  co_result :: "string option"
  co_radius :: "int option option"
  co_key :: "signing_key option"
  co_over :: "json option"

text \<open>\<open>radius\<close> is three-valued: not given (2000), \<open>null\<close> (no member) or a number.\<close>

definition corroboration_body :: "corroboration_options \<Rightarrow> members" where
  "corroboration_body opts = [(js ''method'', JStr (js (or_else (co_method opts) ''camara-location-verification''))),
       (js ''result'', JStr (js (or_else (co_result opts) ''match'')))]
     @ (case co_radius opts of Some None \<Rightarrow> [] | Some (Some r) \<Rightarrow> [(js ''radius_m'', JNum (NInt r))]
         | None \<Rightarrow> [(js ''radius_m'', JNum (NInt 2000))])
     @ [(js ''at'', JNum (NInt (CAPTURE + 42000))), (js ''operator_ref'', JStr (js ''op-it-01''))]"

definition corroboration_for :: "platform \<Rightarrow> signing_key \<Rightarrow> json \<Rightarrow> corroboration_options \<Rightarrow> json option" where
  "corroboration_for P lk proof opts = do {
     core \<leftarrow> core_hash P (or_else (co_over opts) proof);
     message \<leftarrow> ok_bytes (corroboration_message core (JObj (corroboration_body opts)));
     Some (with_sig (corroboration_body opts) (sk_sign (or_else (co_key opts) lk) message)) }"

definition status_attachment :: "platform \<Rightarrow> signing_key \<Rightarrow> json \<Rightarrow> int \<Rightarrow> json \<Rightarrow> json option" where
  "status_attachment P lk proof fetched_at entries = do {
     core \<leftarrow> core_hash P proof;
     message \<leftarrow> ok_bytes (attestation_status_message core entries fetched_at);
     Some (JObj [(js ''source'', JStr (js ''googleStatusList'')), (js ''fetched_at'', JNum (NInt fetched_at)), (js ''entries'', entries),
       (js ''sig'', JStr (b64url_encode (sk_sign lk message)))]) }"

definition status_statement :: "platform \<Rightarrow> signing_key \<Rightarrow> signing_key \<Rightarrow> int \<Rightarrow> nat \<Rightarrow> int \<Rightarrow> key_status_statement option" where
  "status_statement P sk lk instant status n = do {
     message \<leftarrow> ok_bytes (key_status_message (b64_decode (key_id P (sk_spki sk))) instant n status);
     Some \<lparr>ks_log_id = LOG_ID P lk, ks_at = instant, ks_tree_size = n, ks_status = int status,
       ks_signature = b64url_encode (sk_sign lk message)\<rparr> }"

lemma one_of_name: "n \<in> set names \<Longrightarrow> one_of names (Some (JStr (js n))) = Some n"
  unfolding one_of_def by (induction names) auto

lemma with_sig_members:
  assumes "js ''sig'' \<notin> fst ` set body"
  shows "member (with_sig body sg) ''sig'' = Some (JStr (b64url_encode sg))"
    "n \<noteq> ''sig'' \<Longrightarrow> member (with_sig body sg) n = map_of body (js n)" "without_sig (with_sig body sg) = JObj body"
proof -
  have w: "with_sig body sg = JObj (body @ [(js ''sig'', JStr (b64url_encode sg))])" using assms by (simp add: with_sig_def)
  have "map_of body (js ''sig'') = None" using assms by (simp add: map_of_eq_None_iff)
  then show "member (with_sig body sg) ''sig'' = Some (JStr (b64url_encode sg))" by (simp add: w map_add_def)
  show "member (with_sig body sg) n = map_of body (js n)" if "n \<noteq> ''sig''" using that by (simp add: w map_add_def split: option.split)
  have "filter (\<lambda>m. fst m \<noteq> js ''sig'') body = body" using assms by (force intro: filter_True)
  then show "without_sig (with_sig body sg) = JObj body" by (simp add: w)
qed

lemma integrity_written:
  assumes "trusts P logs lk" "core_hash P proof = Some core" "\<not> io_forge opts" "\<not> io_other_key opts"
    and "or_else (io_source opts) ''playIntegrity'' = source" "source \<in> set INTEGRITY_SOURCES"
    and "or_else (io_verdict opts) ''hardware'' = verdict" "verdict \<in> set INTEGRITY_VERDICTS"
  shows "\<exists>att. integrity_for P lk other proof opts = Some att \<and>
    verify_integrity P att core logs = Inr (Integrity_ok source verdict (CAPTURE + 1000))"
proof -
  let ?body = "integrity_body source verdict"
  obtain message where m: "integrity_message core (JObj ?body) = Inr message"
    by (simp add: integrity_message_def jcs_of_def jcs_def integrity_body_def del: serialize.simps)
  let ?att = "with_sig ?body (sk_sign lk message)"
  have w: "integrity_for P lk other proof opts = Some ?att"
    using assms(2-5,7) m by (simp add: integrity_for_def Let_def ok_bytes_def)
  have s: "js ''sig'' \<notin> fst ` set ?body" by (simp add: integrity_body_def)
  have k: "member ?att ''source'' = Some (JStr (js source))" "member ?att ''verdict'' = Some (JStr (js verdict))"
    "member ?att ''evaluated_at'' = Some (JNum (NInt (CAPTURE + 1000)))"
    using with_sig_members(2) [OF s] by (simp_all add: integrity_body_def)
  have n: "integrity_message core ?att = Inr message"
    using m by (simp add: integrity_message_def with_sig_members(3) [OF s]) (simp add: integrity_body_def)
  have "verify_integrity P ?att core logs = Inr (Integrity_ok source verdict (CAPTURE + 1000))"
    by (simp add: verify_integrity_def k one_of_name assms(6,8) with_sig_members(1) [OF s] n b64_decode_encode trusts_signed [OF assms(1)]
        int_of_def safe_int_def max_safe_def CAPTURE_def)
  with w show ?thesis by blast
qed

lemma corroboration_written:
  assumes "trusts P logs lk" "core_hash P proof = Some core" "co_key opts = None" "co_over opts = None"
    and "or_else (co_method opts) ''camara-location-verification'' = method" "method \<in> set CORROBORATION_METHODS"
    and "or_else (co_result opts) ''match'' = result" "result \<in> set CORROBORATION_RESULTS"
    and "radius = (case co_radius opts of None \<Rightarrow> Some 2000 | Some r \<Rightarrow> r)"
    and "method = ''camara-location-verification'' \<Longrightarrow> \<exists>r \<ge> 1. radius = Some r"
  shows "\<exists>att. corroboration_for P lk proof opts = Some att \<and>
    verify_location_corroboration P att core logs = Inr (Corroborated method result radius)"
proof -
  let ?body = "corroboration_body opts"
  have ws: "without_sig (JObj ?body) = JObj ?body" by (simp add: corroboration_body_def split: option.splits)
  have "\<not> non_finite (JObj ?body)" by (auto simp: corroboration_body_def split: option.splits)
  then obtain message where m: "corroboration_message core (JObj ?body) = Inr message"
    by (simp add: corroboration_message_def ws jcs_of_def jcs_def del: serialize.simps without_sig.simps non_finite.simps)
  let ?att = "with_sig ?body (sk_sign lk message)"
  have w: "corroboration_for P lk proof opts = Some ?att" using assms(2-4) m by (simp add: corroboration_for_def ok_bytes_def)
  have s: "js ''sig'' \<notin> fst ` set ?body" by (cases "co_radius opts") (auto simp: corroboration_body_def split: option.splits)
  have k: "member ?att ''method'' = Some (JStr (js method))" "member ?att ''result'' = Some (JStr (js result))"
    "int_of (member ?att ''at'') = Some (CAPTURE + 42000)" "int_of (member ?att ''radius_m'') = radius"
    using with_sig_members(2) [OF s] assms(5,7,9) by (simp_all add: corroboration_body_def map_add_def int_of_def split: option.splits)
  have n: "corroboration_message core ?att = Inr message"
    using m by (simp add: corroboration_message_def with_sig_members(3) [OF s] ws del: without_sig.simps)
  have l: "logs \<noteq> []" using assms(1) by (auto simp: trusts_def find_log_def)
  have r: "\<not> (method = ''camara-location-verification'' \<and> (case radius of None \<Rightarrow> True | Some r \<Rightarrow> r < 1))"
    using assms(10) by auto
  have "verify_location_corroboration P ?att core logs = Inr (Corroborated method result radius)"
    using l by (simp add: verify_location_corroboration_def k one_of_name assms(6,8) with_sig_members(1) [OF s] n b64_decode_encode
        trusts_signed [OF assms(1)] Let_def if_not_P [OF r])
  with w show ?thesis by blast
qed

lemma status_attachment_written:
  assumes "trusts P logs lk" "core_hash P proof = Some core" "\<not> non_finite (JArr entries)" "0 \<le> t" "safe_int t"
  shows "\<exists>att. status_attachment P lk proof t (JArr entries) = Some att \<and> frozen_revocation P att core logs serials =
    (case frozen_loop (by_serial entries) serials of (rs, incomplete) \<Rightarrow> Inr (Checked rs incomplete))"
proof -
  have t: "put_be 8 t = Some (be_bytes 8 (nat t))" using assms(4,5) by (simp add: put_be_Some safe_int_def max_safe_def)
  obtain message where m: "attestation_status_message core (JArr entries) t = Inr message"
    using assms(3) by (simp add: attestation_status_message_def jcs_of_def jcs_def u64be_def t del: serialize.simps)
  define att where "att = JObj [(js ''source'', JStr (js ''googleStatusList'')), (js ''fetched_at'', JNum (NInt t)), (js ''entries'', JArr entries),
       (js ''sig'', JStr (b64url_encode (sk_sign lk message)))]"
  have w: "status_attachment P lk proof t (JArr entries) = Some att" by (simp add: status_attachment_def assms(2) m ok_bytes_def att_def)
  have k: "member att ''source'' = Some (JStr (js ''googleStatusList''))" "arr_of (member att ''entries'') = Some entries"
    "int_of (member att ''fetched_at'') = Some t" "member att ''sig'' = Some (JStr (b64url_encode (sk_sign lk message)))"
    by (simp_all add: att_def int_of_def arr_of_def)
  have "frozen_revocation P att core logs serials = (case frozen_loop (by_serial entries) serials of (rs, incomplete) \<Rightarrow> Inr (Checked rs incomplete))"
    using assms(4,5) by (simp add: frozen_revocation_def k m b64_decode_encode trusts_signed [OF assms(1)])
  with w show ?thesis by blast
qed

lemma status_statement_written:
  assumes "hash_ok P" "trusts P logs lk" "status \<le> 2" "0 \<le> instant" "instant < 256 ^ 8" "0 \<le> n" "n < 256 ^ 8"
  shows "\<exists>st. status_statement P sk lk instant status n = Some st \<and>
    verify_key_status P st (sha256 P (sk_spki sk)) instant logs = Inr (Key_status status)"
proof -
  have b: "put_be 8 instant = Some (be_bytes 8 (nat instant))" "put_be 8 n = Some (be_bytes 8 (nat n))"
    using assms(4-7) by (simp_all add: put_be_Some)
  obtain message where m: "key_status_message (sha256 P (sk_spki sk)) instant n status = Inr message"
    by (simp add: key_status_message_def u64be_def b)
  obtain l key where log: "find_log logs (Some (JStr (LOG_ID P lk))) = Some l" "log_key P l = Some key"
    "\<And>m. verify_es256 P m (sk_sign lk m) key" using assms(2) by (auto simp: trusts_def)
  have k: "b64_decode (key_id P (sk_spki sk)) = sha256 P (sk_spki sk)" by (simp add: key_id_def b64_decode_encode)
  have s: "status = 0 \<or> status = 1 \<or> status = 2" using assms(3) by linarith
  show ?thesis using s by (auto simp: status_statement_def k m ok_bytes_def verify_key_status_def log b64_decode_encode)
qed

section \<open>The properties\<close>

text \<open>C6. A registration the log writes is one the verifier accepts: for a trusted log whose signatures verify, any index in any
  tree of at most 2^64 leaves and any head timestamp of the field, the attachment is built, its path and head verify, and the
  outcome is the level, the registration instant and the head timestamp that were written. The anchor of a core hash is
  likewise accepted, at every index of every batch: as a path only without a reading of the chain, and as
  anchored at the block's time with what the contract recorded.\<close>

theorem written_registration_accepted:
  assumes "hash_ok P" "trusts P logs lk" "own_registration opts" "core_hash P proof = Some core"
    and "\<not> ao_forge_path batch" "or_else (ao_index batch) 2 < or_else (ao_size batch) 5"
  shows "(\<exists>att. registry_for P sk lk opts = Some att \<and> verify_registry P att (key_id P (sk_spki sk)) (sk_spki sk) logs =
      Inr (Registry_ok (Some (JStr (or_else (ro_secure_hw opts) (js ''tee'')))) (Some (JNum (NInt (CAPTURE - DAY))))
        (or_else (ro_head_timestamp opts) (CAPTURE - 3600000))))
    \<and> (\<exists>att. anchor_for P proof batch = Some att \<and> verify_anchor P att core None = Anchor_ok False None
      \<and> verify_anchor P att core (recorded att block_time) = Anchor_ok True block_time)"
  using registry_written [OF assms(1-3)] anchor_written [OF assms(1,4-6)] by blast

definition toy_logs :: "trusted_log list" where
  "toy_logs = [\<lparr>log_id = LOG_ID tail_platform toy_signer, log_spki = [], app_signing_digests = None\<rparr>]"

lemma toy_trusts: "trusts tail_platform toy_logs toy_signer"
  by (simp add: trusts_def toy_logs_def find_log_def log_key_def public_key_from_spki_def tail_platform_def verify_es256_def toy_signer_def)

definition plain_registration :: registry_options where
  "plain_registration = \<lparr>ro_key_id = None, ro_pub = None, ro_secure_hw = None, ro_head_timestamp = None, ro_log_id = None,
     ro_forge_path = False, ro_index = None, ro_size = None\<rparr>"

lemma plain_own: "own_registration plain_registration"
  by (simp add: own_registration_def plain_registration_def CAPTURE_def)

lemma empty_core: "\<exists>core. core_hash tail_platform (JObj []) = Some core"
  by (simp add: core_hash_def core_bytes_def jcs_def extract_core_def CORE_KEYS_def List.map_filter_def)

theorem written_registration_accepted_witness:
  "\<exists>att anchor core. registry_for tail_platform toy_signer toy_signer plain_registration = Some att
    \<and> verify_registry tail_platform att (key_id tail_platform [2]) [2] toy_logs =
        Inr (Registry_ok (Some (JStr (js ''tee''))) (Some (JNum (NInt 1757246400000))) 1757329200000)
    \<and> anchor_for tail_platform (JObj []) \<lparr>ao_forge_path = False, ao_index = None, ao_size = None\<rparr> = Some anchor
    \<and> core_hash tail_platform (JObj []) = Some core \<and> verify_anchor tail_platform anchor core (recorded anchor (Some 7)) = Anchor_ok True (Some 7)"
proof -
  obtain core where c: "core_hash tail_platform (JObj []) = Some core" using empty_core by blast
  have o: "or_else (ro_secure_hw plain_registration) (js ''tee'') = js ''tee''" "CAPTURE - DAY = 1757246400000"
    "or_else (ro_head_timestamp plain_registration) (CAPTURE - 3600000) = 1757329200000" "sk_spki toy_signer = [2]"
    by (simp_all add: plain_registration_def CAPTURE_def DAY_def toy_signer_def)
  have b: "\<not> ao_forge_path \<lparr>ao_forge_path = False, ao_index = None, ao_size = None\<rparr>"
    "or_else (ao_index \<lparr>ao_forge_path = False, ao_index = None, ao_size = None\<rparr>) 2
      < or_else (ao_size \<lparr>ao_forge_path = False, ao_index = None, ao_size = None\<rparr>) 5" by simp_all
  show ?thesis
    using written_registration_accepted [OF tail_platform_hash toy_trusts plain_own c b, of toy_signer "Some 7", unfolded o] c by blast
qed

text \<open>C7. The statements a log signs about a core are each accepted with the content that was written: the integrity verdict with
  its source, the position corroboration with its method, result and radius, the frozen status of the attestation chain, and
  the status of the signing key at the instant asked about.\<close>

theorem written_statements_accepted:
  assumes "hash_ok P" "trusts P logs lk" "core_hash P proof = Some core"
    and "source \<in> set INTEGRITY_SOURCES" "verdict \<in> set INTEGRITY_VERDICTS"
    and "method \<in> set CORROBORATION_METHODS" "result \<in> set CORROBORATION_RESULTS" "1 \<le> radius"
    and "\<not> non_finite (JArr entries)" "0 \<le> t" "safe_int t" "status \<le> 2" "0 \<le> n" "n < 256 ^ 8"
  shows "(\<exists>att. integrity_for P lk other proof \<lparr>io_verdict = Some verdict, io_source = Some source, io_forge = False, io_other_key = False\<rparr> = Some att
      \<and> verify_integrity P att core logs = Inr (Integrity_ok source verdict (CAPTURE + 1000)))
    \<and> (\<exists>att. corroboration_for P lk proof \<lparr>co_method = Some method, co_result = Some result, co_radius = Some (Some radius),
          co_key = None, co_over = None\<rparr> = Some att
      \<and> verify_location_corroboration P att core logs = Inr (Corroborated method result (Some radius)))
    \<and> (\<exists>att. status_attachment P lk proof t (JArr entries) = Some att
      \<and> frozen_revocation P att core logs serials = (case frozen_loop (by_serial entries) serials of (rs, incomplete) \<Rightarrow> Inr (Checked rs incomplete)))
    \<and> (\<exists>st. status_statement P sk lk t status n = Some st
      \<and> verify_key_status P st (sha256 P (sk_spki sk)) t logs = Inr (Key_status status))"
proof (intro conjI)
  have "t < 256 ^ 8" using assms(11) by (simp add: safe_int_def max_safe_def)
  then show "\<exists>st. status_statement P sk lk t status n = Some st
      \<and> verify_key_status P st (sha256 P (sk_spki sk)) t logs = Inr (Key_status status)"
    using status_statement_written assms(1,2,10,12-14) by blast
qed (rule integrity_written corroboration_written status_attachment_written; use assms in simp)+

theorem written_statements_accepted_witness:
  "\<exists>core att st. verify_integrity tail_platform att core toy_logs = Inr (Integrity_ok ''playIntegrity'' ''hardware'' 1757332801000)
    \<and> verify_key_status tail_platform st (sha256 tail_platform [2]) 5 toy_logs = Inr (Key_status 1)"
proof -
  obtain core where c: "core_hash tail_platform (JObj []) = Some core" using empty_core by blast
  have n: "''playIntegrity'' \<in> set INTEGRITY_SOURCES" "''hardware'' \<in> set INTEGRITY_VERDICTS"
    "''camara-sim-swap'' \<in> set CORROBORATION_METHODS" "''match'' \<in> set CORROBORATION_RESULTS" "(1 :: int) \<le> 1" "\<not> non_finite (JArr [])"
    "(0 :: int) \<le> 5" "safe_int 5" "1 \<le> (2 :: nat)" "0 \<le> (7 :: int)" "(7 :: int) < 256 ^ 8"
    by (simp_all add: INTEGRITY_SOURCES_def INTEGRITY_VERDICTS_def CORROBORATION_METHODS_def CORROBORATION_RESULTS_def safe_int_def max_safe_def)
  show ?thesis
    using written_statements_accepted [OF tail_platform_hash toy_trusts c n, of toy_signer "[]" toy_signer]
    by (auto simp: CAPTURE_def toy_signer_def)
qed

end
