(* ===== verification/Corpus.thy ===== *)
theory Corpus
  imports Vault_Seal "HOL-Library.Product_Lexorder"
begin

text \<open>
  The corpus as bytes: the vector names (\<open>tools/src/corpus-names.ts\<close>) and its manifest
  (\<open>tools/src/manifest.ts\<close>), a pure function of the directory \<open>vectors/\<close>. A directory is the list of its
  entries as \<open>readdirSync\<close> gives them; reading text and JSON (\<open>readFileSync\<close> with \<open>utf8\<close>, \<open>JSON.parse\<close>) is
  the record \<open>text_lib\<close>.
\<close>

section \<open>Vector names\<close>

definition is_vector_dir :: "jsstr \<Rightarrow> bool" where
  "is_vector_dir name = (2 \<le> length (takeWhile is_digit name) \<and> take 1 (dropWhile is_digit name) = [45])"

text \<open>\<open>parseInt(name, 10)\<close> of a name that starts with digits.\<close>

definition prefix_number :: "jsstr \<Rightarrow> nat" where
  "prefix_number name = digits_val (takeWhile is_digit name)"

definition by_number :: "jsstr \<Rightarrow> jsstr \<Rightarrow> int" where
  "by_number a b = (let d = int (prefix_number a) - int (prefix_number b) in
     if d \<noteq> 0 then d else if a < b then -1 else if b < a then 1 else 0)"

definition in_order :: "jsstr list \<Rightarrow> jsstr list" where
  "in_order names = sort_key (\<lambda>n. (prefix_number n, n)) (filter is_vector_dir names)"

text \<open>The comparator is the order of the keys, so the sorted list is the one \<open>sort(byNumber)\<close> gives.\<close>

lemma by_number_less: "by_number a b < 0 \<longleftrightarrow> (prefix_number a, a) < (prefix_number b, b)"
  by (auto simp: by_number_def Let_def less_prod_def)

lemma by_number_zero: "by_number a b = 0 \<longleftrightarrow> a = b"
  by (auto simp: by_number_def Let_def)

lemma in_order_set: "set (in_order names) = {n \<in> set names. is_vector_dir n}"
  by (auto simp: in_order_def)

lemma in_order_sorted: "sorted_wrt (\<lambda>a b. by_number a b \<le> 0) (in_order names)"
proof -
  have "sorted (map (\<lambda>n. (prefix_number n, n)) (in_order names))" by (simp add: in_order_def)
  then have "sorted_wrt (\<lambda>a b. (prefix_number a, a) \<le> (prefix_number b, b)) (in_order names)" by (simp add: sorted_map)
  moreover have "(prefix_number a, a) \<le> (prefix_number b, b) \<longleftrightarrow> by_number a b \<le> 0" for a b
    using by_number_less [of a b] by_number_zero [of a b] by (auto simp: order_le_less)
  ultimately show ?thesis by simp
qed

text \<open>The order in which the directory is read does not matter.\<close>

lemma in_order_mset: "mset names = mset names' \<Longrightarrow> in_order names = in_order names'"
proof -
  assume "mset names = mset names'"
  then have m: "mset (in_order names) = mset (in_order names')" by (simp add: in_order_def mset_filter)
  let ?key = "\<lambda>n. (prefix_number n, n)"
  have "map ?key (in_order names) = map ?key (in_order names')"
    by (rule properties_for_sort [symmetric, THEN trans [OF _ sorted_sort_id]])
      (use m in \<open>simp_all add: in_order_def\<close>)
  then show ?thesis by (simp add: map_inj_on inj_on_def)
qed

section \<open>The directory tree\<close>

datatype node = File bytes | Dir "(jsstr \<times> node) list"

definition DS_STORE :: jsstr where "DS_STORE = js ''.DS_Store''"

definition under :: "jsstr \<Rightarrow> jsstr \<Rightarrow> jsstr" where
  "under p name = (if p = [] then name else p @ 47 # name)"

text \<open>\<open>filesOf\<close>: the paths relative to the directory, in the order of the walk and then sorted.\<close>

fun walk_node :: "jsstr \<Rightarrow> node \<Rightarrow> (jsstr \<times> bytes) list" where
  "walk_node p (File bs) = [(p, bs)]"
| "walk_node p (Dir es) =
     concat (map (\<lambda>(name, n). if name = DS_STORE then [] else walk_node (under p name) n) (sort_key fst es))"

definition files_of :: "node option \<Rightarrow> fault + (jsstr \<times> bytes) list" where
  "files_of dir = (case dir of None \<Rightarrow> Inr [] | Some (File _) \<Rightarrow> Inl Plain_error
     | Some (Dir es) \<Rightarrow> Inr (sort_key fst (walk_node [] (Dir es))))"

definition entry_bytes :: "jsstr \<times> bytes \<Rightarrow> bytes" where
  "entry_bytes e = utf8_encode (fst e) @ 0 # utf8_encode (nat_text (length (snd e))) @ 0 # snd e"

definition hash_input :: "(jsstr \<times> bytes) list \<Rightarrow> bytes" where
  "hash_input files = concat (map entry_bytes files)"

definition hash_of :: "platform \<Rightarrow> (jsstr \<times> bytes) list \<Rightarrow> jsstr" where
  "hash_of P files = hex_of (sha256 P (hash_input files))"

lemma files_sorted: "files_of dir = Inr fs \<Longrightarrow> sorted (map fst fs)"
  by (auto simp: files_of_def split: option.splits node.splits)

text \<open>An entry is read back from the front of what follows it: the path up to its NUL, the length up to the next.\<close>

definition entry_ok :: "jsstr \<times> bytes \<Rightarrow> bool" where
  "entry_ok e \<longleftrightarrow> well_formed (fst e) \<and> 0 \<notin> set (fst e)"

definition read_entry :: "bytes \<Rightarrow> ((jsstr \<times> bytes) \<times> bytes) option" where
  "read_entry bs = do {
     path \<leftarrow> utf8_decode (takeWhile (\<lambda>b. b \<noteq> 0) bs);
     let rest = drop 1 (dropWhile (\<lambda>b. b \<noteq> 0) bs);
     len \<leftarrow> utf8_decode (takeWhile (\<lambda>b. b \<noteq> 0) rest);
     let content = drop 1 (dropWhile (\<lambda>b. b \<noteq> 0) rest);
     Some ((path, take (digits_val len) content), drop (digits_val len) content) }"

lemma byte_zero: "n < 256 \<Longrightarrow> (of_nat n :: byte) = 0 \<longleftrightarrow> n = 0"
  using byte_of_nat_unat [of n] by (metis mod_less of_nat_0 unat_eq_0)

lemma cp_bytes_nonzero: "c \<noteq> 0 \<Longrightarrow> scalar c \<Longrightarrow> 0 \<notin> set (Encoding.cp_bytes c)"
  by (auto simp: Encoding.cp_bytes_def scalar_def byte_zero simp del: of_nat_add)

lemma code_points_zero: "0 \<in> set (code_points s) \<Longrightarrow> 0 \<in> set s"
proof (induction s rule: code_points.induct)
  case (3 u v r)
  then show ?case by (auto split: if_splits simp: unat_eq_0)
next
  case (2 u)
  then show ?case by (auto split: if_splits simp: unat_eq_0)
qed simp

lemma utf8_nonzero: "0 \<notin> set s \<Longrightarrow> 0 \<notin> set (utf8_encode s)"
proof
  assume s: "0 \<notin> set s" and z: "0 \<in> set (utf8_encode s)"
  then obtain c where c: "c \<in> set (code_points s)" "0 \<in> set (Encoding.cp_bytes c)" by (auto simp: utf8_encode_def)
  then have "c \<noteq> 0" using s code_points_zero by metis
  then show False using c cp_bytes_nonzero code_points_scalar [of s] by blast
qed

lemma nat_text_nonzero: "0 \<notin> set (nat_text n)"
  using nat_text_digits [of n] by (auto simp: is_digit_def)

lemma well_formed_nat_text: "well_formed (nat_text n)"
  using nat_text_digits [of n] by (intro well_formed_plain) (auto simp: is_digit_def surrogate_def high_surrogate_def low_surrogate_def)

lemma until_zero: "0 \<notin> set bs \<Longrightarrow> takeWhile (\<lambda>b. b \<noteq> 0) (bs @ 0 # r) = bs \<and> drop 1 (dropWhile (\<lambda>b. b \<noteq> 0) (bs @ 0 # r)) = r" for bs :: bytes
  by (induction bs) auto

interpretation entries: stream_codec entry_bytes read_entry entry_ok
proof unfold_locales
  fix e r
  assume e: "entry_ok e"
  obtain path content where p: "e = (path, content)" by (cases e)
  have u: "0 \<notin> set (utf8_encode path)" "utf8_decode (utf8_encode path) = Some path"
    using e by (simp_all add: p entry_ok_def utf8_nonzero utf8_decode_encode)
  have n: "0 \<notin> set (utf8_encode (nat_text (length content)))" "utf8_decode (utf8_encode (nat_text (length content))) = Some (nat_text (length content))"
    by (simp_all add: utf8_nonzero nat_text_nonzero utf8_decode_encode well_formed_nat_text)
  note a = until_zero [OF u(1), of "utf8_encode (nat_text (length content)) @ 0 # content @ r"]
    and b = until_zero [OF n(1), of "content @ r"]
  show "read_entry (entry_bytes e @ r) = Some (e, r)"
    using a b u(2) n(2) by (simp add: read_entry_def entry_bytes_def p digits_val_nat_text Let_def del: drop_drop)
qed

text \<open>An encoding that is never empty says how many values it holds.\<close>

context stream_codec
begin

lemma concat_determines:
  "\<forall>x \<in> set xs. ok x \<and> enc x \<noteq> [] \<Longrightarrow> \<forall>y \<in> set ys. ok y \<and> enc y \<noteq> [] \<Longrightarrow> concat (map enc xs) = concat (map enc ys) \<Longrightarrow> xs = ys"
proof (induction xs arbitrary: ys)
  case Nil
  then show ?case by (cases ys) auto
next
  case (Cons x xs)
  obtain y ys' where ys: "ys = y # ys'" using Cons.prems(1,3) by (cases ys) simp_all
  have o: "ok x" "ok y" using Cons.prems(1,2) by (simp_all add: ys)
  have e: "enc x @ concat (map enc xs) = enc y @ concat (map enc ys')" using Cons.prems(3) by (simp add: ys)
  note no_shift [OF o e]
  then show ?case using Cons.IH [of ys'] Cons.prems(1,2) by (simp add: ys)
qed

end

lemma hash_of_determines:
  assumes "hash_of P a = hash_of P b" "\<forall>e \<in> set a. entry_ok e" "\<forall>e \<in> set b. entry_ok e"
  shows "a = b \<or> collision P (hash_input a) (hash_input b)"
proof -
  have "sha256 P (hash_input a) = sha256 P (hash_input b)"
    using assms(1) by (metis hash_of_def hex_bytes_hex_of)
  moreover have "a = b" if "hash_input a = hash_input b"
    by (rule entries.concat_determines) (use assms(2,3) that in \<open>auto simp: hash_input_def entry_bytes_def\<close>)
  ultimately show ?thesis by (auto simp: collision_def)
qed

section \<open>The manifest\<close>

record text_lib =
  utf8_text :: "bytes \<Rightarrow> jsstr"
  json_text :: "jsstr \<Rightarrow> json option"

definition js_space :: "16 word \<Rightarrow> bool" where
  "js_space u = (let n = unat u in 9 \<le> n \<and> n \<le> 13 \<or> n = 32 \<or> n = 160 \<or> n = 0x1680 \<or> 0x2000 \<le> n \<and> n \<le> 0x200A
     \<or> n = 0x2028 \<or> n = 0x2029 \<or> n = 0x202F \<or> n = 0x205F \<or> n = 0x3000 \<or> n = 0xFEFF)"

definition trim :: "jsstr \<Rightarrow> jsstr" where
  "trim s = rev (dropWhile js_space (rev (dropWhile js_space s)))"

text \<open>\<open>existsSync\<close> and \<open>readFileSync\<close> of a path below a directory; reading a directory as a file throws.\<close>

definition child :: "node \<Rightarrow> jsstr \<Rightarrow> node option" where
  "child dir name = (case dir of File _ \<Rightarrow> None | Dir es \<Rightarrow> map_of es name)"

definition read_file :: "node \<Rightarrow> fault + bytes" where
  "read_file n = (case n of File bs \<Rightarrow> Inr bs | Dir _ \<Rightarrow> Inl Plain_error)"

definition vector_entry :: "platform \<Rightarrow> text_lib \<Rightarrow> node \<Rightarrow> jsstr \<Rightarrow> fault + json" where
  "vector_entry P L vectors name = rbind (files_of (child vectors name)) (\<lambda>files.
     rbind (case Option.bind (child vectors name) (\<lambda>d. child d (js ''expected.json'')) of None \<Rightarrow> Inr None
       | Some n \<Rightarrow> rbind (read_file n) (\<lambda>bs. case json_text L (utf8_text L bs) of None \<Rightarrow> Inl Plain_error | Some v \<Rightarrow> Inr (Some v)))
     (\<lambda>expected. Inr (JObj ([(js ''name'', JStr name),
        (js ''kind'', case Option.bind expected (\<lambda>e. member e ''kind'') of None \<Rightarrow> JStr (js ''unknown'') | Some JNull \<Rightarrow> JStr (js ''unknown'')
           | Some v \<Rightarrow> v)]
       @ (case Option.bind expected (\<lambda>e. member e ''outcome'') of None \<Rightarrow> [] | Some v \<Rightarrow> [(js ''outcome'', v)])
       @ [(js ''sha256'', JStr (hash_of P files)), (js ''files'', JNum (NInt (int (length files))))]))))"

definition FIXTURE_DIRS :: "jsstr list" where
  "FIXTURE_DIRS = map js [''_media'', ''_trust'', ''_chains'', ''_timestamps'', ''_watermark'']"

text \<open>The fixtures that exist, with their hashes.\<close>

fun fixtures :: "platform \<Rightarrow> node \<Rightarrow> jsstr list \<Rightarrow> fault + (jsstr \<times> json) list" where
  "fixtures P vectors [] = Inr []"
| "fixtures P vectors (name # names) = (case child vectors name of
     None \<Rightarrow> fixtures P vectors names
   | Some d \<Rightarrow> rbind (files_of (Some d)) (\<lambda>files. rbind (fixtures P vectors names) (\<lambda>rest.
       Inr ((name, JStr (hash_of P files)) # rest))))"

definition names_in :: "node option \<Rightarrow> fault + jsstr list" where
  "names_in vectors = (case vectors of None \<Rightarrow> Inr [] | Some (File _) \<Rightarrow> Inl Plain_error
     | Some (Dir es) \<Rightarrow> Inr (in_order (map fst es)))"

definition child_of :: "node option \<Rightarrow> jsstr \<Rightarrow> node option" where
  "child_of vectors name = Option.bind vectors (\<lambda>d. child d name)"

definition build_manifest :: "platform \<Rightarrow> text_lib \<Rightarrow> node option \<Rightarrow> fault + json" where
  "build_manifest P L vectors = rbind (names_in vectors) (\<lambda>names.
     rbind (case child_of vectors (js ''VERSION'') of None \<Rightarrow> Inr (js ''0.0.0'')
       | Some n \<Rightarrow> rbind (read_file n) (\<lambda>bs. Inr (trim (utf8_text L bs)))) (\<lambda>version.
     rbind (case vectors of None \<Rightarrow> Inr [] | Some d \<Rightarrow> fixtures P d FIXTURE_DIRS) (\<lambda>fixed.
     rbind (case vectors of None \<Rightarrow> Inr [] | Some d \<Rightarrow> rmap (vector_entry P L d) names) (\<lambda>entries.
       Inr (JObj [(js ''corpus_version'', JStr version), (js ''vector_count'', JNum (NInt (int (length names)))),
         (js ''vectors'', JArr entries), (js ''fixtures'', JObj fixed)])))))"

text \<open>\<open>JSON.stringify(v, null, 2)\<close>.\<close>

definition indent :: "nat \<Rightarrow> jsstr" where "indent n = replicate n 32"

fun lines_of :: "jsstr list \<Rightarrow> jsstr" where
  "lines_of [] = []"
| "lines_of [x] = x"
| "lines_of (x # xs) = x @ [44, 10] @ lines_of xs"

fun pretty :: "nat \<Rightarrow> json \<Rightarrow> jsstr" where
  "pretty k (JArr vs) = (if vs = [] then [91, 93]
     else [91, 10] @ lines_of (map (\<lambda>v. indent (k + 2) @ pretty (k + 2) v) vs) @ [10] @ indent k @ [93])"
| "pretty k (JObj ms) = (if ms = [] then [123, 125]
     else [123, 10] @ lines_of (map (\<lambda>(n, v). indent (k + 2) @ quote n @ [58, 32] @ pretty (k + 2) v) ms) @ [10] @ indent k @ [125])"
| "pretty k v = serialize v"

definition manifest_text :: "json \<Rightarrow> jsstr" where
  "manifest_text v = pretty 0 v @ [10]"

definition MANIFEST :: jsstr where "MANIFEST = js ''MANIFEST.json''"

definition put_file :: "node option \<Rightarrow> jsstr \<Rightarrow> bytes \<Rightarrow> fault + node option" where
  "put_file dir name bs = (case dir of Some (Dir es) \<Rightarrow> (case map_of es name of
       None \<Rightarrow> Inr (Some (Dir (es @ [(name, File bs)])))
     | Some (Dir _) \<Rightarrow> Inl Plain_error
     | Some (File _) \<Rightarrow> Inr (Some (Dir (map (\<lambda>(n, d). (n, if n = name then File bs else d)) es))))
   | _ \<Rightarrow> Inl Plain_error)"

definition write_manifest :: "platform \<Rightarrow> text_lib \<Rightarrow> node option \<Rightarrow> fault + node option" where
  "write_manifest P L vectors = rbind (build_manifest P L vectors) (\<lambda>v. put_file vectors MANIFEST (utf8_encode (manifest_text v)))"

definition check_manifest :: "platform \<Rightarrow> text_lib \<Rightarrow> node option \<Rightarrow> fault + bool" where
  "check_manifest P L vectors = rbind (build_manifest P L vectors) (\<lambda>v.
     case child_of vectors MANIFEST of None \<Rightarrow> Inr False
     | Some n \<Rightarrow> rbind (read_file n) (\<lambda>bs. Inr (utf8_text L bs = manifest_text v)))"

section \<open>Writing and checking\<close>

fun plain_numbers :: "json \<Rightarrow> bool" where
  "plain_numbers (JNum (NDouble i t)) = well_formed t"
| "plain_numbers (JArr vs) = (\<forall>v \<in> set vs. plain_numbers v)"
| "plain_numbers (JObj ms) = (\<forall>m \<in> set ms. plain_numbers (snd m))"
| "plain_numbers _ = True"

text \<open>What the library promises: text that is written is read back, and a number prints in ASCII.\<close>

definition text_lib_ok :: "text_lib \<Rightarrow> bool" where
  "text_lib_ok L \<longleftrightarrow> (\<forall>s. well_formed s \<longrightarrow> utf8_text L (utf8_encode s) = s) \<and> (\<forall>s v. json_text L s = Some v \<longrightarrow> plain_numbers v)"

lemma well_formed_small: "\<forall>u \<in> set s. unat u < 128 \<Longrightarrow> well_formed s"
  by (intro well_formed_plain) (auto simp: surrogate_def high_surrogate_def low_surrogate_def)

lemma well_formed_ascii: "unat u < 128 \<Longrightarrow> well_formed (u # t) = well_formed t"
  by (rule well_formed_Cons) (auto simp: surrogate_def high_surrogate_def low_surrogate_def)

lemma well_formed_js: "well_formed (js ''null'')" "well_formed (js ''true'')" "well_formed (js ''false'')"
  by (auto intro!: well_formed_small simp: js_def)

lemma well_formed_lines: "\<forall>x \<in> set xs. well_formed x \<Longrightarrow> well_formed (lines_of xs)"
  by (induction xs rule: lines_of.induct) (simp_all add: well_formed_append well_formed_ascii)

lemma well_formed_indent: "well_formed (indent k)"
  by (intro well_formed_small) (simp add: indent_def)

lemma well_formed_number: "plain_numbers (JNum n) \<Longrightarrow> well_formed (num_text n)"
  by (cases n) (auto simp: well_formed_int_text well_formed_js)

lemma well_formed_pretty: "plain_numbers v \<Longrightarrow> well_formed (pretty k v)"
proof (induction k v rule: pretty.induct)
  case (1 k vs)
  have "v \<in> set vs \<Longrightarrow> well_formed (pretty (k + 2) v)" for v using 1 by (cases "vs = []") auto
  then have "well_formed (lines_of (map (\<lambda>v. indent (k + 2) @ pretty (k + 2) v) vs))"
    by (intro well_formed_lines) (auto intro!: well_formed_append well_formed_indent)
  then show ?case by (simp add: well_formed_append well_formed_ascii well_formed_indent)
next
  case (2 k ms)
  have "well_formed (lines_of (map (\<lambda>(n, v). indent (k + 2) @ quote n @ [58, 32] @ pretty (k + 2) v) ms))"
    by (rule well_formed_lines)
      (use 2 in \<open>force simp: well_formed_append well_formed_indent well_formed_quote well_formed_ascii\<close>)
  then show ?case by (simp add: well_formed_append well_formed_ascii well_formed_indent)
qed (auto simp: well_formed_quote well_formed_js well_formed_number)

lemma child_put:
  assumes "put_file vectors name bs = Inr vectors'"
  shows "child_of vectors' name = Some (File bs)" "n \<noteq> name \<Longrightarrow> child_of vectors' n = child_of vectors n"
    "\<not> is_vector_dir name \<Longrightarrow> names_in vectors' = names_in vectors" "\<exists>es es'. vectors = Some (Dir es) \<and> vectors' = Some (Dir es')"
proof -
  obtain es where es: "vectors = Some (Dir es)" using assms by (auto simp: put_file_def split: option.splits node.splits)
  have m: "map_of (map (\<lambda>(n, d). (n, if n = name then File bs else d)) es) n = (if n = name then map_option (\<lambda>_. File bs) (map_of es n) else map_of es n)" for n
    by (induction es) auto
  have f: "map fst (map (\<lambda>(n, d). (n, if n = name then File bs else d)) es) = map fst es" by (simp add: case_prod_unfold comp_def)
  show "child_of vectors' name = Some (File bs)"
    using assms by (auto simp: es put_file_def child_of_def child_def m map_add_def split: option.splits node.splits)
  show "n \<noteq> name \<Longrightarrow> child_of vectors' n = child_of vectors n"
    using assms by (auto simp: es put_file_def child_of_def child_def m map_add_def split: option.splits node.splits)
  show "\<not> is_vector_dir name \<Longrightarrow> names_in vectors' = names_in vectors"
    using assms by (auto simp: es put_file_def names_in_def in_order_def f simp del: map_map split: option.splits node.splits)
  show "\<exists>es es'. vectors = Some (Dir es) \<and> vectors' = Some (Dir es')"
    using assms by (auto simp: es put_file_def split: option.splits node.splits)
qed

lemma not_a_vector: "\<not> is_vector_dir MANIFEST" "MANIFEST \<notin> set FIXTURE_DIRS" "MANIFEST \<noteq> js ''VERSION''"
  by (simp_all add: MANIFEST_def FIXTURE_DIRS_def) code_simp

lemma fixtures_cong: "(\<And>n. n \<in> set names \<Longrightarrow> child d n = child d' n) \<Longrightarrow> fixtures P d names = fixtures P d' names"
  by (induction names) (auto split: option.splits)

lemma vector_entry_cong: "child d n = child d' n \<Longrightarrow> vector_entry P L d n = vector_entry P L d' n"
  by (simp add: vector_entry_def)

lemma rmap_cong: "(\<And>x. x \<in> set xs \<Longrightarrow> f x = g x) \<Longrightarrow> rmap f xs = rmap g xs"
  by (induction xs) auto

text \<open>The manifest does not cover itself.\<close>

lemma build_put:
  assumes "put_file vectors MANIFEST bs = Inr vectors'"
  shows "build_manifest P L vectors' = build_manifest P L vectors"
proof -
  obtain es es' where es: "vectors = Some (Dir es)" "vectors' = Some (Dir es')" using child_put(4) [OF assms] by blast
  have c: "n \<noteq> MANIFEST \<Longrightarrow> child (Dir es') n = child (Dir es) n" for n
    using child_put(2) [OF assms, of n] by (simp add: es child_of_def)
  have v: "child_of vectors' (js ''VERSION'') = child_of vectors (js ''VERSION'')"
    using child_put(2) [OF assms] not_a_vector(3) by metis
  have f: "fixtures P (Dir es') FIXTURE_DIRS = fixtures P (Dir es) FIXTURE_DIRS"
    by (rule fixtures_cong) (metis c not_a_vector(2))
  have n: "names_in vectors' = names_in vectors" by (rule child_put(3) [OF assms not_a_vector(1)])
  have e: "names_in vectors = Inr names \<Longrightarrow> rmap (vector_entry P L (Dir es')) names = rmap (vector_entry P L (Dir es)) names" for names
    by (rule rmap_cong, rule vector_entry_cong, rule c)
      (use not_a_vector(1) in \<open>auto simp: es names_in_def in_order_set\<close>)
  show ?thesis unfolding build_manifest_def n v using e by (cases "names_in vectors") (simp_all add: es f)
qed

lemma vector_entry_plain: "text_lib_ok L \<Longrightarrow> vector_entry P L d n = Inr v \<Longrightarrow> plain_numbers v"
proof -
  assume L: "text_lib_ok L" and v: "vector_entry P L d n = Inr v"
  obtain files expected where x: "(case Option.bind (child d n) (\<lambda>d. child d (js ''expected.json'')) of None \<Rightarrow> Inr None
       | Some n \<Rightarrow> rbind (read_file n) (\<lambda>bs. case json_text L (utf8_text L bs) of None \<Rightarrow> Inl Plain_error | Some v \<Rightarrow> Inr (Some v))) = Inr expected"
    "v = JObj ([(js ''name'', JStr n),
        (js ''kind'', case Option.bind expected (\<lambda>e. member e ''kind'') of None \<Rightarrow> JStr (js ''unknown'') | Some JNull \<Rightarrow> JStr (js ''unknown'')
           | Some v \<Rightarrow> v)]
       @ (case Option.bind expected (\<lambda>e. member e ''outcome'') of None \<Rightarrow> [] | Some v \<Rightarrow> [(js ''outcome'', v)])
       @ [(js ''sha256'', JStr (hash_of P files)), (js ''files'', JNum (NInt (int (length files))))])"
    using v unfolding vector_entry_def rbind_eq_Inr by blast
  have e: "plain_numbers e" if "expected = Some e" for e
    using x(1) L that by (auto simp: text_lib_ok_def split: option.splits)
  have m: "plain_numbers y" if "Option.bind expected (\<lambda>e. member e k) = Some y" for k y
  proof -
    obtain e' where e': "expected = Some e'" "member e' k = Some y" using \<open>Option.bind expected (\<lambda>e. member e k) = Some y\<close>
      by (cases expected) auto
    from e'(2) e [OF e'(1)] show ?thesis by (cases e') (fastforce dest: map_of_SomeD)+
  qed
  have k: "plain_numbers (case w of None \<Rightarrow> JStr (js ''unknown'') | Some JNull \<Rightarrow> JStr (js ''unknown'') | Some v \<Rightarrow> v)"
    if "\<And>y. w = Some y \<Longrightarrow> plain_numbers y" for w
    using that by (cases w) (fastforce split: json.split)+
  show ?thesis using k [OF m] m by (simp add: x(2) split: option.split)
qed

lemma fixtures_plain: "fixtures P d names = Inr fs \<Longrightarrow> plain_numbers (JObj fs)"
  by (induction names arbitrary: fs) (fastforce split: option.splits)+

lemma build_plain: "text_lib_ok L \<Longrightarrow> build_manifest P L vectors = Inr v \<Longrightarrow> plain_numbers v"
proof -
  assume L: "text_lib_ok L" and v: "build_manifest P L vectors = Inr v"
  then obtain version names fixed entries where b: "(case vectors of None \<Rightarrow> Inr [] | Some d \<Rightarrow> fixtures P d FIXTURE_DIRS) = Inr fixed"
    "(case vectors of None \<Rightarrow> Inr [] | Some d \<Rightarrow> rmap (vector_entry P L d) names) = Inr entries"
    "v = JObj [(js ''corpus_version'', JStr version), (js ''vector_count'', JNum (NInt (int (length names)))),
         (js ''vectors'', JArr entries), (js ''fixtures'', JObj fixed)]"
    by (auto simp: build_manifest_def)
  have "plain_numbers (JObj fixed)" using b(1) fixtures_plain by (auto split: option.splits)
  moreover have "\<forall>e \<in> set entries. plain_numbers e"
    using b(2) vector_entry_plain [OF L]
    by (fastforce simp: rmap_Inr_iff in_set_conv_nth list_all2_conv_all_nth split: option.splits)
  ultimately show ?thesis by (simp add: b(3))
qed

lemma manifest_text_read:
  "text_lib_ok L \<Longrightarrow> build_manifest P L vectors = Inr m \<Longrightarrow> utf8_text L (utf8_encode (manifest_text m)) = manifest_text m"
  using well_formed_pretty [OF build_plain, of L P vectors m 0]
  by (simp add: manifest_text_def well_formed_append well_formed_small text_lib_ok_def)

lemma write_then_check:
  assumes "text_lib_ok L" "write_manifest P L vectors = Inr vectors'"
  shows "check_manifest P L vectors' = Inr True"
proof -
  obtain v where v: "build_manifest P L vectors = Inr v" "put_file vectors MANIFEST (utf8_encode (manifest_text v)) = Inr vectors'"
    using assms(2) by (auto simp: write_manifest_def)
  show ?thesis using manifest_text_read [OF assms(1) v(1)] by (simp add: check_manifest_def build_put [OF v(2)] v(1) child_put(1) [OF v(2)] read_file_def)
qed

section \<open>The properties\<close>

lemma vector_entry_parts:
  assumes "vector_entry P L d n = Inr v"
  shows "\<exists>files ms. files_of (child d n) = Inr files \<and> v = JObj ms \<and> map_of ms (js ''name'') = Some (JStr n)
    \<and> map_of ms (js ''sha256'') = Some (JStr (hash_of P files))"
proof -
  obtain files expected where "files_of (child d n) = Inr files" "v = JObj ([(js ''name'', JStr n),
        (js ''kind'', case Option.bind expected (\<lambda>e. member e ''kind'') of None \<Rightarrow> JStr (js ''unknown'') | Some JNull \<Rightarrow> JStr (js ''unknown'')
           | Some v \<Rightarrow> v)]
       @ (case Option.bind expected (\<lambda>e. member e ''outcome'') of None \<Rightarrow> [] | Some v \<Rightarrow> [(js ''outcome'', v)])
       @ [(js ''sha256'', JStr (hash_of P files)), (js ''files'', JNum (NInt (int (length files))))])"
    using assms unfolding vector_entry_def rbind_eq_Inr by blast
  then show ?thesis by (auto split: option.split)
qed

lemma entries_same:
  assumes "list_all2 (\<lambda>n e. vector_entry P L a n = Inr e) ns es" "list_all2 (\<lambda>n e. vector_entry P L b n = Inr e) ms es"
  shows "ns = ms \<and> (\<forall>n \<in> set ns. \<exists>fa fb. files_of (child a n) = Inr fa \<and> files_of (child b n) = Inr fb \<and> hash_of P fa = hash_of P fb)"
  using assms
proof (induction es arbitrary: ns ms rule: list.induct)
  case (Cons e es)
  then obtain n ns' m ms' where x: "ns = n # ns'" "ms = m # ms'" "vector_entry P L a n = Inr e" "vector_entry P L b m = Inr e"
    "list_all2 (\<lambda>n e. vector_entry P L a n = Inr e) ns' es" "list_all2 (\<lambda>n e. vector_entry P L b n = Inr e) ms' es"
    by (auto simp: list_all2_Cons2)
  have "n = m \<and> (\<exists>fa fb. files_of (child a n) = Inr fa \<and> files_of (child b n) = Inr fb \<and> hash_of P fa = hash_of P fb)"
    using vector_entry_parts [OF x(3)] vector_entry_parts [OF x(4)] by auto
  then show ?case using Cons.IH [OF x(5,6)] by (auto simp: x(1,2))
qed simp

lemma build_parts:
  assumes "build_manifest P L vectors = Inr m"
  obtains names entries rest where "names_in vectors = Inr names"
    "case vectors of None \<Rightarrow> entries = [] \<and> names = [] | Some d \<Rightarrow> list_all2 (\<lambda>n e. vector_entry P L d n = Inr e) names entries"
    "map_of (case m of JObj ms \<Rightarrow> ms | _ \<Rightarrow> []) (js ''vectors'') = Some (JArr entries)"
proof -
  obtain names version fixed entries where b: "names_in vectors = Inr names"
    "(case vectors of None \<Rightarrow> Inr [] | Some d \<Rightarrow> rmap (vector_entry P L d) names) = Inr entries"
    "m = JObj [(js ''corpus_version'', JStr version), (js ''vector_count'', JNum (NInt (int (length names)))),
         (js ''vectors'', JArr entries), (js ''fixtures'', JObj fixed)]"
    using assms unfolding build_manifest_def rbind_eq_Inr by blast
  show thesis
    by (rule that [OF b(1), of entries]) (use b in \<open>auto simp: rmap_Inr_iff names_in_def split: option.splits\<close>)
qed

definition paths_ok :: "node option \<Rightarrow> bool" where
  "paths_ok vectors \<longleftrightarrow> (\<forall>name files. files_of (child_of vectors name) = Inr files \<longrightarrow> (\<forall>e \<in> set files. entry_ok e))"

text \<open>C8. A manifest names the bytes: two corpora with the same manifest have the same vectors, and every vector directory of
  the one holds exactly the files of the other, path by path and byte by byte, unless two different file lists hash to
  one SHA-256 digest. Paths are well-formed text without NUL, as a file system has them.\<close>

theorem manifest_binds:
  assumes "build_manifest P L a = Inr m" "build_manifest P L b = Inr m" "paths_ok a" "paths_ok b"
  shows "\<exists>names. names_in a = Inr names \<and> names_in b = Inr names \<and> (\<forall>n \<in> set names. \<exists>fa fb.
    files_of (child_of a n) = Inr fa \<and> files_of (child_of b n) = Inr fb \<and> (fa = fb \<or> collision P (hash_input fa) (hash_input fb)))"
proof (rule build_parts [OF assms(1)], rule build_parts [OF assms(2)])
  fix ns es ms es'
  assume a: "names_in a = Inr ns"
      "case a of None \<Rightarrow> es = [] \<and> ns = [] | Some d \<Rightarrow> list_all2 (\<lambda>n e. vector_entry P L d n = Inr e) ns es"
      "map_of (case m of JObj ms \<Rightarrow> ms | _ \<Rightarrow> []) (js ''vectors'') = Some (JArr es)"
    and b: "names_in b = Inr ms"
      "case b of None \<Rightarrow> es' = [] \<and> ms = [] | Some d \<Rightarrow> list_all2 (\<lambda>n e. vector_entry P L d n = Inr e) ms es'"
      "map_of (case m of JObj ms \<Rightarrow> ms | _ \<Rightarrow> []) (js ''vectors'') = Some (JArr es')"
  have e: "es' = es" using a(3) b(3) by simp
  have "ns = ms \<and> (\<forall>n \<in> set ns. \<exists>fa fb. files_of (child_of a n) = Inr fa \<and> files_of (child_of b n) = Inr fb \<and> hash_of P fa = hash_of P fb)"
    using a(2) b(2) entries_same [of P L _ ns es _ ms] by (auto simp: e child_of_def split: option.splits)
  then show ?thesis using a(1) b(1) hash_of_determines assms(3,4) unfolding paths_ok_def by metis
qed

definition ascii_lib :: text_lib where
  "ascii_lib = \<lparr>utf8_text = (\<lambda>bs. case utf8_decode bs of None \<Rightarrow> [] | Some s \<Rightarrow> s), json_text = (\<lambda>s. Some JNull)\<rparr>"

definition toy_vectors :: node where
  "toy_vectors = Dir [(js ''VERSION'', File (ascii ''1.0.0'')), (js ''01-a'', Dir [(js ''b'', File [1, 0, 2]), (js ''expected.json'', File [])])]"

lemma toy_library: "text_lib_ok ascii_lib"
  by (simp add: text_lib_ok_def ascii_lib_def utf8_decode_encode)

lemma toy_names: "names_in (Some toy_vectors) = Inr [js ''01-a'']"
  by (simp add: names_in_def toy_vectors_def in_order_def is_vector_dir_def is_digit_def js_def)

lemma toy_files: "files_of (child_of (Some toy_vectors) (js ''01-a'')) = Inr [(js ''b'', [1, 0, 2]), (js ''expected.json'', [])]"
proof -
  have "js ''b'' < js ''expected.json''" by code_simp
  then show ?thesis
    by (simp add: files_of_def child_of_def child_def toy_vectors_def under_def DS_STORE_def)
qed

lemma toy_build: "\<exists>m. build_manifest tail_platform ascii_lib (Some toy_vectors) = Inr m"
proof -
  have c: "child toy_vectors (js ''01-a'') = Some (Dir [(js ''b'', File [1, 0, 2]), (js ''expected.json'', File [])])"
    "child toy_vectors (js ''VERSION'') = Some (File (ascii ''1.0.0''))"
    by (simp_all add: child_def toy_vectors_def)
  have f: "fixtures tail_platform toy_vectors FIXTURE_DIRS = Inr []"
    by (simp add: FIXTURE_DIRS_def child_def toy_vectors_def)
  have "\<exists>e. vector_entry tail_platform ascii_lib toy_vectors (js ''01-a'') = Inr e"
    using toy_files by (simp add: vector_entry_def child_of_def c) (simp add: child_def read_file_def ascii_lib_def)
  then obtain e where "vector_entry tail_platform ascii_lib toy_vectors (js ''01-a'') = Inr e" by blast
  then show ?thesis by (simp add: build_manifest_def toy_names child_of_def c read_file_def f)
qed

lemma toy_paths: "paths_ok (Some toy_vectors)"
proof -
  have w: "entry_ok (js ''b'', [1, 0, 2])" "entry_ok (js ''expected.json'', [])"
    by (auto simp: entry_ok_def js_def intro!: well_formed_small)
  have "\<forall>e \<in> set files. entry_ok e" if "files_of (child_of (Some toy_vectors) name) = Inr files" for name files
  proof -
    have "child_of (Some toy_vectors) name = (if name = js ''VERSION'' then Some (File (ascii ''1.0.0''))
        else if name = js ''01-a'' then Some (Dir [(js ''b'', File [1, 0, 2]), (js ''expected.json'', File [])]) else None)"
      by (simp add: child_of_def child_def toy_vectors_def)
    then show ?thesis using that toy_files w by (auto simp: files_of_def split: if_splits)
  qed
  then show ?thesis by (simp add: paths_ok_def)
qed

theorem manifest_binds_witness:
  "\<exists>names. names_in (Some toy_vectors) = Inr names \<and> names = [js ''01-a''] \<and> (\<forall>n \<in> set names. \<exists>fa.
    files_of (child_of (Some toy_vectors) n) = Inr fa)"
proof -
  obtain m where m: "build_manifest tail_platform ascii_lib (Some toy_vectors) = Inr m" using toy_build by blast
  show ?thesis using manifest_binds [OF m m toy_paths toy_paths] toy_names by auto
qed

text \<open>The text of a file of the directory, if it is one.\<close>

definition text_at :: "text_lib \<Rightarrow> node option \<Rightarrow> jsstr \<Rightarrow> jsstr option" where
  "text_at L dir name = (case child_of dir name of Some (File bs) \<Rightarrow> Some (utf8_text L bs) | _ \<Rightarrow> None)"

lemma check_text:
  assumes "text_lib_ok L" "write_manifest P L vectors = Inr vectors'"
  shows "check_manifest P L vectors = Inr (text_at L vectors MANIFEST = text_at L vectors' MANIFEST)"
proof -
  obtain m where m: "build_manifest P L vectors = Inr m" "put_file vectors MANIFEST (utf8_encode (manifest_text m)) = Inr vectors'"
    using assms(2) by (auto simp: write_manifest_def)
  have "text_at L vectors' MANIFEST = Some (manifest_text m)"
    using child_put(1) [OF m(2)] manifest_text_read [OF assms(1) m(1)] by (simp add: text_at_def)
  moreover have "child_of vectors MANIFEST = None \<or> (\<exists>bs. child_of vectors MANIFEST = Some (File bs))"
    using m(2) by (auto simp: put_file_def child_of_def child_def split: option.splits node.splits)
  ultimately show ?thesis by (auto simp: check_manifest_def m(1) text_at_def read_file_def)
qed

text \<open>C9. The check is the write: whenever \<open>manifest.ts\<close> can write \<open>MANIFEST.json\<close>, the check accepts a directory exactly when the
  write would leave the text of that file as it is, and so rejects every stale manifest and a missing one; it accepts
  the directory just written, for the manifest does not cover itself. Nothing but that file changes.\<close>

theorem manifest_write_then_check:
  assumes "text_lib_ok L" "write_manifest P L vectors = Inr vectors'"
  shows "check_manifest P L vectors' = Inr True
    \<and> check_manifest P L vectors = Inr (text_at L vectors MANIFEST = text_at L vectors' MANIFEST)
    \<and> (\<forall>n. n = MANIFEST \<or> child_of vectors' n = child_of vectors n)"
proof -
  obtain bs where "put_file vectors MANIFEST bs = Inr vectors'" using assms(2) by (auto simp: write_manifest_def)
  then show ?thesis using write_then_check [OF assms] check_text [OF assms] child_put(2) by blast
qed

theorem manifest_write_then_check_witness:
  "\<exists>vectors'. write_manifest tail_platform ascii_lib (Some toy_vectors) = Inr vectors' \<and> check_manifest tail_platform ascii_lib vectors' = Inr True"
proof -
  obtain m where m: "build_manifest tail_platform ascii_lib (Some toy_vectors) = Inr m" using toy_build by blast
  have "MANIFEST \<notin> fst ` set [(js ''VERSION'', File (ascii ''1.0.0'')), (js ''01-a'', Dir [(js ''b'', File [1, 0, 2]), (js ''expected.json'', File [])])]"
    by (simp add: MANIFEST_def)
  then have "\<exists>v. put_file (Some toy_vectors) MANIFEST bs = Inr v" for bs by (simp add: put_file_def toy_vectors_def)
  then obtain vectors' where v: "write_manifest tail_platform ascii_lib (Some toy_vectors) = Inr vectors'"
    by (auto simp: write_manifest_def m)
  show ?thesis using manifest_write_then_check [OF toy_library v] v by blast
qed

end
