(* ===== verification/Claim.thy ===== *)
theory Claim
  imports Corpus Writer
begin

text \<open>
  The conformance claim: the corpus a run names (\<open>corpus\<close> of \<open>tools/src/conformance.ts\<close>), the report and the
  exit code of \<open>tools/src/conformance-report.ts\<close>, the rules of \<open>validateConformanceReport\<close> (\<open>tools/src/schema.ts\<close>)
  and the command line of \<open>tools/src/validate.ts\<close>. The compiled JSON schemas (Ajv) are the record \<open>schemas\<close>.
\<close>

section \<open>The corpus\<close>

record corpus =
  cx_version :: jsstr
  cx_manifest_sha256 :: jsstr
  cx_declared :: int
  cx_names :: "jsstr list"
  cx_outcomes :: "(jsstr \<times> json) list"

text \<open>The entries of the manifest as pairs; a value the code takes to be a string or a number and that is not is \<open>Untyped\<close>.\<close>

definition outcome_pair :: "json \<Rightarrow> fault + jsstr \<times> json" where
  "outcome_pair v = (case str_of (member v ''name'') of None \<Rightarrow> Inl (if v = JNull then Type_error else Untyped)
     | Some name \<Rightarrow> Inr (name, case member v ''outcome'' of None \<Rightarrow> JStr (js ''n/a'') | Some JNull \<Rightarrow> JStr (js ''n/a'') | Some x \<Rightarrow> x))"

definition from_entries :: "members \<Rightarrow> members" where
  "from_entries ms = foldl (\<lambda>acc m. spread acc [m]) [] ms"

definition corpus_of :: "platform \<Rightarrow> text_lib \<Rightarrow> node option \<Rightarrow> fault + corpus" where
  "corpus_of P L vectors = (case vectors of None \<Rightarrow> Inl Plain_error
   | Some dir \<Rightarrow> rbind (names_in vectors) (\<lambda>names.
       if names = [] then Inl Plain_error
       else case (child dir (js ''VERSION''), child dir MANIFEST) of
         (Some vf, Some mf) \<Rightarrow>
           rbind (read_file mf) (\<lambda>bs. case json_text L (utf8_text L bs) of None \<Rightarrow> Inl Plain_error
           | Some m \<Rightarrow> rbind (read_file vf) (\<lambda>v.
               if m = JNull then Inl Type_error
               else case (int_of (member m ''vector_count''), arr_of (member m ''vectors'')) of
                 (Some n, Some es) \<Rightarrow> rbind (rmap outcome_pair es) (\<lambda>pairs.
                   Inr \<lparr>cx_version = trim (utf8_text L v), cx_manifest_sha256 = hex_of (sha256 P bs), cx_declared = n,
                     cx_names = names, cx_outcomes = from_entries pairs\<rparr>)
               | (_, None) \<Rightarrow> Inl Type_error | _ \<Rightarrow> Inl Untyped))
       | _ \<Rightarrow> Inl Plain_error))"

section \<open>The report\<close>

record vector_result =
  vr_name :: jsstr
  vr_kind :: jsstr
  vr_pass :: bool
  vr_detail :: "jsstr option"

definition num :: "nat \<Rightarrow> json" where "num n = JNum (NInt (int n))"

definition failed_of :: "vector_result list \<Rightarrow> vector_result list" where
  "failed_of results = filter (\<lambda>r. \<not> vr_pass r) results"

definition tally :: "jsstr list \<Rightarrow> members" where
  "tally xs = map (\<lambda>x. (x, num (count_list xs x))) (sort (remdups xs))"

text \<open>The expected outcome of each name; one the manifest does not list is \<open>undefined\<close>, which \<open>sort\<close> puts last.\<close>

definition outcome_tally :: "corpus \<Rightarrow> fault + members" where
  "outcome_tally c = (let os = map (\<lambda>n. map_of (cx_outcomes c) n) (cx_names c) in
     rbind (rmap (\<lambda>v. case v of JStr s \<Rightarrow> Inr s | _ \<Rightarrow> Inl Untyped) (List.map_filter (\<lambda>x. x) os)) (\<lambda>known.
       Inr (from_entries (tally known @ (if None \<in> set os then [(js ''undefined'', num (count_list os None))] else [])))))"

definition report :: "corpus \<Rightarrow> vector_result list \<Rightarrow> fault + json" where
  "report c results = rbind (outcome_tally c) (\<lambda>outcomes. Inr (JObj
     [(js ''implementation'', JStr (js ''vcap-spec reference verifier (tools/src/verify.ts)'')),
      (js ''corpus_version'', JStr (cx_version c)), (js ''manifest_sha256'', JStr (cx_manifest_sha256 c)),
      (js ''vectors_declared'', JNum (NInt (cx_declared c))), (js ''vectors_run'', num (length results)),
      (js ''passed'', num (length results - length (failed_of results))),
      (js ''failed'', JArr (map (\<lambda>r. JObj [(js ''name'', JStr (vr_name r)),
         (js ''detail'', JStr (case vr_detail r of None \<Rightarrow> [] | Some d \<Rightarrow> d))]) (failed_of results))),
      (js ''by_kind'', JObj (tally (map vr_kind results))), (js ''by_expected_outcome'', JObj outcomes)]))"

text \<open>The script: the committed report before and after, and the exit code. \<open>manifest_text\<close> is the same
  \<open>JSON.stringify(v, null, 2)\<close> with its newline.\<close>

definition report_main :: "text_lib \<Rightarrow> bool \<Rightarrow> corpus \<Rightarrow> vector_result list \<Rightarrow> bytes option \<Rightarrow> fault + bytes option \<times> nat" where
  "report_main L check c results old = rbind (report c results) (\<lambda>r. let serialized = manifest_text r in
     if check \<and> map_option (utf8_text L) old \<noteq> Some serialized then Inr (old, 1)
     else Inr (if check then old else Some (utf8_encode serialized),
       if results = [] then 1 else if int (length results) \<noteq> cx_declared c then 1
       else if failed_of results \<noteq> [] then 1 else 0))"

section \<open>Validating a report\<close>

record schemas =
  sch_report :: "json \<Rightarrow> bool \<times> jsstr list"
  sch_proof :: "json \<Rightarrow> bool"
  sch_expected :: "json \<Rightarrow> bool"

datatype report_problem = By_schema jsstr | Zero_vectors | Not_accounted int int int | Does_not_add_up

definition validate_report :: "schemas \<Rightarrow> json \<Rightarrow> fault + bool \<times> report_problem list" where
  "validate_report S r = (case sch_report S r of (valid, errors) \<Rightarrow>
     if \<not> valid then Inr (valid, map By_schema errors)
     else case (int_of (member r ''vectors_run''), int_of (member r ''vectors_declared''), int_of (member r ''passed''), arr_of (member r ''failed'')) of
       (Some run, Some declared, Some passed, Some failed) \<Rightarrow>
         (let skipped = (case arr_of (member r ''not_run'') of None \<Rightarrow> 0 | Some ns \<Rightarrow> int (length ns));
              problems = map By_schema errors @ (if run = 0 then [Zero_vectors] else [])
                @ (if run + skipped \<noteq> declared then [Not_accounted run skipped declared] else [])
                @ (if passed + int (length failed) \<noteq> run then [Does_not_add_up] else [])
          in Inr (problems = [], problems))
     | _ \<Rightarrow> Inl Untyped)"

lemma report_members:
  assumes "report c results = Inr r"
  shows "member r ''vectors_run'' = Some (num (length results))" "member r ''vectors_declared'' = Some (JNum (NInt (cx_declared c)))"
    "member r ''passed'' = Some (num (length results - length (failed_of results)))" "member r ''not_run'' = None"
    "\<exists>fs. member r ''failed'' = Some (JArr fs) \<and> length fs = length (failed_of results)"
  using assms by (auto simp: report_def)

lemma failed_shorter: "length (failed_of results) \<le> length results"
  by (simp add: failed_of_def)

text \<open>What the two rules say of a report this tool writes: something ran, and as much as was declared.\<close>

lemma validate_own_report:
  assumes "report c results = Inr r" "sch_report S r = (True, [])"
  shows "validate_report S r = Inr (results \<noteq> [] \<and> int (length results) = cx_declared c,
    (if results = [] then [Zero_vectors] else [])
      @ (if int (length results) \<noteq> cx_declared c then [Not_accounted (int (length results)) 0 (cx_declared c)] else []))"
proof -
  obtain fs where fs: "member r ''failed'' = Some (JArr fs)" "length fs = length (failed_of results)"
    using report_members(5) [OF assms(1)] by blast
  have "int (length results - length (failed_of results)) + int (length fs) = int (length results)"
    using failed_shorter [of results] by (simp add: fs(2) of_nat_diff)
  then show ?thesis
    by (simp add: validate_report_def assms(2) report_members(1-4) [OF assms(1)] fs(1) num_def int_of_def arr_of_def Let_def)
qed

section \<open>The command line\<close>

text \<open>\<open>validate.ts\<close> over the files it is given, already parsed: the failures and the exit code.\<close>

definition validate_main :: "schemas \<Rightarrow> bool \<Rightarrow> json list \<Rightarrow> fault + nat" where
  "validate_main S as_reports files =
     (if as_reports \<and> files = [] then Inr 1
      else rbind (rmap (\<lambda>v. if as_reports then rbind (validate_report S v) (\<lambda>r. Inr (fst r)) else Inr (sch_proof S v)) files)
        (\<lambda>valid. Inr (if filter (\<lambda>b. \<not> b) valid = [] then 0 else 1)))"

text \<open>Without arguments: every \<open>expected.json\<close> against its schema, every \<open>proof.json\<close> of a file or container vector against what
  its vector says of it. A vector is \<open>(expected, proof)\<close>.\<close>

definition vector_fails :: "schemas \<Rightarrow> json \<times> json option \<Rightarrow> bool" where
  "vector_fails S v = (case v of (expected, proof) \<Rightarrow>
     if \<not> sch_expected S expected then True
     else if member expected ''kind'' \<notin> {Some (JStr (js ''file'')), Some (JStr (js ''container''))} then False
     else case proof of None \<Rightarrow> False
     | Some p \<Rightarrow> (let want = (case member expected ''schema_valid'' of None \<Rightarrow> JBool True | Some JNull \<Rightarrow> JBool True | Some w \<Rightarrow> w)
         in JBool (sch_proof S p) \<noteq> want))"

definition validate_corpus :: "schemas \<Rightarrow> (json \<times> json option) list \<Rightarrow> json option \<Rightarrow> fault + nat" where
  "validate_corpus S vectors claim =
     rbind (case claim of None \<Rightarrow> Inr [] | Some r \<Rightarrow> rbind (validate_report S r) (\<lambda>v. Inr (if fst v then [] else [()])))
       (\<lambda>own. Inr (if filter (vector_fails S) vectors = [] \<and> own = [] then 0 else 1))"

section \<open>The property\<close>

lemma report_main_zero:
  assumes "report c results = Inr r"
  shows "report_main L check c results old = Inr (out, 0) \<longleftrightarrow>
    (check \<longrightarrow> map_option (utf8_text L) old = Some (manifest_text r)) \<and> out = (if check then old else Some (utf8_encode (manifest_text r)))
      \<and> results \<noteq> [] \<and> int (length results) = cx_declared c \<and> (\<forall>x \<in> set results. vr_pass x)"
  by (auto simp: report_main_def assms Let_def failed_of_def filter_empty_conv)

text \<open>C10. A green build is a claim: the report script exits with 0 exactly when something ran, as many vectors ran as the manifest
  declares, every one of them passed and, in check mode, the committed report is the one this run writes. A report
  it publishes with exit code 0 is accepted by the validator third parties run, and in check mode nothing is written.\<close>

theorem conformance_claim_exact:
  assumes "report c results = Inr r" "sch_report S r = (True, [])"
  shows "((\<exists>out. report_main L check c results old = Inr (out, 0)) \<longleftrightarrow>
      results \<noteq> [] \<and> int (length results) = cx_declared c \<and> (\<forall>x \<in> set results. vr_pass x)
      \<and> (\<not> check \<or> map_option (utf8_text L) old = Some (manifest_text r)))
    \<and> (\<forall>out. report_main L check c results old = Inr (out, 0) \<longrightarrow> validate_main S True [r] = Inr 0)
    \<and> (\<forall>out code. report_main L True c results old = Inr (out, code) \<longrightarrow> out = old)"
  using report_main_zero [OF assms(1), of L check old] validate_own_report [OF assms]
  by (auto simp: validate_main_def report_main_def assms Let_def split: if_splits)

definition toy_schemas :: schemas where
  "toy_schemas = \<lparr>sch_report = (\<lambda>_. (True, [])), sch_proof = (\<lambda>_. True), sch_expected = (\<lambda>_. True)\<rparr>"

definition toy_corpus :: corpus where
  "toy_corpus = \<lparr>cx_version = js ''1.0.0'', cx_manifest_sha256 = [], cx_declared = 1, cx_names = [js ''01-a''],
     cx_outcomes = [(js ''01-a'', JStr (js ''authentic''))]\<rparr>"

theorem conformance_claim_exact_witness:
  "\<exists>r out. report toy_corpus [\<lparr>vr_name = js ''01-a'', vr_kind = js ''file'', vr_pass = True, vr_detail = None\<rparr>] = Inr r
    \<and> report_main ascii_lib False toy_corpus [\<lparr>vr_name = js ''01-a'', vr_kind = js ''file'', vr_pass = True, vr_detail = None\<rparr>] None = Inr (out, 0)
    \<and> validate_main toy_schemas True [r] = Inr 0"
proof -
  let ?rs = "[\<lparr>vr_name = js ''01-a'', vr_kind = js ''file'', vr_pass = True, vr_detail = None\<rparr>]"
  obtain r where r: "report toy_corpus ?rs = Inr r"
    by (simp add: report_def outcome_tally_def toy_corpus_def map_filter_simps)
  have s: "sch_report toy_schemas r = (True, [])" by (simp add: toy_schemas_def)
  note x = conformance_claim_exact [OF r s, of ascii_lib False None]
  have "?rs \<noteq> [] \<and> int (length ?rs) = cx_declared toy_corpus \<and> (\<forall>x \<in> set ?rs. vr_pass x)" by (simp add: toy_corpus_def)
  with x obtain out where "report_main ascii_lib False toy_corpus ?rs None = Inr (out, 0)" by blast
  with x r show ?thesis by blast
qed

end
