(* ===== verification/Remux.thy ===== *)
theory Remux
  imports Samples
begin

text \<open>
  \<open>tools/src/remux.ts\<close>: the edits of the sample tables the container vectors are cut with. The source file is
  kept up to its \<open>moov\<close>, which is written again with new tables; replaced samples go to a second \<open>mdat\<close>
  behind it. \<open>None\<close> is an exception: a missing box, a field that does not fit, one of the refusals of the tool.
  A plan's numbers are integers.
\<close>

section \<open>The plan\<close>

record track_plan =
  tp_samples :: "nat list"
  tp_delay :: "int option"
  tp_edits :: "(int \<times> int) list option"
  tp_replace :: "nat \<rightharpoonup> bytes"
  tp_sync_all :: bool
  tp_timescale :: "int option"
  tp_retime :: "(int \<Rightarrow> nat \<Rightarrow> int) option"
  tp_cts :: "int list option"

record remux_plan =
  rp_movie_timescale :: "int option"
  rp_video :: "track_plan option"
  rp_audio :: "track_plan option"

section \<open>Writing boxes\<close>

definition write_box :: "string \<Rightarrow> bytes \<Rightarrow> bytes option" where
  "write_box ty payload = map_option (\<lambda>n. n @ ascii ty @ payload) (put_be 4 (int (8 + length payload)))"

definition full_box :: "string \<Rightarrow> bytes \<Rightarrow> bytes option" where
  "full_box ty payload = write_box ty ([0, 0, 0, 0] @ payload)"

text \<open>\<open>u32(...)\<close> of each number, joined; \<open>writeInt32BE\<close>.\<close>

definition words :: "nat \<Rightarrow> int list \<Rightarrow> bytes option" where
  "words n vs = map_option concat (omap (put_be n) vs)"

definition put_sbe :: "nat \<Rightarrow> int \<Rightarrow> bytes option" where
  "put_sbe n v = (if - (256 ^ n) \<le> 2 * v \<and> 2 * v < 256 ^ n then Some (be_bytes n (nat (v mod 256 ^ n))) else None)"

section \<open>Reading the source tables\<close>

text \<open>\<open>durationsOf\<close>: the runs of \<open>stts\<close>, expanded; the delta of an empty run is not read.\<close>

definition durations_of :: "bytes \<Rightarrow> box \<Rightarrow> int list option" where
  "durations_of whole stbl = do {
     kids \<leftarrow> children whole stbl;
     stts \<leftarrow> find_box kids ''stts'';
     runs \<leftarrow> u32 whole (bx_payload stts + 4);
     ds \<leftarrow> omap (\<lambda>i. let p = bx_payload stts + 8 + i * 8 in do {
         count \<leftarrow> u32 whole p;
         if count = 0 then Some [] else do { delta \<leftarrow> u32 whole (p + 4); Some (replicate count (int delta)) } }) [0..<runs];
     Some (concat ds) }"

text \<open>The sample indexes \<open>stss\<close> marks, all of them without one.\<close>

definition sync_of :: "bytes \<Rightarrow> box \<Rightarrow> nat \<Rightarrow> int list option" where
  "sync_of whole stbl n = do {
     kids \<leftarrow> children whole stbl;
     case find_box kids ''stss'' of None \<Rightarrow> Some (map int [0..<n])
     | Some stss \<Rightarrow> do {
         count \<leftarrow> u32 whole (bx_payload stss + 4);
         omap (\<lambda>i. map_option (\<lambda>v. int v - 1) (u32 whole (bx_payload stss + 8 + i * 4))) [0..<count] } }"

definition retimed :: "track_plan \<Rightarrow> int list \<Rightarrow> int list" where
  "retimed plan ds = (case tp_retime plan of None \<Rightarrow> ds | Some f \<Rightarrow> map (\<lambda>i. f (ds ! i) i) [0..<length ds])"

section \<open>The new tables\<close>

text \<open>A duration read past the end is \<open>undefined\<close>, which a write turns into 0 (\<open>NaN\<close>).\<close>

definition add_run :: "(nat \<times> int option) list \<Rightarrow> int option \<Rightarrow> (nat \<times> int option) list" where
  "add_run runs d = (if runs \<noteq> [] \<and> snd (last runs) = d then butlast runs @ [(fst (last runs) + 1, d)] else runs @ [(1, d)])"

definition runs_of :: "int option list \<Rightarrow> (nat \<times> int option) list" where
  "runs_of ds = foldl add_run [] ds"

definition number_or_zero :: "int option \<Rightarrow> int" where
  "number_or_zero d = (case d of None \<Rightarrow> 0 | Some v \<Rightarrow> v)"

definition planned_durations :: "track_plan \<Rightarrow> int list \<Rightarrow> int option list" where
  "planned_durations plan ds = map (\<lambda>i. at (retimed plan ds) i) (tp_samples plan)"

definition planned_sizes :: "track_plan \<Rightarrow> sample list \<Rightarrow> nat list option" where
  "planned_sizes plan ss = omap (\<lambda>i. case tp_replace plan i of Some r \<Rightarrow> Some (length r) | None \<Rightarrow> map_option sm_size (at ss i)) (tp_samples plan)"

definition ctts_of :: "track_plan \<Rightarrow> bytes option" where
  "ctts_of plan = (case tp_cts plan of None \<Rightarrow> Some []
     | Some os \<Rightarrow> if length os \<noteq> length (tp_samples plan) then None else do {
         n \<leftarrow> put_be 4 (int (length os));
         entries \<leftarrow> omap (\<lambda>v. map_option ((@) (be_bytes 4 1)) (put_sbe 4 v)) os;
         write_box ''ctts'' ([1, 0, 0, 0] @ n @ concat entries) })"

definition stss_of :: "track_plan \<Rightarrow> bool \<Rightarrow> int list \<Rightarrow> bytes option" where
  "stss_of plan has_stss sync = (let
       marks = map (\<lambda>n. if tp_sync_all plan \<or> int (tp_samples plan ! n) \<in> set sync then int n + 1 else 0) [0..<length (tp_samples plan)];
       synced = filter (\<lambda>n. n > 0) marks
     in if has_stss \<or> tp_sync_all plan then Option.bind (words 4 (int (length synced) # synced)) (full_box ''stss'') else Some [])"

definition tables_for :: "bytes \<Rightarrow> box \<Rightarrow> track_plan \<Rightarrow> nat list \<Rightarrow> bytes option" where
  "tables_for whole stbl plan offsets = do {
     kids \<leftarrow> children whole stbl;
     samples \<leftarrow> samples_of whole stbl;
     ds \<leftarrow> durations_of whole stbl;
     sync \<leftarrow> sync_of whole stbl (length samples);
     sizes \<leftarrow> planned_sizes plan samples;
     let runs = runs_of (planned_durations plan ds);
     stts \<leftarrow> Option.bind (words 4 (int (length runs) # concat (map (\<lambda>(n, d). [int n, number_or_zero d]) runs))) (full_box ''stts'');
     ctts \<leftarrow> ctts_of plan;
     stsz \<leftarrow> Option.bind (words 4 (0 # int (length sizes) # map int sizes)) (full_box ''stsz'');
     stsc \<leftarrow> Option.bind (words 4 [1, 1, 1, 1]) (full_box ''stsc'');
     n \<leftarrow> put_be 4 (int (length offsets));
     entries \<leftarrow> words 8 (map int offsets);
     co64 \<leftarrow> full_box ''co64'' (n @ entries);
     stss \<leftarrow> stss_of plan (find_box kids ''stss'' \<noteq> None) sync;
     stsd \<leftarrow> find_box kids ''stsd'';
     write_box ''stbl'' (slice whole (bx_start stsd) (bx_end stsd) @ stts @ ctts @ stss @ stsz @ stsc @ co64) }"

section \<open>Edit lists\<close>

definition elst_for :: "int \<Rightarrow> int \<Rightarrow> bytes option" where
  "elst_for delay duration = do {
     a \<leftarrow> put_be 4 2;
     b \<leftarrow> put_be 4 delay;
     c \<leftarrow> put_be 4 duration;
     elst \<leftarrow> full_box ''elst'' (a @ b @ [0xFF, 0xFF, 0xFF, 0xFF] @ be_bytes 4 0x10000 @ c @ be_bytes 4 0 @ be_bytes 4 0x10000);
     write_box ''edts'' elst }"

definition elst_of :: "(int \<times> int) list \<Rightarrow> bytes option" where
  "elst_of edits = do {
     n \<leftarrow> put_be 4 (int (length edits));
     entries \<leftarrow> omap (\<lambda>(duration, media_time). do {
         a \<leftarrow> put_be 4 duration; b \<leftarrow> put_sbe 4 media_time; Some (a @ b @ be_bytes 4 0x10000) }) edits;
     elst \<leftarrow> full_box ''elst'' (n @ concat entries);
     write_box ''edts'' elst }"

section \<open>The two passes\<close>

text \<open>What a pass reads: the file, the length kept before \<open>moov\<close>, both movie timescales, the plan, the size \<open>moov\<close> will have,
  and \<open>Math.round(d * new / old)\<close> of doubles, which is IEEE arithmetic.\<close>

record remux_pass =
  rx_file :: bytes
  rx_head :: nat
  rx_old :: int
  rx_new :: int
  rx_plan :: remux_plan
  rx_moov :: nat
  rx_scaled :: "nat \<Rightarrow> int \<Rightarrow> int \<Rightarrow> int"

definition total_length :: "bytes list \<Rightarrow> nat" where
  "total_length bs = sum_list (map length bs)"

text \<open>\<open>layout\<close>: where each planned sample is, and the replacements pushed so far.\<close>

fun layout_loop :: "track_plan \<Rightarrow> sample list \<Rightarrow> nat list \<Rightarrow> nat \<Rightarrow> bytes list \<Rightarrow> (nat list \<times> bytes list) option" where
  "layout_loop plan ss [] appended extra = Some ([], extra)"
| "layout_loop plan ss (i # is) appended extra = (case tp_replace plan i of
     None \<Rightarrow> (case at ss i of None \<Rightarrow> None
       | Some s \<Rightarrow> map_option (\<lambda>(os, e). (sm_offset s # os, e)) (layout_loop plan ss is appended extra))
   | Some r \<Rightarrow> map_option (\<lambda>(os, e). (appended # os, e)) (layout_loop plan ss is (appended + length r) (extra @ [r])))"

definition layout :: "remux_pass \<Rightarrow> box \<Rightarrow> track_plan \<Rightarrow> bytes list \<Rightarrow> (nat list \<times> bytes list) option" where
  "layout X stbl plan extra = do {
     ss \<leftarrow> samples_of (rx_file X) stbl;
     layout_loop plan ss (tp_samples plan) (rx_head X + rx_moov X + 8 + total_length extra) extra }"

section \<open>Rebuilding moov\<close>

definition write_at :: "nat \<Rightarrow> int \<Rightarrow> bytes \<Rightarrow> bytes option" where
  "write_at p v bs = do { w \<leftarrow> put_be 4 v; if p + 4 \<le> length bs then Some (take p bs @ w @ drop (p + 4) bs) else None }"

abbreviation box_slice :: "remux_pass \<Rightarrow> box \<Rightarrow> bytes" where
  "box_slice X b \<equiv> slice (rx_file X) (bx_start b) (bx_end b)"

definition inner_box :: "bytes \<Rightarrow> box \<Rightarrow> string \<Rightarrow> box option" where
  "inner_box whole b ty = Option.bind (children whole b) (\<lambda>kids. find_box kids ty)"

definition stbl_of_mdia :: "bytes \<Rightarrow> box \<Rightarrow> box option" where
  "stbl_of_mdia whole mdia = do { minf \<leftarrow> inner_box whole mdia ''minf''; inner_box whole minf ''stbl'' }"

definition scaled_mvhd :: "remux_pass \<Rightarrow> box \<Rightarrow> bytes option" where
  "scaled_mvhd X b = do {
     copy \<leftarrow> write_at 20 (rx_new X) (box_slice X b);
     d \<leftarrow> u32 copy 24;
     write_at 24 (rx_scaled X d (rx_new X) (rx_old X)) copy }"

text \<open>The plan of a track and the kind it is edited as: none of either for a track that is neither video nor audio.\<close>

definition plan_of_trak :: "remux_pass \<Rightarrow> box \<Rightarrow> (track_plan option \<times> track_kind option) option" where
  "plan_of_trak X trak = do {
     mdia \<leftarrow> inner_box (rx_file X) trak ''mdia'';
     stbl \<leftarrow> stbl_of_mdia (rx_file X) mdia;
     stsd \<leftarrow> inner_box (rx_file X) stbl ''stsd'';
     codec \<leftarrow> codec_of (rx_file X) stsd;
     Some (case cd_kind codec of Video_track \<Rightarrow> (rp_video (rx_plan X), Some Video_track)
       | Audio_track \<Rightarrow> (rp_audio (rx_plan X), Some Audio_track) | Other_track \<Rightarrow> (None, None)) }"

text \<open>A sum of durations in which one is \<open>undefined\<close> is \<open>NaN\<close>, written as 0.\<close>

definition summed :: "int option list \<Rightarrow> int" where
  "summed ds = (if None \<in> set ds then 0 else sum_list (map number_or_zero ds))"

definition rescaled_mdhd :: "remux_pass \<Rightarrow> box \<Rightarrow> box \<Rightarrow> track_plan \<Rightarrow> int \<Rightarrow> bytes option" where
  "rescaled_mdhd X container b plan timescale = do {
     (if at (rx_file X) (bx_payload b) \<noteq> Some 0 then None else Some ());
     minf \<leftarrow> inner_box (rx_file X) container ''minf'';
     stbl \<leftarrow> inner_box (rx_file X) minf ''stbl'';
     ds \<leftarrow> durations_of (rx_file X) stbl;
     copy \<leftarrow> write_at 20 timescale (box_slice X b);
     write_at 24 (summed (planned_durations plan ds)) copy }"

definition media_scale :: "remux_pass \<Rightarrow> box \<Rightarrow> track_plan option \<Rightarrow> int option" where
  "media_scale X trak plan = do {
     mdia \<leftarrow> inner_box (rx_file X) trak ''mdia'';
     kids \<leftarrow> children (rx_file X) mdia;
     case Option.bind plan tp_timescale of Some t \<Rightarrow> Some t
     | None \<Rightarrow> do { mdhd \<leftarrow> find_box kids ''mdhd''; map_option int (u32 (rx_file X) (bx_payload mdhd + 12)) } }"

text \<open>The edit list in front of \<open>mdia\<close>: the plan's own, or the delay with the media edit rounded down.\<close>

definition edit_list :: "remux_pass \<Rightarrow> box \<Rightarrow> track_plan option \<Rightarrow> track_kind option \<Rightarrow> int \<Rightarrow> bytes option" where
  "edit_list X mdia plan kind ticks = (case (plan, kind) of (Some pl, Some _) \<Rightarrow> do {
       stbl \<leftarrow> stbl_of_mdia (rx_file X) mdia;
       ds \<leftarrow> durations_of (rx_file X) stbl;
       media \<leftarrow> map_option sum_list (omap (\<lambda>d. d) (planned_durations pl ds));
       case tp_edits pl of Some edits \<Rightarrow> elst_of edits
       | None \<Rightarrow> (let delay = (case tp_delay pl of None \<Rightarrow> 0 | Some d \<Rightarrow> d) in
           if delay \<le> 0 then Some [] else if ticks = 0 then None
           else elst_for delay (sgn (media * rx_new X) * sgn ticks * (\<bar>media * rx_new X\<bar> div \<bar>ticks\<bar>))) }
     | _ \<Rightarrow> Some [])"

fun ofold :: "('x \<Rightarrow> 's \<Rightarrow> 's option) \<Rightarrow> 'x list \<Rightarrow> 's \<Rightarrow> 's option" where
  "ofold f [] s = Some s"
| "ofold f (x # xs) s = (case f x s of None \<Rightarrow> None | Some s' \<Rightarrow> ofold f xs s')"

lemma ofold_cong [fundef_cong]:
  "xs = ys \<Longrightarrow> (\<And>x s. x \<in> set ys \<Longrightarrow> f x s = g x s) \<Longrightarrow> s = t \<Longrightarrow> ofold f xs s = ofold g ys t"
proof (induction ys arbitrary: xs s t)
  case (Cons y ys)
  then show ?case by (auto split: option.split)
qed simp

text \<open>\<open>parts.push(...)\<close> of what one child gives, which may have pushed replacements.\<close>

definition push :: "bytes \<Rightarrow> (bytes \<times> bytes list) option \<Rightarrow> (bytes \<times> bytes list) option" where
  "push out r = map_option (\<lambda>(b, e). (out @ b, e)) r"

definition boxed :: "string \<Rightarrow> (bytes \<times> bytes list) option \<Rightarrow> (bytes \<times> bytes list) option" where
  "boxed ty r = Option.bind r (\<lambda>(b, e). map_option (\<lambda>w. (w, e)) (write_box ty b))"

definition new_tables :: "remux_pass \<Rightarrow> box \<Rightarrow> track_plan \<Rightarrow> bytes list \<Rightarrow> (bytes \<times> bytes list) option" where
  "new_tables X stbl plan extra = do {
     (offsets, e) \<leftarrow> layout X stbl plan extra;
     t \<leftarrow> tables_for (rx_file X) stbl plan offsets;
     Some (t, e) }"

lemma boxes_payload: "boxes whole p fin = Some bs \<Longrightarrow> b \<in> set bs \<Longrightarrow> bx_start b + 8 \<le> bx_payload b"
proof (induction whole p fin arbitrary: bs rule: boxes.induct)
  case (1 whole p fin)
  show ?case
  proof (cases "p + 8 > fin")
    case True
    then show ?thesis using "1.prems" by (simp add: boxes.simps [of whole p fin])
  next
    case False
    then obtain sz payload where h: "box_head whole p fin = Some (sz, payload)"
      using "1.prems"(1) by (cases "box_head whole p fin") (auto simp: boxes.simps [of whole p fin])
    have pl: "p + 8 \<le> payload" using h by (auto simp: box_head_def bind_eq_Some_conv split: if_splits)
    show ?thesis
    proof (cases "sz < 8 \<or> p + sz > fin")
      case True
      then show ?thesis using "1.prems" False h by (simp add: boxes.simps [of whole p fin])
    next
      case ok: False
      then obtain rest where r: "boxes whole (p + sz) fin = Some rest"
        "bs = \<lparr>bx_type = latin1 (slice whole (p + 4) (p + 8)), bx_start = p, bx_end = p + sz, bx_payload = payload\<rparr> # rest"
        using "1.prems"(1) False h by (auto simp: boxes.simps [of whole p fin])
      from "1.IH" [OF False h refl ok r(1)] show ?thesis using "1.prems"(2) pl r(2) by auto
    qed
  qed
qed

lemma child_smaller:
  "children whole c = Some kids \<Longrightarrow> b \<in> set kids \<Longrightarrow> bx_end b - bx_payload b < bx_end c - bx_payload c"
  using boxes_payload [of whole "bx_payload c" "bx_end c" kids b] tiles_bounds [OF boxes_tile, of whole "bx_payload c" "bx_end c" kids b]
  by (fastforce simp: children_def)

function rebuilt :: "remux_pass \<Rightarrow> box \<Rightarrow> track_plan option \<Rightarrow> track_kind option \<Rightarrow> bytes list \<Rightarrow> (bytes \<times> bytes list) option"
  and rebuilt_trak :: "remux_pass \<Rightarrow> box \<Rightarrow> track_plan option \<Rightarrow> track_kind option \<Rightarrow> bytes list \<Rightarrow> (bytes \<times> bytes list) option" where
  "rebuilt X container plan kind extra = (case children (rx_file X) container of None \<Rightarrow> None
   | Some kids \<Rightarrow> ofold (\<lambda>child (out, e). push out
       (if bx_type child = ''mvhd'' \<and> rx_new X \<noteq> rx_old X then map_option (\<lambda>b. (b, e)) (scaled_mvhd X child)
        else if bx_type child = ''trak'' then (case plan_of_trak X child of None \<Rightarrow> None | Some (own, k) \<Rightarrow> rebuilt_trak X child own k e)
        else if bx_type child = ''mdhd'' \<and> Option.bind plan tp_timescale \<noteq> None
          then map_option (\<lambda>b. (b, e)) (rescaled_mdhd X container child (the plan) (the (Option.bind plan tp_timescale)))
        else if bx_type child = ''stbl'' \<and> plan \<noteq> None \<and> kind \<noteq> None then new_tables X child (the plan) e
        else if bx_type child = ''minf'' then boxed ''minf'' (rebuilt X child plan kind e)
        else Some (box_slice X child, e))) kids ([], extra))"
| "rebuilt_trak X trak plan kind extra = (case media_scale X trak plan of None \<Rightarrow> None
   | Some ticks \<Rightarrow> (case children (rx_file X) trak of None \<Rightarrow> None
   | Some kids \<Rightarrow> boxed ''trak'' (ofold (\<lambda>child (out, e). push out
       (if bx_type child = ''edts'' then (if plan \<noteq> None then Some ([], e) else if rx_new X \<noteq> rx_old X then None else Some (box_slice X child, e))
        else if bx_type child = ''mdia'' then (case edit_list X child plan kind ticks of None \<Rightarrow> None
          | Some el \<Rightarrow> push el (boxed ''mdia'' (rebuilt X child plan kind e)))
        else Some (box_slice X child, e))) kids ([], extra))))"
  by pat_completeness auto
termination
  by (relation "measure (case_sum (\<lambda>(X, c, _). bx_end c - bx_payload c) (\<lambda>(X, c, _). bx_end c - bx_payload c))")
    (auto dest: child_smaller)

declare rebuilt.simps [simp del] rebuilt_trak.simps [simp del]

definition build_moov :: "remux_pass \<Rightarrow> box \<Rightarrow> (bytes \<times> bytes list) option" where
  "build_moov X moov = boxed ''moov'' (rebuilt X moov None None [])"

text \<open>The second \<open>mdat\<close>, when a sample is replaced.\<close>

definition tail_of :: "bytes list \<Rightarrow> bytes option" where
  "tail_of extra = (if extra = [] then Some [] else write_box ''mdat'' (concat extra))"

definition remux :: "(nat \<Rightarrow> int \<Rightarrow> int \<Rightarrow> int) \<Rightarrow> bytes \<Rightarrow> remux_plan \<Rightarrow> bytes option" where
  "remux scaled whole plan = do {
     top \<leftarrow> boxes whole 0 (length whole);
     moov \<leftarrow> find_box top ''moov'';
     (if \<exists>b \<in> set top. bx_type b = ''mdat'' \<and> bx_start b > bx_start moov then None else Some ());
     mvhd \<leftarrow> inner_box whole moov ''mvhd'';
     (if at whole (bx_payload mvhd) \<noteq> Some 0 then None else Some ());
     old \<leftarrow> map_option int (u32 whole (bx_payload mvhd + 12));
     let X = \<lparr>rx_file = whole, rx_head = bx_start moov, rx_old = old,
       rx_new = (case rp_movie_timescale plan of None \<Rightarrow> old | Some n \<Rightarrow> n), rx_plan = plan, rx_moov = 0, rx_scaled = scaled\<rparr>;
     (sized, _) \<leftarrow> build_moov X moov;
     (written, extra) \<leftarrow> build_moov (X\<lparr>rx_moov := length sized\<rparr>) moov;
     (if length written \<noteq> length sized then None else Some ());
     tail \<leftarrow> tail_of extra;
     Some (take (bx_start moov) whole @ written @ tail) }"

section \<open>Both passes write as much\<close>

definition same_size :: "bytes \<times> bytes list \<Rightarrow> bytes \<times> bytes list \<Rightarrow> bool" where
  "same_size s t \<longleftrightarrow> length (fst s) = length (fst t) \<and> snd s = snd t"

text \<open>Two runs of the same fold stay related when each step keeps the relation.\<close>

lemma ofold_related:
  assumes "\<And>x s t s' t'. x \<in> set xs \<Longrightarrow> R s t \<Longrightarrow> f x s = Some s' \<Longrightarrow> g x t = Some t' \<Longrightarrow> R s' t'"
  shows "R s t \<Longrightarrow> ofold f xs s = Some s' \<Longrightarrow> ofold g xs t = Some t' \<Longrightarrow> R s' t'"
  using assms
proof (induction xs arbitrary: s t)
  case (Cons x xs)
  obtain s1 t1 where st: "f x s = Some s1" "g x t = Some t1" using Cons.prems(2,3) by (auto split: option.splits)
  have r: "R s1 t1" using Cons.prems(4) [of x s t s1 t1] Cons.prems(1) st by simp
  have o: "ofold f xs s1 = Some s'" "ofold g xs t1 = Some t'" using Cons.prems(2,3) st by simp_all
  show ?case by (rule Cons.IH [OF r o]) (rule Cons.prems(4), simp_all)
qed simp

lemma push_related: "same_size (out, e) (out', e') \<Longrightarrow> push out r = Some s \<Longrightarrow> push out' r' = Some t \<Longrightarrow>
    (\<And>a b. r = Some a \<Longrightarrow> r' = Some b \<Longrightarrow> same_size a b) \<Longrightarrow> same_size s t"
  by (cases r; cases r') (auto simp: push_def same_size_def)

lemma write_box_length: "write_box ty p = Some w \<Longrightarrow> length w = length p + 4 + length ty"
  by (auto simp: write_box_def dest: put_be_length)

lemma boxed_related: "boxed ty r = Some s \<Longrightarrow> boxed ty r' = Some t \<Longrightarrow> (\<And>a b. r = Some a \<Longrightarrow> r' = Some b \<Longrightarrow> same_size a b) \<Longrightarrow> same_size s t"
  by (cases r; cases r') (auto simp: boxed_def same_size_def dest!: write_box_length)

lemma layout_loop_related:
  "layout_loop plan ss is a extra = Some (os, e) \<Longrightarrow> layout_loop plan ss is a' extra = Some (os', e') \<Longrightarrow> length os = length is \<and> length os' = length is \<and> e = e'"
  by (induction "is" arbitrary: a a' extra os os') (auto split: option.splits)

lemma words_length: "words n vs = Some bs \<Longrightarrow> length bs = n * length vs"
proof -
  have "omap (put_be n) vs = Some xs \<Longrightarrow> length (concat xs) = n * length vs" for xs
    by (induction vs arbitrary: xs) (auto split: option.splits dest!: put_be_length)
  then show "words n vs = Some bs \<Longrightarrow> length bs = n * length vs" by (auto simp: words_def)
qed

lemma tables_for_length:
  assumes "tables_for whole stbl plan os = Some t" "tables_for whole stbl plan os' = Some t'" "length os = length os'"
  shows "length t = length t'"
  using assms
  by (auto simp: tables_for_def full_box_def Let_def bind_eq_Some_conv dest!: write_box_length words_length put_be_length)

lemma new_tables_related:
  "new_tables X stbl plan extra = Some s \<Longrightarrow> new_tables (X\<lparr>rx_moov := m\<rparr>) stbl plan extra = Some t \<Longrightarrow> same_size s t"
  by (auto simp: new_tables_def layout_def same_size_def bind_eq_Some_conv dest: layout_loop_related intro!: tables_for_length)

lemma pass_fields: "rx_new (X\<lparr>rx_moov := m\<rparr>) = rx_new X" "rx_old (X\<lparr>rx_moov := m\<rparr>) = rx_old X" "rx_file (X\<lparr>rx_moov := m\<rparr>) = rx_file X"
  by simp_all

lemma pass_independent [simp]:
  "scaled_mvhd (X\<lparr>rx_moov := m\<rparr>) = scaled_mvhd X" "plan_of_trak (X\<lparr>rx_moov := m\<rparr>) = plan_of_trak X"
  "rescaled_mdhd (X\<lparr>rx_moov := m\<rparr>) = rescaled_mdhd X" "media_scale (X\<lparr>rx_moov := m\<rparr>) = media_scale X"
  "edit_list (X\<lparr>rx_moov := m\<rparr>) = edit_list X"
  by (intro ext; simp add: scaled_mvhd_def plan_of_trak_def rescaled_mdhd_def media_scale_def edit_list_def
      Let_def cong: option.case_cong track_kind.case_cong if_cong)+

text \<open>What the loops do with one child.\<close>

definition moov_step :: "remux_pass \<Rightarrow> box \<Rightarrow> track_plan option \<Rightarrow> track_kind option \<Rightarrow> box \<Rightarrow> bytes \<times> bytes list \<Rightarrow> (bytes \<times> bytes list) option" where
  "moov_step X c plan kind child = (\<lambda>(out, e). push out
       (if bx_type child = ''mvhd'' \<and> rx_new X \<noteq> rx_old X then map_option (\<lambda>b. (b, e)) (scaled_mvhd X child)
        else if bx_type child = ''trak'' then (case plan_of_trak X child of None \<Rightarrow> None | Some (own, k) \<Rightarrow> rebuilt_trak X child own k e)
        else if bx_type child = ''mdhd'' \<and> Option.bind plan tp_timescale \<noteq> None
          then map_option (\<lambda>b. (b, e)) (rescaled_mdhd X c child (the plan) (the (Option.bind plan tp_timescale)))
        else if bx_type child = ''stbl'' \<and> plan \<noteq> None \<and> kind \<noteq> None then new_tables X child (the plan) e
        else if bx_type child = ''minf'' then boxed ''minf'' (rebuilt X child plan kind e)
        else Some (box_slice X child, e)))"

definition trak_step :: "remux_pass \<Rightarrow> track_plan option \<Rightarrow> track_kind option \<Rightarrow> int \<Rightarrow> box \<Rightarrow> bytes \<times> bytes list \<Rightarrow> (bytes \<times> bytes list) option" where
  "trak_step X plan kind ticks child = (\<lambda>(out, e). push out
       (if bx_type child = ''edts'' then (if plan \<noteq> None then Some ([], e) else if rx_new X \<noteq> rx_old X then None else Some (box_slice X child, e))
        else if bx_type child = ''mdia'' then (case edit_list X child plan kind ticks of None \<Rightarrow> None
          | Some el \<Rightarrow> push el (boxed ''mdia'' (rebuilt X child plan kind e)))
        else Some (box_slice X child, e)))"

lemma rebuilt_eq: "rebuilt X c plan kind extra = Option.bind (children (rx_file X) c) (\<lambda>kids. ofold (moov_step X c plan kind) kids ([], extra))"
  unfolding moov_step_def by (subst rebuilt.simps, cases "children (rx_file X) c") simp_all

lemma rebuilt_trak_eq: "rebuilt_trak X c plan kind extra = Option.bind (media_scale X c plan) (\<lambda>ticks.
    Option.bind (children (rx_file X) c) (\<lambda>kids. boxed ''trak'' (ofold (trak_step X plan kind ticks) kids ([], extra))))"
  unfolding trak_step_def by (subst rebuilt_trak.simps, cases "media_scale X c plan"; cases "children (rx_file X) c") simp_all

text \<open>Induction over the boxes: a property of every child, track and container, from those of the ones inside.\<close>

lemma box_induct:
  assumes "\<And>c. (\<And>kids b. children whole c = Some kids \<Longrightarrow> b \<in> set kids \<Longrightarrow> Q b) \<Longrightarrow> Q c"
  shows "Q c"
proof (induction c rule: measure_induct_rule [where f = "\<lambda>c. bx_end c - bx_payload c"])
  case (less c)
  show ?case by (rule assms) (metis less child_smaller)
qed

lemma same_size_refl: "same_size s s"
  by (simp add: same_size_def)

lemma moov_step_related:
  assumes "same_size p q" "moov_step X c plan kind x p = Some p'" "moov_step (X\<lparr>rx_moov := m\<rparr>) c plan kind x q = Some q'"
    and trak: "\<And>own k e s t. rebuilt_trak X x own k e = Some s \<Longrightarrow> rebuilt_trak (X\<lparr>rx_moov := m\<rparr>) x own k e = Some t \<Longrightarrow> same_size s t"
    and inner: "\<And>e s t. rebuilt X x plan kind e = Some s \<Longrightarrow> rebuilt (X\<lparr>rx_moov := m\<rparr>) x plan kind e = Some t \<Longrightarrow> same_size s t"
  shows "same_size p' q'"
proof -
  obtain o1 e o2 where pq: "p = (o1, e)" "q = (o2, e)" using assms(1) by (cases p; cases q) (auto simp: same_size_def)
  show ?thesis
  proof (rule push_related [OF assms(1) [unfolded pq] assms(2) [unfolded moov_step_def pq prod.case] assms(3) [unfolded moov_step_def pq prod.case]], goal_cases)
    case (1 s t)
    note r = 1(1) and r' = 1(2)
    consider (mvhd) "bx_type x = ''mvhd''" "rx_new X \<noteq> rx_old X" | (trak) "bx_type x = ''trak''"
      | (mdhd) "bx_type x = ''mdhd''" "Option.bind plan tp_timescale \<noteq> None"
      | (stbl) "bx_type x = ''stbl''" "plan \<noteq> None" "kind \<noteq> None" | (minf) "bx_type x = ''minf''"
      | (other) "\<not> (bx_type x = ''mvhd'' \<and> rx_new X \<noteq> rx_old X)" "bx_type x \<noteq> ''trak''" "\<not> (bx_type x = ''mdhd'' \<and> Option.bind plan tp_timescale \<noteq> None)"
        "\<not> (bx_type x = ''stbl'' \<and> plan \<noteq> None \<and> kind \<noteq> None)" "bx_type x \<noteq> ''minf''" by blast
    then show ?case
    proof cases
      case mvhd
      then show ?thesis using r r' by (simp add: same_size_def) (metis option.inject prod.inject fst_conv snd_conv map_option_eq_Some)
    next
      case trak
      obtain own k where "plan_of_trak X x = Some (own, k)" using r trak by (simp split: option.splits prod.splits)
      then have "rebuilt_trak X x own k e = Some s" "rebuilt_trak (X\<lparr>rx_moov := m\<rparr>) x own k e = Some t" using r r' trak by simp_all
      then show ?thesis by (rule assms(4))
    next
      case mdhd
      then show ?thesis using r r' by (simp add: same_size_def) (metis option.inject prod.inject fst_conv snd_conv map_option_eq_Some)
    next
      case stbl
      then have "new_tables X x (the plan) e = Some s" "new_tables (X\<lparr>rx_moov := m\<rparr>) x (the plan) e = Some t" using r r' by simp_all
      then show ?thesis by (rule new_tables_related)
    next
      case minf
      then have "boxed ''minf'' (rebuilt X x plan kind e) = Some s" "boxed ''minf'' (rebuilt (X\<lparr>rx_moov := m\<rparr>) x plan kind e) = Some t"
        using r r' by simp_all
      then show ?thesis by (rule boxed_related) (rule inner)
    next
      case other
      have "Some (box_slice X x, e) = Some s" "Some (box_slice X x, e) = Some t"
        using r r' [unfolded pass_fields pass_independent]
        by (simp_all only: if_not_P [OF other(1)] if_not_P [OF other(3)] if_not_P [OF other(4)] other(2,5) if_False simp_thms)
      then show ?thesis by (auto simp: same_size_def)
    qed
  qed
qed

lemma trak_step_related:
  assumes "same_size p q" "trak_step X plan kind ticks x p = Some p'" "trak_step (X\<lparr>rx_moov := m\<rparr>) plan kind ticks x q = Some q'"
    and inner: "\<And>e s t. rebuilt X x plan kind e = Some s \<Longrightarrow> rebuilt (X\<lparr>rx_moov := m\<rparr>) x plan kind e = Some t \<Longrightarrow> same_size s t"
  shows "same_size p' q'"
proof -
  obtain o1 e o2 where pq: "p = (o1, e)" "q = (o2, e)" using assms(1) by (cases p; cases q) (auto simp: same_size_def)
  show ?thesis
  proof (rule push_related [OF assms(1) [unfolded pq] assms(2) [unfolded trak_step_def pq prod.case] assms(3) [unfolded trak_step_def pq prod.case]], goal_cases)
    case (1 s t)
    note r = 1(1) and r' = 1(2) [unfolded pass_fields pass_independent]
    show ?case
    proof (cases "bx_type x = ''mdia''")
      case True
      then obtain el where el: "push el (boxed ''mdia'' (rebuilt X x plan kind e)) = Some s"
          "push el (boxed ''mdia'' (rebuilt (X\<lparr>rx_moov := m\<rparr>) x plan kind e)) = Some t"
        using r r' by (cases "edit_list X x plan kind ticks") simp_all
      show ?thesis
        by (rule push_related [OF same_size_refl [of "(el, e)"] el]) (auto elim: boxed_related inner)
    next
      case False
      then have "s = t" using r r' by (simp split: if_splits)
      then show ?thesis by (simp add: same_size_refl)
    qed
  qed
qed

lemma rebuilt_related:
  "(\<forall>plan kind extra s t. rebuilt X c plan kind extra = Some s \<longrightarrow> rebuilt (X\<lparr>rx_moov := m\<rparr>) c plan kind extra = Some t \<longrightarrow> same_size s t)
  \<and> (\<forall>plan kind extra s t. rebuilt_trak X c plan kind extra = Some s \<longrightarrow> rebuilt_trak (X\<lparr>rx_moov := m\<rparr>) c plan kind extra = Some t \<longrightarrow> same_size s t)"
proof (induction c rule: box_induct [where whole = "rx_file X"])
  case (1 c)
  show ?case
  proof (intro conjI allI impI)
    fix plan kind extra s t
    assume "rebuilt X c plan kind extra = Some s" "rebuilt (X\<lparr>rx_moov := m\<rparr>) c plan kind extra = Some t"
    then obtain kids where k: "children (rx_file X) c = Some kids" "ofold (moov_step X c plan kind) kids ([], extra) = Some s"
        "ofold (moov_step (X\<lparr>rx_moov := m\<rparr>) c plan kind) kids ([], extra) = Some t"
      by (auto simp: rebuilt_eq pass_fields bind_eq_Some_conv)
    show "same_size s t"
      by (rule ofold_related [OF _ same_size_refl k(2,3)], erule moov_step_related) (use 1 [OF k(1)] in blast)+
  next
    fix plan kind extra s t
    assume "rebuilt_trak X c plan kind extra = Some s" "rebuilt_trak (X\<lparr>rx_moov := m\<rparr>) c plan kind extra = Some t"
    then obtain ticks kids where k: "children (rx_file X) c = Some kids" "boxed ''trak'' (ofold (trak_step X plan kind ticks) kids ([], extra)) = Some s"
        "boxed ''trak'' (ofold (trak_step (X\<lparr>rx_moov := m\<rparr>) plan kind ticks) kids ([], extra)) = Some t"
      by (auto simp: rebuilt_trak_eq pass_fields bind_eq_Some_conv)
    show "same_size s t"
    proof (rule boxed_related [OF k(2,3)])
      fix a b
      assume o: "ofold (trak_step X plan kind ticks) kids ([], extra) = Some a" "ofold (trak_step (X\<lparr>rx_moov := m\<rparr>) plan kind ticks) kids ([], extra) = Some b"
      show "same_size a b"
        by (rule ofold_related [OF _ same_size_refl o], erule trak_step_related) (use 1 [OF k(1)] in blast)+
    qed
  qed
qed

lemma build_moov_sizes:
  "build_moov X moov = Some (a, e) \<Longrightarrow> build_moov (X\<lparr>rx_moov := m\<rparr>) moov = Some (b, e') \<Longrightarrow> length a = length b \<and> e = e'"
  unfolding build_moov_def using boxed_related [of "''moov''" "rebuilt X moov None None []" "(a, e)" "rebuilt (X\<lparr>rx_moov := m\<rparr>) moov None None []" "(b, e')"]
    rebuilt_related [of X moov m] by (auto simp: same_size_def)

end
