(* ===== verification/Parts.thy ===== *)
theory Parts
  imports Remux
begin

text \<open>
  Boxes with a 32-bit size, one after the other: what \<open>box\<close> writes, the box walk of \<open>Boxes\<close> reads, at the places it was written.
\<close>

section \<open>Boxes written one after the other\<close>

definition part_bytes :: "string \<times> bytes \<Rightarrow> bytes" where
  "part_bytes b = be_bytes 4 (8 + length (snd b)) @ ascii (fst b) @ snd b"

definition part_ok :: "string \<times> bytes \<Rightarrow> bool" where
  "part_ok b \<longleftrightarrow> length (fst b) = 4 \<and> 8 + length (snd b) < 256 ^ 4"

fun placed_boxes :: "nat \<Rightarrow> (string \<times> bytes) list \<Rightarrow> box list" where
  "placed_boxes p [] = []"
| "placed_boxes p ((ty, x) # r) = \<lparr>bx_type = ty, bx_start = p, bx_end = p + 8 + length x, bx_payload = p + 8\<rparr> # placed_boxes (p + 8 + length x) r"

lemma part_length: "part_ok b \<Longrightarrow> length (part_bytes b) = 8 + length (snd b)"
  by (simp add: part_ok_def part_bytes_def)

lemma read_at_front: "v < 256 ^ n \<Longrightarrow> read_be n (a @ be_bytes n v @ c) (length a) = Some v"
  using read_be_append_right [of a "length a" n "be_bytes n v @ c"] read_be_be_bytes [of v n c] by simp

lemma boxes_part:
  assumes "part_ok b" "whole = a @ part_bytes b @ c" "length a + length (part_bytes b) \<le> fin"
  shows "boxes whole (length a) fin = map_option (Cons \<lparr>bx_type = fst b, bx_start = length a, bx_end = length a + 8 + length (snd b),
    bx_payload = length a + 8\<rparr>) (boxes whole (length a + 8 + length (snd b)) fin)"
proof -
  let ?n = "8 + length (snd b)"
  have n: "?n < 256 ^ 4" "length (fst b) = 4" using assms(1) by (simp_all add: part_ok_def)
  have l: "length (part_bytes b) = ?n" by (rule part_length [OF assms(1)])
  have w: "whole = a @ be_bytes 4 ?n @ ascii (fst b) @ snd b @ c" by (simp add: assms(2) part_bytes_def)
  have "u32 whole (length a) = Some ?n" unfolding w by (rule read_at_front) (rule n(1))
  then have h: "box_head whole (length a) fin = Some (?n, length a + 8)" by (simp add: box_head_def)
  have t: "slice whole (length a + 4) (length a + 8) = ascii (fst b)"
    unfolding w using n(2) by (simp add: slice_def)
  show ?thesis
    using assms(3) l by (simp add: boxes.simps [of whole "length a"] h t add.assoc)
qed

lemma boxes_parts:
  assumes "\<forall>b \<in> set parts. part_ok b" "whole = a @ concat (map part_bytes parts) @ c"
  shows "boxes whole (length a) (length a + length (concat (map part_bytes parts))) = Some (placed_boxes (length a) parts)"
  using assms
proof (induction parts arbitrary: a)
  case Nil
  then show ?case by (simp add: boxes.simps)
next
  case (Cons b parts)
  let ?fin = "length a + length (concat (map part_bytes (b # parts)))"
  have b: "part_ok b" using Cons.prems(1) by simp
  have w: "whole = a @ part_bytes b @ concat (map part_bytes parts) @ c" using Cons.prems(2) by simp
  have w': "whole = (a @ part_bytes b) @ concat (map part_bytes parts) @ c" using w by simp
  have l: "length (a @ part_bytes b) = length a + 8 + length (snd b)" using part_length [OF b] by simp
  have "boxes whole (length a + 8 + length (snd b)) ?fin = Some (placed_boxes (length a + 8 + length (snd b)) parts)"
    using Cons.IH [OF _ w'] Cons.prems(1) part_length [OF b] by (simp add: l add.assoc)
  then show ?case
    using boxes_part [OF b w, of ?fin] by (cases b) simp
qed

text \<open>Where the payload of each is.\<close>

definition payload_at :: "bytes \<Rightarrow> box \<Rightarrow> bytes \<Rightarrow> bool" where
  "payload_at whole b x \<longleftrightarrow> (\<exists>a c. whole = a @ x @ c \<and> length a = bx_payload b)"

lemma find_placed:
  assumes "\<forall>b \<in> set parts. part_ok b" "whole = a @ concat (map part_bytes parts) @ c" "distinct (map fst parts)" "(ty, x) \<in> set parts"
  shows "\<exists>b. find_box (placed_boxes (length a) parts) ty = Some b \<and> payload_at whole b x"
  using assms
proof (induction parts arbitrary: a)
  case (Cons p parts)
  obtain u y where p: "p = (u, y)" by (cases p)
  have b: "part_ok (u, y)" using Cons.prems(1) by (simp add: p)
  have w: "whole = (a @ part_bytes (u, y)) @ concat (map part_bytes parts) @ c" using Cons.prems(2) by (simp add: p)
  have l: "length (a @ part_bytes (u, y)) = length a + 8 + length y" using part_length [OF b] by simp
  show ?case
  proof (cases "u = ty")
    case True
    then have "(ty, x) = (u, y)" using Cons.prems(3,4) by (force simp: p)
    moreover have "payload_at whole \<lparr>bx_type = u, bx_start = length a, bx_end = length a + 8 + length y, bx_payload = length a + 8\<rparr> y"
      unfolding payload_at_def
      by (rule exI [of _ "a @ be_bytes 4 (8 + length y) @ ascii u"]) (use w b in \<open>simp add: part_bytes_def part_ok_def\<close>)
    ultimately show ?thesis by (simp add: p find_box_def)
  next
    case False
    then have m: "(ty, x) \<in> set parts" using Cons.prems(4) by (simp add: p)
    show ?thesis using Cons.IH [OF _ w _ m, unfolded l] Cons.prems(1,3) False by (simp add: p find_box_def)
  qed
qed simp

lemma find_not_placed: "ty \<notin> set (map fst parts) \<Longrightarrow> find_box (placed_boxes n parts) ty = None"
  by (induction n parts rule: placed_boxes.induct) (auto simp: find_box_def)

lemma write_box_part: "write_box ty p = Some w \<Longrightarrow> length ty = 4 \<Longrightarrow> w = part_bytes (ty, p) \<and> part_ok (ty, p)"
  by (auto simp: write_box_def part_bytes_def part_ok_def put_be_Some nat_less_iff nat_add_distrib)

end
