(* ===== verification/Remux_Read.thy ===== *)
theory Remux_Read
  imports Parts "HOL-Library.Sublist"
begin

text \<open>
  What \<open>Remux\<close> writes, \<open>Samples\<close> reads: the container reader finds in a rewritten sample table exactly the planned
  samples, and at the offsets the layout gave them the bytes they stand for.
\<close>

section \<open>Tables of words\<close>

lemma payload_read: "payload_at whole b x \<Longrightarrow> k + n \<le> length x \<Longrightarrow> read_be n whole (bx_payload b + k) = read_be n x k"
proof -
  assume "payload_at whole b x" and k: "k + n \<le> length x"
  then obtain a c where w: "whole = a @ x @ c" "length a = bx_payload b" by (auto simp: payload_at_def)
  show ?thesis
    using read_be_append_right [of a "bx_payload b + k" n "x @ c"] read_be_append_left [of k n x c] k by (simp add: w)
qed

definition table :: "nat \<Rightarrow> nat list \<Rightarrow> bytes" where
  "table w vs = concat (map (be_bytes w) vs)"

lemma table_length: "length (table w vs) = w * length vs"
  by (induction vs) (simp_all add: table_def)

lemma table_read: "\<forall>v \<in> set vs. v < 256 ^ w \<Longrightarrow> i < length vs \<Longrightarrow> read_be w (table w vs) (w * i) = Some (vs ! i)"
proof -
  assume v: "\<forall>v \<in> set vs. v < 256 ^ w" and i: "i < length vs"
  have t: "table w vs = table w (take i vs) @ be_bytes w (vs ! i) @ table w (drop (Suc i) vs)"
    using i unfolding table_def by (subst id_take_nth_drop [OF i]) simp
  have "length (table w (take i vs)) = w * i" using i by (simp add: table_length)
  then show ?thesis using read_at_front [of "vs ! i" w "table w (take i vs)"] v i by (simp add: t)
qed

lemma words_table: "words n vs = Some bs \<Longrightarrow> bs = table n (map nat vs) \<and> (\<forall>v \<in> set vs. 0 \<le> v \<and> v < 256 ^ n)"
proof (induction vs arbitrary: bs)
  case (Cons v vs)
  then obtain b r where b: "put_be n v = Some b" "words n vs = Some r" "bs = b @ r"
    by (auto simp: words_def split: option.splits)
  then show ?case using Cons.IH [OF b(2)] by (simp add: table_def put_be_Some)
qed (simp add: words_def table_def)

text \<open>A box whose payload is a table of 32-bit words.\<close>

definition holds :: "bytes \<Rightarrow> box \<Rightarrow> nat list \<Rightarrow> bool" where
  "holds whole b ws \<longleftrightarrow> (\<forall>i < length ws. u32 whole (bx_payload b + 4 * i) = Some (ws ! i))"

lemma payload_holds: "payload_at whole b (table 4 ws) \<Longrightarrow> \<forall>v \<in> set ws. v < 256 ^ 4 \<Longrightarrow> holds whole b ws"
proof -
  assume p: "payload_at whole b (table 4 ws)" and v: "\<forall>v \<in> set ws. v < 256 ^ 4"
  have "u32 whole (bx_payload b + 4 * i) = Some (ws ! i)" if "i < length ws" for i
    using payload_read [OF p, of "4 * i" 4] table_read [OF v that] that by (simp add: table_length)
  then show ?thesis by (simp add: holds_def)
qed

lemma map_nth_upt: "map (\<lambda>i. f (xs ! i)) [0..<length xs] = map f xs"
  by (rule nth_equalityI) simp_all

lemma put_sbe_Some: "put_sbe n v = Some bs \<longleftrightarrow> - (256 ^ n) \<le> 2 * v \<and> 2 * v < 256 ^ n \<and> bs = be_bytes n (nat (v mod 256 ^ n))"
  by (auto simp: put_sbe_def)

lemma read_entries_at: "(\<And>i. i < n \<Longrightarrow> f i = Some (g i)) \<Longrightarrow> read_entries n f = Some (map g [0..<n])"
  unfolding read_entries_def by (rule omap_total) simp

lemma zero_word: "[0, 0, 0, 0] = be_bytes 4 0"
  by code_simp

lemma full_words_part:
  assumes "Option.bind (words 4 vs) (full_box ty) = Some w" "length ty = 4"
  shows "w = part_bytes (ty, table 4 (0 # map nat vs)) \<and> part_ok (ty, table 4 (0 # map nat vs)) \<and> (\<forall>v \<in> set (0 # map nat vs). v < 256 ^ 4)"
proof -
  obtain bs where bs: "words 4 vs = Some bs" "write_box ty ([0, 0, 0, 0] @ bs) = Some w"
    using assms(1) by (auto simp: bind_eq_Some_conv full_box_def)
  have "[0, 0, 0, 0] @ bs = table 4 (0 # map nat vs)" using words_table [OF bs(1)] by (simp add: table_def zero_word)
  then show ?thesis
    using write_box_part [OF bs(2) assms(2)] words_table [OF bs(1)] by (auto simp: nat_less_iff)
qed

lemma holds_u32: "holds whole b ws \<Longrightarrow> i < length ws \<Longrightarrow> u32 whole (bx_payload b + 4 * i) = Some (ws ! i)"
  by (simp add: holds_def)

section \<open>One sample per chunk\<close>

definition numbered :: "sample_tables \<Rightarrow> nat \<Rightarrow> nat \<Rightarrow> sample" where
  "numbered t offset n = \<lparr>sm_offset = offset, sm_size = (case at (tb_sizes t) n of Some s \<Rightarrow> s | None \<Rightarrow> 0),
     sm_dts = sum_list (map (delta_of t) [0..<n]), sm_duration = delta_of t n,
     sm_cts = (case at (tb_offsets t) n of Some v \<Rightarrow> v | None \<Rightarrow> 0)\<rparr>"

lemma one_per_chunk: "per_chunk [(1, 1)] k = 1"
  by (simp add: per_chunk_def)

lemma map_upt_Cons: "map f [0..<length (x # xs)] = f 0 # map (\<lambda>i. f (Suc i)) [0..<length xs]"
  by (simp add: upt_conv_Cons map_Suc_upt [symmetric] del: upt_Suc)

lemma place_one_each:
  assumes "tb_runs t = [(1, 1)]"
  shows "length ss + length rest = tb_count t \<Longrightarrow> dts = sum_list (map (delta_of t) [0..<length ss]) \<Longrightarrow>
    fst (place_chunks t k rest (ss, dts)) = ss @ map (\<lambda>i. numbered t (rest ! i) (length ss + i)) [0..<length rest]"
proof (induction rest arbitrary: ss dts k)
  case (Cons offset rest)
  have m: "\<not> tb_count t \<le> length ss" using Cons.prems(1) by simp
  have one: "per_chunk (tb_runs t) k = Suc 0" using one_per_chunk assms by simp
  have step: "place_samples t (per_chunk (tb_runs t) k) offset (ss, dts) = (ss @ [numbered t offset (length ss)], dts + delta_of t (length ss))"
    by (simp add: one m numbered_def Let_def Cons.prems(2))
  have "fst (place_chunks t (k + 1) rest (ss @ [numbered t offset (length ss)], dts + delta_of t (length ss)))
      = (ss @ [numbered t offset (length ss)]) @ map (\<lambda>i. numbered t (rest ! i) (length (ss @ [numbered t offset (length ss)]) + i)) [0..<length rest]"
    by (rule Cons.IH) (use Cons.prems in simp_all)
  then show ?case unfolding map_upt_Cons using m step by simp
qed simp

lemma place_all_one_each:
  "tb_runs t = [(1, 1)] \<Longrightarrow> length (tb_chunks t) = tb_count t \<Longrightarrow>
    place_all t = Some (map (\<lambda>i. numbered t (tb_chunks t ! i) i) [0..<tb_count t])"
  using place_one_each [of t "[]" "tb_chunks t" 0 0] by (simp add: place_all_def)

section \<open>The runs of the durations\<close>

definition unrun :: "(nat \<times> 'a) list \<Rightarrow> 'a list" where
  "unrun runs = concat (map (\<lambda>r. replicate (fst r) (snd r)) runs)"

lemma unrun_add_run: "unrun (add_run runs d) = unrun runs @ [d]"
proof (cases "runs \<noteq> [] \<and> snd (last runs) = d")
  case True
  then obtain r n where r: "runs = r @ [(n, d)]" by (metis append_butlast_last_id prod.collapse)
  then show ?thesis by (simp add: add_run_def unrun_def replicate_append_same)
qed (auto simp: add_run_def unrun_def)

lemma unrun_runs_of: "unrun (runs_of ds) = ds"
proof -
  have "unrun (foldl add_run runs ds) = unrun runs @ ds" for runs
    by (induction ds arbitrary: runs) (simp_all add: unrun_add_run)
  then show ?thesis by (simp add: runs_of_def unrun_def)
qed

lemma nth_pairs: "i < length xs \<Longrightarrow> concat (map (\<lambda>x. [f x, g x]) xs) ! (2 * i) = f (xs ! i) \<and> concat (map (\<lambda>x. [f x, g x]) xs) ! Suc (2 * i) = g (xs ! i)"
  by (induction xs arbitrary: i) (auto simp: less_Suc_eq_0_disj)

lemma length_pairs: "length (concat (map (\<lambda>x. [f x, g x]) xs)) = 2 * length xs"
  by (induction xs) simp_all

section \<open>Reading the tables back\<close>

lemma stts_read:
  assumes "holds whole b (0 # length runs # concat (map (\<lambda>r. [fst r, snd r]) runs))"
  shows "read_deltas whole (bx_payload b) = Some (unrun runs)"
proof -
  let ?ws = "0 # length runs # concat (map (\<lambda>r. [fst r, snd r]) runs)"
  note u = holds_u32 [OF assms]
  have n: "u32 whole (bx_payload b + 4) = Some (length runs)" using u [of 1] by simp
  have e: "(let p = bx_payload b + 8 + i * 8 in do { count \<leftarrow> u32 whole p; delta \<leftarrow> u32 whole (p + 4); Some (replicate count delta) })
      = Some (replicate (fst (runs ! i)) (snd (runs ! i)))" if i: "i < length runs" for i
    using u [of "2 + 2 * i"] u [of "3 + 2 * i"] nth_pairs [OF i, of fst snd] length_pairs [of fst snd runs] i
    by (simp add: Let_def algebra_simps)
  show ?thesis
    unfolding read_deltas_def using read_entries_at [of "length runs", OF e]
    by (simp add: n unrun_def map_nth_upt [of "\<lambda>r. replicate (fst r) (snd r)"])
qed

lemma stsz_read: "holds whole b (0 # 0 # length sizes # sizes) \<Longrightarrow> read_sizes whole (bx_payload b) = Some (length sizes, sizes)"
proof -
  assume h: "holds whole b (0 # 0 # length sizes # sizes)"
  note u = holds_u32 [OF h]
  have e: "u32 whole (bx_payload b + 12 + i * 4) = Some (sizes ! i)" if "i < length sizes" for i
    using u [of "3 + i"] that by (simp add: algebra_simps)
  have "u32 whole (bx_payload b + 8) = Some (length sizes)" "u32 whole (bx_payload b + 4) = Some 0" using u [of 2] u [of 1] by simp_all
  then show ?thesis using read_entries_at [of "length sizes", OF e] by (simp add: read_sizes_def map_nth)
qed

lemma stsc_read: "holds whole b [0, 1, 1, 1, 1] \<Longrightarrow> read_runs whole (bx_payload b) = Some [(1, 1)]"
  using holds_u32 [of whole b "[0, 1, 1, 1, 1]" 1] holds_u32 [of whole b "[0, 1, 1, 1, 1]" 2] holds_u32 [of whole b "[0, 1, 1, 1, 1]" 3]
  by (simp add: read_runs_def read_entries_def Let_def add.commute)

lemma payload_after: "payload_at whole b (x @ y) \<Longrightarrow> k + n \<le> length y \<Longrightarrow> read_be n whole (bx_payload b + (length x + k)) = read_be n y k"
  using payload_read [of whole b "x @ y" "length x + k" n] by (simp add: read_be_append_right)

lemma co64_read:
  assumes "payload_at whole b (be_bytes 4 0 @ be_bytes 4 (length os) @ table 8 os)" "length os < 256 ^ 4" "\<forall>v \<in> set os. v < 256 ^ 8"
  shows "read_chunks whole stco (Some b) = Some os"
proof -
  have n: "u32 whole (bx_payload b + 4) = Some (length os)"
    using payload_after [OF assms(1), of 0 4] read_be_be_bytes [OF assms(2), of "table 8 os"] by simp
  have "read_be 8 whole (bx_payload b + 8 + i * 8) = Some (os ! i)" if i: "i < length os" for i
    using payload_after [of whole b "be_bytes 4 0 @ be_bytes 4 (length os)" "table 8 os" "8 * i" 8] assms(1) table_read [OF assms(3) i] i
    by (simp add: table_length algebra_simps)
  then show ?thesis using read_entries_at [of "length os" _ "(!) os"] by (simp add: read_chunks_def n map_nth)
qed

lemma signed_back: "- (256 ^ n) \<le> 2 * v \<Longrightarrow> 2 * v < 256 ^ n \<Longrightarrow> signed_of n (nat (v mod 256 ^ n)) = v"
proof -
  assume v: "- (256 ^ n) \<le> 2 * v" "2 * v < 256 ^ n"
  define m :: int where "m = 256 ^ n"
  have m: "0 < m" by (simp add: m_def)
  have e: "int (nat (v mod m)) = v mod m" using m by simp
  have c: "2 * nat (v mod m) < 256 ^ n \<longleftrightarrow> 2 * (v mod m) < m"
    using e by (metis m_def of_nat_less_iff of_nat_mult of_nat_numeral of_nat_power)
  note v' = v [folded m_def]
  show ?thesis
  proof (cases "v < 0")
    case True
    have "v mod m = (v + m) mod m" by simp
    also have "\<dots> = v + m" by (rule mod_pos_pos_trivial) (use True v'(1) in simp_all)
    finally show ?thesis using e c v' True by (simp add: signed_of_def m_def [symmetric])
  next
    case False
    then have "v mod m = v" using v' by (intro mod_pos_pos_trivial) simp_all
    then show ?thesis using e c v' False by (simp add: signed_of_def m_def [symmetric])
  qed
qed

lemma ctts_read:
  assumes "payload_at whole b ([1, 0, 0, 0] @ table 4 (length os # concat (map (\<lambda>v. [1, nat (v mod 256 ^ 4)]) os)))"
    and "length os < 256 ^ 4" "\<forall>v \<in> set os. - (256 ^ 4) \<le> 2 * v \<and> 2 * v < 256 ^ 4"
  shows "read_offsets whole (Some b) = Some os"
proof -
  let ?ws = "length os # concat (map (\<lambda>v. [1, nat (v mod 256 ^ 4)]) os)"
  have small: "\<forall>w \<in> set ?ws. w < 256 ^ 4" using assms(2) by (auto simp: nat_less_iff)
  have one: "is_one whole (bx_payload b)" using assms(1) by (auto simp: payload_at_def is_one_def at_def nth_append)
  have four: "length [1, 0, 0, 0 :: byte] = 4" by simp
  have u: "u32 whole (bx_payload b + (4 + 4 * i)) = Some (?ws ! i)" if i: "i < length ?ws" for i
    unfolding table_read [OF small i, symmetric]
    by (rule payload_after [OF assms(1), unfolded four]) (use i in \<open>simp add: table_length\<close>)
  have n: "u32 whole (bx_payload b + 4) = Some (length os)" using u [of 0] by simp
  have e: "(let p = bx_payload b + 8 + i * 8 in do {
            count \<leftarrow> u32 whole p;
            off \<leftarrow> (if is_one whole (bx_payload b) then read_sbe 4 whole (p + 4) else u32_int whole (p + 4));
            Some (replicate count off) }) = Some [os ! i]" if i: "i < length os" for i
  proof -
    have p: "u32 whole (bx_payload b + 8 + i * 8) = Some 1" "u32 whole (bx_payload b + 8 + i * 8 + 4) = Some (nat (os ! i mod 256 ^ 4))"
      using u [of "1 + 2 * i"] u [of "2 + 2 * i"] nth_pairs [OF i, of "\<lambda>_. 1" "\<lambda>v. nat (v mod 256 ^ 4)"]
        length_pairs [of "\<lambda>_. 1" "\<lambda>v. nat (v mod 256 ^ 4)" os] i by (simp_all add: algebra_simps)
    have "signed_of 4 (nat (os ! i mod 256 ^ 4)) = os ! i" by (rule signed_back) (use assms(3) i in auto)
    then show ?thesis using p one by (simp add: Let_def read_sbe_def)
  qed
  have "concat (map (\<lambda>i. [os ! i]) [0..<length os]) = os" by (simp add: concat_map_singleton map_nth)
  then show ?thesis using read_entries_at [of "length os", OF e] by (simp add: read_offsets_def Let_def n)
qed

section \<open>The rewritten table\<close>

text \<open>The samples a plan stands for, at the offsets given.\<close>

definition planned :: "track_plan \<Rightarrow> int list \<Rightarrow> nat list \<Rightarrow> nat list \<Rightarrow> nat \<Rightarrow> sample" where
  "planned plan ds sizes offsets n = \<lparr>sm_offset = offsets ! n, sm_size = sizes ! n,
     sm_dts = sum_list (map (\<lambda>k. number_or_zero (planned_durations plan ds ! k)) [0..<n]),
     sm_duration = number_or_zero (planned_durations plan ds ! n),
     sm_cts = (case tp_cts plan of None \<Rightarrow> 0 | Some os \<Rightarrow> os ! n)\<rparr>"

text \<open>A source \<open>stsd\<close> whose header is a 32-bit size.\<close>

definition plain_stsd :: "bytes \<Rightarrow> box \<Rightarrow> bool" where
  "plain_stsd whole stbl \<longleftrightarrow> (\<exists>stsd x. inner_box whole stbl ''stsd'' = Some stsd \<and> part_ok (''stsd'', x)
     \<and> slice whole (bx_start stsd) (bx_end stsd) = part_bytes (''stsd'', x))"

definition ctts_payload :: "int list \<Rightarrow> bytes" where
  "ctts_payload os = [1, 0, 0, 0] @ table 4 (length os # concat (map (\<lambda>v. [1, nat (v mod 256 ^ 4)]) os))"

lemma ctts_of_part:
  assumes "ctts_of plan = Some bs"
  shows "case tp_cts plan of None \<Rightarrow> bs = []
    | Some os \<Rightarrow> bs = part_bytes (''ctts'', ctts_payload os) \<and> part_ok (''ctts'', ctts_payload os) \<and> length os = length (tp_samples plan)
        \<and> length os < 256 ^ 4 \<and> (\<forall>v \<in> set os. - (256 ^ 4) \<le> 2 * v \<and> 2 * v < 256 ^ 4)"
proof (cases "tp_cts plan")
  case None
  then show ?thesis using assms by (simp add: ctts_of_def)
next
  case (Some os)
  have entries: "omap (\<lambda>v. map_option ((@) (be_bytes 4 1)) (put_sbe 4 v)) os = Some es \<Longrightarrow>
      concat es = table 4 (concat (map (\<lambda>v. [1, nat (v mod 256 ^ 4)]) os)) \<and> (\<forall>v \<in> set os. - (256 ^ 4) \<le> 2 * v \<and> 2 * v < 256 ^ 4)" for es
  proof (induction os arbitrary: es)
    case (Cons v os)
    obtain b r where b: "put_sbe 4 v = Some b" "omap (\<lambda>v. map_option ((@) (be_bytes 4 1)) (put_sbe 4 v)) os = Some r" "es = (be_bytes 4 1 @ b) # r"
      using Cons.prems by (simp del: be_bytes.simps split: option.splits) blast
    show ?case using Cons.IH [OF b(2)] b(1) unfolding put_sbe_Some by (simp add: b(3) table_def del: be_bytes.simps)
  qed (simp add: table_def)
  obtain n es where w: "length os = length (tp_samples plan)" "put_be 4 (int (length os)) = Some n"
      "omap (\<lambda>v. map_option ((@) (be_bytes 4 1)) (put_sbe 4 v)) os = Some es" "write_box ''ctts'' ([1, 0, 0, 0] @ n @ concat es) = Some bs"
    using assms by (auto simp: ctts_of_def Some bind_eq_Some_conv split: if_splits)
  have n: "n = be_bytes 4 (length os)" "length os < 256 ^ 4" using w(2) by (auto simp: put_be_Some nat_less_iff)
  have "[1, 0, 0, 0] @ n @ concat es = ctts_payload os"
    using entries [OF w(3)] by (simp add: n table_def ctts_payload_def)
  then show ?thesis using write_box_part [OF w(4)] entries [OF w(3)] w(1) n(2) by (simp add: Some)
qed

lemma stss_of_part: "stss_of plan h sync = Some bs \<Longrightarrow> bs = [] \<or> (\<exists>y. bs = part_bytes (''stss'', y) \<and> part_ok (''stss'', y))"
  by (auto simp: stss_of_def Let_def split: if_splits dest: full_words_part)

definition opt_part :: "string \<Rightarrow> bytes option \<Rightarrow> (string \<times> bytes) list" where
  "opt_part ty x = (case x of None \<Rightarrow> [] | Some y \<Rightarrow> [(ty, y)])"

definition table_parts :: "bytes \<Rightarrow> (nat \<times> nat) list \<Rightarrow> bytes option \<Rightarrow> bytes option \<Rightarrow> nat list \<Rightarrow> nat list \<Rightarrow> (string \<times> bytes) list" where
  "table_parts stsd runs ctts stss sizes offsets =
     [(''stsd'', stsd), (''stts'', table 4 (0 # length runs # concat (map (\<lambda>r. [fst r, snd r]) runs)))] @ opt_part ''ctts'' ctts @ opt_part ''stss'' stss
     @ [(''stsz'', table 4 (0 # 0 # length sizes # sizes)), (''stsc'', table 4 [0, 1, 1, 1, 1]),
        (''co64'', be_bytes 4 0 @ be_bytes 4 (length offsets) @ table 8 offsets)]"

definition nat_runs :: "track_plan \<Rightarrow> int list \<Rightarrow> (nat \<times> nat) list" where
  "nat_runs plan ds = map (\<lambda>(n, d). (n, nat (number_or_zero d))) (runs_of (planned_durations plan ds))"

lemma table_parts_distinct: "distinct (map fst (table_parts stsd runs ctts stss sizes offsets))"
  by (cases ctts; cases stss) (simp_all add: table_parts_def opt_part_def)

lemma unrun_map: "unrun (map (\<lambda>(n, d). (n, f d)) runs) = map f (unrun runs)"
  by (induction runs) (auto simp: unrun_def)

lemma unrun_nat_runs: "unrun (nat_runs plan ds) = map (\<lambda>d. nat (number_or_zero d)) (planned_durations plan ds)"
  by (simp add: nat_runs_def unrun_map unrun_runs_of)

definition fits :: "(nat \<times> nat) list \<Rightarrow> nat list \<Rightarrow> nat list \<Rightarrow> bool" where
  "fits runs sizes offsets \<longleftrightarrow> (\<forall>v \<in> set (0 # length runs # concat (map (\<lambda>r. [fst r, snd r]) runs)). v < 256 ^ 4)
     \<and> (\<forall>v \<in> set (0 # 0 # length sizes # sizes). v < 256 ^ 4) \<and> length offsets < 256 ^ 4 \<and> (\<forall>v \<in> set offsets. v < 256 ^ 8)"

text \<open>What \<open>tablesFor\<close> writes is these boxes in a row, in one \<open>stbl\<close>.\<close>

lemma tables_for_parts:
  assumes "tables_for whole stbl plan offsets = Some bs" "samples_of whole stbl = Some ss" "durations_of whole stbl = Some ds"
    "planned_sizes plan ss = Some sizes" "plain_stsd whole stbl"
  shows "\<exists>stsd stss. let parts = table_parts stsd (nat_runs plan ds) (map_option ctts_payload (tp_cts plan)) stss sizes offsets in
    bs = part_bytes (''stbl'', concat (map part_bytes parts)) \<and> (\<forall>p \<in> set parts. part_ok p) \<and> fits (nat_runs plan ds) sizes offsets
      \<and> (\<forall>v \<in> set (planned_durations plan ds). 0 \<le> number_or_zero v)
      \<and> (\<forall>os. tp_cts plan = Some os \<longrightarrow> length os = length (tp_samples plan) \<and> length os < 256 ^ 4
          \<and> (\<forall>v \<in> set os. - (256 ^ 4) \<le> 2 * v \<and> 2 * v < 256 ^ 4))"
proof -
  let ?runs = "runs_of (planned_durations plan ds)"
  obtain kids sync stts ctts stsz stsc n entries co64 stss stsd where w: "children whole stbl = Some kids" 
      "Option.bind (words 4 (int (length ?runs) # concat (map (\<lambda>(n, d). [int n, number_or_zero d]) ?runs))) (full_box ''stts'') = Some stts"
      "ctts_of plan = Some ctts" "Option.bind (words 4 (0 # int (length sizes) # map int sizes)) (full_box ''stsz'') = Some stsz"
      "Option.bind (words 4 [1, 1, 1, 1]) (full_box ''stsc'') = Some stsc" "put_be 4 (int (length offsets)) = Some n" "words 8 (map int offsets) = Some entries"
      "full_box ''co64'' (n @ entries) = Some co64" "stss_of plan (find_box kids ''stss'' \<noteq> None) sync = Some stss"
      "find_box kids ''stsd'' = Some stsd" "write_box ''stbl'' (slice whole (bx_start stsd) (bx_end stsd) @ stts @ ctts @ stss @ stsz @ stsc @ co64) = Some bs"
    using assms(1-4) by (auto simp: tables_for_def Let_def bind_eq_Some_conv)
  obtain x where x: "part_ok (''stsd'', x)" "slice whole (bx_start stsd) (bx_end stsd) = part_bytes (''stsd'', x)"
    using assms(5) w(1,10) by (auto simp: plain_stsd_def inner_box_def)
  have flat: "map nat (int (length ?runs) # concat (map (\<lambda>(n, d). [int n, number_or_zero d]) ?runs))
      = length (nat_runs plan ds) # concat (map (\<lambda>r. [fst r, snd r]) (nat_runs plan ds))"
    by (simp add: nat_runs_def map_concat comp_def case_prod_beta)
  have stts: "stts = part_bytes (''stts'', table 4 (0 # length (nat_runs plan ds) # concat (map (\<lambda>r. [fst r, snd r]) (nat_runs plan ds))))"
      "part_ok (''stts'', table 4 (0 # length (nat_runs plan ds) # concat (map (\<lambda>r. [fst r, snd r]) (nat_runs plan ds))))"
      "\<forall>v \<in> set (0 # length (nat_runs plan ds) # concat (map (\<lambda>r. [fst r, snd r]) (nat_runs plan ds))). v < 256 ^ 4"
    using full_words_part [OF w(2), unfolded flat] by simp_all
  have stsz: "stsz = part_bytes (''stsz'', table 4 (0 # 0 # length sizes # sizes))" "part_ok (''stsz'', table 4 (0 # 0 # length sizes # sizes))"
      "\<forall>v \<in> set (0 # 0 # length sizes # sizes). v < 256 ^ 4"
    using full_words_part [OF w(4)] by (simp_all add: comp_def)
  have stsc: "stsc = part_bytes (''stsc'', table 4 [0, 1, 1, 1, 1])" "part_ok (''stsc'', table 4 [0, 1, 1, 1, 1])"
    using full_words_part [OF w(5)] by simp_all
  have n: "n = be_bytes 4 (length offsets)" "length offsets < 256 ^ 4" using w(6) by (auto simp: put_be_Some nat_less_iff)
  have e: "entries = table 8 offsets" "\<forall>v \<in> set offsets. v < 256 ^ 8"
    using words_table [OF w(7)] by (auto simp: comp_def)
  have co64: "co64 = part_bytes (''co64'', be_bytes 4 0 @ be_bytes 4 (length offsets) @ table 8 offsets)"
      "part_ok (''co64'', be_bytes 4 0 @ be_bytes 4 (length offsets) @ table 8 offsets)"
    using write_box_part [OF w(8) [unfolded full_box_def]] by (simp_all add: zero_word n e)
  obtain y where y: "stss = concat (map part_bytes (opt_part ''stss'' y))" "\<forall>p \<in> set (opt_part ''stss'' y). part_ok p"
  proof (cases "stss = []")
    case True
    then show ?thesis by (intro that [of None]) (simp_all add: opt_part_def)
  next
    case False
    then obtain z where "stss = part_bytes (''stss'', z)" "part_ok (''stss'', z)" using stss_of_part [OF w(9)] by blast
    then show ?thesis by (intro that [of "Some z"]) (simp_all add: opt_part_def)
  qed
  have ct: "ctts = concat (map part_bytes (opt_part ''ctts'' (map_option ctts_payload (tp_cts plan))))"
      "\<forall>p \<in> set (opt_part ''ctts'' (map_option ctts_payload (tp_cts plan))). part_ok p"
      "\<forall>os. tp_cts plan = Some os \<longrightarrow> length os = length (tp_samples plan) \<and> length os < 256 ^ 4 \<and> (\<forall>v \<in> set os. - (256 ^ 4) \<le> 2 * v \<and> 2 * v < 256 ^ 4)"
    using ctts_of_part [OF w(3)] by (simp_all add: opt_part_def split: option.splits)
  have pos: "0 \<le> number_or_zero v" if "v \<in> set (planned_durations plan ds)" for v
  proof -
    have "v \<in> set (unrun ?runs)" using that by (simp add: unrun_runs_of)
    then obtain k where "(k, v) \<in> set ?runs" by (auto simp: unrun_def split: if_splits)
    moreover obtain bs' where "words 4 (int (length ?runs) # concat (map (\<lambda>(n, d). [int n, number_or_zero d]) ?runs)) = Some bs'"
      using w(2) by (auto simp: bind_eq_Some_conv)
    ultimately show ?thesis using words_table by fastforce
  qed
  show ?thesis
    by (rule exI [of _ x], rule exI [of _ y])
      (use write_box_part [OF w(11)] x stts stsz stsc n(2) e(2) co64 y ct pos in \<open>auto simp: Let_def table_parts_def fits_def\<close>)
qed

text \<open>The reader finds each table behind the header of the new \<open>stbl\<close>.\<close>

lemma tables_read:
  assumes t: "tables_for whole stbl plan offsets = Some bs" "samples_of whole stbl = Some ss" "durations_of whole stbl = Some ds"
      "planned_sizes plan ss = Some sizes" "plain_stsd whole stbl" "length offsets = length (tp_samples plan)"
    and out: "out = a @ bs @ c" "bx_payload b = length a + 8" "bx_end b = length a + length bs"
  shows "samples_of out b = Some (map (planned plan ds sizes offsets) [0..<length (tp_samples plan)])"
proof -
  let ?runs = "nat_runs plan ds" and ?n = "length (tp_samples plan)"
  obtain stsd stss where tp: "let parts = table_parts stsd ?runs (map_option ctts_payload (tp_cts plan)) stss sizes offsets in
    bs = part_bytes (''stbl'', concat (map part_bytes parts)) \<and> (\<forall>p \<in> set parts. part_ok p) \<and> fits ?runs sizes offsets
      \<and> (\<forall>v \<in> set (planned_durations plan ds). 0 \<le> number_or_zero v)
      \<and> (\<forall>os. tp_cts plan = Some os \<longrightarrow> length os = length (tp_samples plan) \<and> length os < 256 ^ 4
          \<and> (\<forall>v \<in> set os. - (256 ^ 4) \<le> 2 * v \<and> 2 * v < 256 ^ 4))"
    using tables_for_parts [OF t(1-5)] by blast
  define parts where "parts = table_parts stsd ?runs (map_option ctts_payload (tp_cts plan)) stss sizes offsets"
  have bs: "bs = part_bytes (''stbl'', concat (map part_bytes parts))" and ok: "\<forall>p \<in> set parts. part_ok p" and f: "fits ?runs sizes offsets"
    and pos: "\<forall>v \<in> set (planned_durations plan ds). 0 \<le> number_or_zero v"
    and cts: "\<And>os. tp_cts plan = Some os \<Longrightarrow> length os = ?n \<and> length os < 256 ^ 4 \<and> (\<forall>v \<in> set os. - (256 ^ 4) \<le> 2 * v \<and> 2 * v < 256 ^ 4)"
    using tp by (simp_all add: parts_def Let_def del: power_numeral)
  define p where "p = a @ be_bytes 4 (8 + length (concat (map part_bytes parts))) @ ascii ''stbl''"
  have lp: "length p = bx_payload b" by (simp add: p_def out(2))
  have w: "out = p @ concat (map part_bytes parts) @ c" by (simp add: out(1) bs part_bytes_def p_def)
  have e: "bx_end b = length p + length (concat (map part_bytes parts))" by (simp add: out(3) bs part_bytes_def p_def)
  have kids: "children out b = Some (placed_boxes (length p) parts)"
    unfolding children_def lp [symmetric] e by (rule boxes_parts [OF ok w])
  have d: "distinct (map fst parts)" by (simp only: parts_def table_parts_distinct)
  have found: "\<exists>k. find_box (placed_boxes (length p) parts) ty = Some k \<and> payload_at out k x" if "(ty, x) \<in> set parts" for ty x
    by (rule find_placed [OF ok w d that])
  obtain stts where stts: "find_box (placed_boxes (length p) parts) ''stts'' = Some stts"
      "payload_at out stts (table 4 (0 # length ?runs # concat (map (\<lambda>r. [fst r, snd r]) ?runs)))"
    using found [of "''stts''"] by (auto simp: parts_def table_parts_def)
  obtain stsz where stsz: "find_box (placed_boxes (length p) parts) ''stsz'' = Some stsz" "payload_at out stsz (table 4 (0 # 0 # length sizes # sizes))"
    using found [of "''stsz''"] by (auto simp: parts_def table_parts_def)
  obtain stsc where stsc: "find_box (placed_boxes (length p) parts) ''stsc'' = Some stsc" "payload_at out stsc (table 4 [0, 1, 1, 1, 1])"
    using found [of "''stsc''"] by (auto simp: parts_def table_parts_def)
  obtain co64 where co64: "find_box (placed_boxes (length p) parts) ''co64'' = Some co64"
      "payload_at out co64 (be_bytes 4 0 @ be_bytes 4 (length offsets) @ table 8 offsets)"
    using found [of "''co64''"] by (auto simp: parts_def table_parts_def)
  have "read_offsets out (find_box (placed_boxes (length p) parts) ''ctts'') = Some (case tp_cts plan of None \<Rightarrow> [] | Some os \<Rightarrow> os)"
  proof (cases "tp_cts plan")
    case None
    have "find_box (placed_boxes (length p) parts) ''ctts'' = None"
      by (rule find_not_placed) (auto simp: parts_def table_parts_def opt_part_def None split: option.splits)
    then show ?thesis by (simp add: read_offsets_def None)
  next
    case (Some os)
    obtain k where k: "find_box (placed_boxes (length p) parts) ''ctts'' = Some k" "payload_at out k (ctts_payload os)"
      using found [of "''ctts''"] by (auto simp: parts_def table_parts_def opt_part_def Some)
    have "read_offsets out (Some k) = Some os"
      by (rule ctts_read [OF k(2) [unfolded ctts_payload_def]]) (use cts [OF Some] in simp_all)
    then show ?thesis by (simp add: k(1) Some)
  qed
  moreover have "read_sizes out (bx_payload stsz) = Some (length sizes, sizes)"
    by (rule stsz_read, rule payload_holds [OF stsz(2)]) (use f in \<open>unfold fits_def, blast\<close>)
  moreover have "read_runs out (bx_payload stsc) = Some [(1, 1)]"
    by (rule stsc_read, rule payload_holds [OF stsc(2)]) simp
  moreover have "read_deltas out (bx_payload stts) = Some (unrun ?runs)"
    by (rule stts_read, rule payload_holds [OF stts(2)]) (use f in \<open>unfold fits_def, blast\<close>)
  moreover have "read_chunks out x (Some co64) = Some offsets" for x
    by (rule co64_read [OF co64(2)]) (use f in \<open>unfold fits_def, blast+\<close>)
  ultimately have s: "samples_of out b = place_all \<lparr>tb_count = length sizes, tb_sizes = sizes, tb_chunks = offsets, tb_runs = [(1, 1)],
      tb_deltas = unrun ?runs, tb_offsets = (case tp_cts plan of None \<Rightarrow> [] | Some os \<Rightarrow> os)\<rparr>"
    by (simp add: samples_of_def kids stts(1) stsz(1) stsc(1) co64(1) Let_def)
  have l: "length sizes = ?n" using t(4) by (simp add: planned_sizes_def omap_length)
  let ?t = "\<lparr>tb_count = length sizes, tb_sizes = sizes, tb_chunks = offsets, tb_runs = [(1, 1)], tb_deltas = unrun ?runs,
    tb_offsets = (case tp_cts plan of None \<Rightarrow> [] | Some os \<Rightarrow> os)\<rparr>"
  have lp: "length (planned_durations plan ds) = ?n" by (simp add: planned_durations_def)
  have delta: "delta_of ?t i = number_or_zero (planned_durations plan ds ! i)" if i: "i < ?n" for i
  proof -
    have "0 \<le> number_or_zero (planned_durations plan ds ! i)" using pos i lp by (metis nth_mem)
    then show ?thesis using i lp by (simp add: delta_of_def unrun_nat_runs at_def)
  qed
  have "numbered ?t (offsets ! i) i = planned plan ds sizes offsets i" if i: "i < ?n" for i
  proof -
    have dts: "map (delta_of ?t) [0..<i] = map (\<lambda>k. number_or_zero (planned_durations plan ds ! k)) [0..<i]"
      by (intro map_cong refl, rule delta) (use i in simp)
    show ?thesis
      unfolding numbered_def planned_def dts delta [OF i] using i l cts by (auto simp: at_def split: option.splits)
  qed
  then have "map (\<lambda>i. numbered ?t (offsets ! i) i) [0..<?n] = map (planned plan ds sizes offsets) [0..<?n]" by simp
  moreover have "place_all ?t = Some (map (\<lambda>i. numbered ?t (offsets ! i) i) [0..<?n])"
    using place_all_one_each [of ?t] l t(6) by simp
  ultimately show ?thesis using s by simp
qed

section \<open>Where the samples are\<close>

lemma layout_loop_places:
  "layout_loop plan ss is appended extra = Some (os, e) \<Longrightarrow> \<exists>r. e = extra @ r \<and> length os = length is \<and> (\<forall>n < length is.
     case tp_replace plan (is ! n) of None \<Rightarrow> is ! n < length ss \<and> os ! n = sm_offset (ss ! (is ! n))
     | Some x \<Rightarrow> \<exists>u v. r = u @ x # v \<and> os ! n = appended + total_length u)"
proof (induction "is" arbitrary: appended extra os)
  case (Cons i "is")
  show ?case
  proof (cases "tp_replace plan i")
    case None
    then obtain s os' where s: "at ss i = Some s" "layout_loop plan ss is appended extra = Some (os', e)" "os = sm_offset s # os'"
      using Cons.prems by (auto split: option.splits)
    then show ?thesis using Cons.IH [OF s(2)] None by (auto simp: less_Suc_eq_0_disj cong: option.case_cong)
  next
    case (Some x)
    then obtain os' where s: "layout_loop plan ss is (appended + length x) (extra @ [x]) = Some (os', e)" "os = appended # os'"
      using Cons.prems by auto
    obtain r where r: "e = extra @ x # r" "length os' = length is" "\<forall>n < length is.
       case tp_replace plan (is ! n) of None \<Rightarrow> is ! n < length ss \<and> os' ! n = sm_offset (ss ! (is ! n))
       | Some y \<Rightarrow> \<exists>u v. r = u @ y # v \<and> os' ! n = appended + length x + total_length u"
      using Cons.IH [OF s(1)] by auto
    have "case tp_replace plan ((i # is) ! n) of None \<Rightarrow> (i # is) ! n < length ss \<and> os ! n = sm_offset (ss ! ((i # is) ! n))
       | Some y \<Rightarrow> \<exists>u v. x # r = u @ y # v \<and> os ! n = appended + total_length u" if n: "n < length (i # is)" for n
    proof (cases n)
      case 0
      have "x # r = [] @ x # r \<and> appended = appended + total_length []" by (simp add: total_length_def)
      then show ?thesis using Some s(2) 0 by (auto intro!: exI)
    next
      case (Suc k)
      then have k: "k < length is" using n by simp
      show ?thesis
      proof (cases "tp_replace plan (is ! k)")
        case None
        then show ?thesis using r(3) k s(2) Suc by fastforce
      next
        case y: (Some y)
        then obtain u v where "r = u @ y # v" "os' ! k = appended + length x + total_length u" using r(3) k by fastforce
        then have "x # r = (x # u) @ y # v \<and> os ! n = appended + total_length (x # u)" using s(2) Suc by (simp add: total_length_def)
        then show ?thesis using y Suc by (simp del: append_Cons) blast
      qed
    qed
    then show ?thesis using r(1,2) s(2) by auto
  qed
qed simp

lemma push_push: "push out (push [] r) = push out r"
  by (cases r) (auto simp: push_def)

lemma steps_push: "moov_step X c plan kind x (out, e) = push out (moov_step X c plan kind x ([], e))"
    "trak_step X plan kind ticks x (out, e) = push out (trak_step X plan kind ticks x ([], e))"
  by (simp_all only: moov_step_def trak_step_def prod.case push_push)

text \<open>What each child of a container became is in the result, and its replacements are among those collected.\<close>

lemma ofold_pieces:
  assumes step: "\<And>x out e. f x (out, e) = push out (f x ([], e))"
    and mono: "\<And>x e b e1. x \<in> set xs \<Longrightarrow> f x ([], e) = Some (b, e1) \<Longrightarrow> prefix e e1"
  shows "ofold f xs (out, e) = Some (out', e') \<Longrightarrow> prefix out out' \<and> prefix e e'
    \<and> (\<forall>x \<in> set xs. \<exists>ea b eb. f x ([], ea) = Some (b, eb) \<and> sublist b out' \<and> prefix eb e')"
  using mono
proof (induction xs arbitrary: out e)
  case (Cons x xs)
  obtain b e1 where b: "f x ([], e) = Some (b, e1)" "ofold f xs (out @ b, e1) = Some (out', e')"
    using Cons.prems(1) step [of x out e] by (auto simp: push_def split: option.splits)
  have ih: "prefix (out @ b) out' \<and> prefix e1 e' \<and> (\<forall>x \<in> set xs. \<exists>ea b eb. f x ([], ea) = Some (b, eb) \<and> sublist b out' \<and> prefix eb e')"
    by (rule Cons.IH [OF b(2)], rule Cons.prems(2)) simp_all
  have "prefix e e1" by (rule Cons.prems(2) [OF _ b(1)]) simp
  moreover have "sublist b out'" using ih by (auto simp: prefix_def sublist_def)
  ultimately show ?case using ih b(1) by (auto simp: prefix_def)
qed simp

lemma boxed_Some: "boxed ty r = Some (b, e) \<Longrightarrow> \<exists>inner. r = Some (inner, e) \<and> sublist inner b"
  by (cases r) (auto simp: boxed_def write_box_def, metis append.assoc append_Nil2 sublist_appendI)

lemma moov_step_mono:
  assumes "moov_step X c plan kind x ([], e) = Some (b, e1)"
    and "\<And>plan kind e b e1. rebuilt X x plan kind e = Some (b, e1) \<Longrightarrow> prefix e e1"
    and "\<And>plan kind e b e1. rebuilt_trak X x plan kind e = Some (b, e1) \<Longrightarrow> prefix e e1"
  shows "prefix e e1"
  using assms(1)
  by (auto simp: moov_step_def push_def new_tables_def layout_def bind_eq_Some_conv prefix_def [of e] split: if_splits option.splits prod.splits
      dest!: boxed_Some layout_loop_places dest: assms(2,3))

lemma rebuilt_mono:
  "(\<forall>plan kind e b e1. rebuilt X c plan kind e = Some (b, e1) \<longrightarrow> prefix e e1)
  \<and> (\<forall>plan kind e b e1. rebuilt_trak X c plan kind e = Some (b, e1) \<longrightarrow> prefix e e1)"
proof (induction c rule: box_induct [where whole = "rx_file X"])
  case (1 c)
  have moov: "prefix e e1" if "children (rx_file X) c = Some kids" "x \<in> set kids" "moov_step X c' plan kind x ([], e) = Some (b, e1)"
    for kids x c' plan kind e b e1
    by (rule moov_step_mono [OF that(3)]) (use 1 [OF that(1,2)] in blast)+
  show ?case
  proof (intro conjI allI impI)
    fix plan kind e b e1
    assume "rebuilt X c plan kind e = Some (b, e1)"
    then obtain kids where k: "children (rx_file X) c = Some kids" "ofold (moov_step X c plan kind) kids ([], e) = Some (b, e1)"
      by (auto simp: rebuilt_eq bind_eq_Some_conv)
    show "prefix e e1" using ofold_pieces [OF steps_push(1) moov [OF k(1)] k(2)] by simp
  next
    fix plan kind e b e1
    assume "rebuilt_trak X c plan kind e = Some (b, e1)"
    then obtain ticks kids inner where k: "children (rx_file X) c = Some kids" "ofold (trak_step X plan kind ticks) kids ([], e) = Some (inner, e1)"
      by (auto simp: rebuilt_trak_eq bind_eq_Some_conv dest!: boxed_Some)
    have "prefix e e1" if "x \<in> set kids" "trak_step X plan kind ticks x ([], e) = Some (b, e1)" for x e b e1
      using that(2) 1 [OF k(1) that(1)]
      by (auto simp: trak_step_def push_def split: if_splits option.splits dest!: boxed_Some)
    then show "prefix e e1" using ofold_pieces [OF steps_push(2) _ k(2)] by blast
  qed
qed

text \<open>The piece of one child, by the kind of the container.\<close>

lemma rebuilt_piece:
  assumes "rebuilt X c plan kind e = Some (b, e1)" "children (rx_file X) c = Some kids" "x \<in> set kids"
  shows "\<exists>ea p eb. moov_step X c plan kind x ([], ea) = Some (p, eb) \<and> sublist p b \<and> prefix eb e1"
proof -
  have k: "ofold (moov_step X c plan kind) kids ([], e) = Some (b, e1)" using assms(1,2) by (simp add: rebuilt_eq)
  have "prefix e e1" if "moov_step X c plan kind x ([], e) = Some (b, e1)" for x e b e1
    by (rule moov_step_mono [OF that]) (use rebuilt_mono in blast)+
  then show ?thesis using ofold_pieces [OF steps_push(1) _ k] assms(3) by blast
qed

lemma rebuilt_trak_piece:
  assumes "rebuilt_trak X c plan kind e = Some (b, e1)" "children (rx_file X) c = Some kids" "x \<in> set kids"
  shows "\<exists>ticks ea p eb. trak_step X plan kind ticks x ([], ea) = Some (p, eb) \<and> sublist p b \<and> prefix eb e1"
proof -
  obtain ticks inner where k: "ofold (trak_step X plan kind ticks) kids ([], e) = Some (inner, e1)" "sublist inner b"
    using assms(1,2) by (auto simp: rebuilt_trak_eq bind_eq_Some_conv dest!: boxed_Some)
  have "prefix e e1" if "trak_step X plan kind ticks x ([], e) = Some (b, e1)" for x e b e1
    using that rebuilt_mono [of X x] by (auto simp: trak_step_def push_def split: if_splits option.splits dest!: boxed_Some)
  then show ?thesis using ofold_pieces [OF steps_push(2) _ k(1)] assms(3) k(2) sublist_order.order_trans by blast
qed

lemma inner_box_kid: "inner_box whole c ty = Some b \<Longrightarrow> \<exists>kids. children whole c = Some kids \<and> b \<in> set kids \<and> bx_type b = ty"
  by (auto simp: inner_box_def find_box_def bind_eq_Some_conv find_Some_iff)

text \<open>A track of the movie whose plan this is, and its sample table.\<close>

definition edited :: "bytes \<Rightarrow> remux_plan \<Rightarrow> track_plan \<Rightarrow> box \<Rightarrow> bool" where
  "edited whole plan tp stbl \<longleftrightarrow> (\<exists>top moov kids trak mdia stsd c. boxes whole 0 (length whole) = Some top \<and> find_box top ''moov'' = Some moov
     \<and> children whole moov = Some kids \<and> trak \<in> set kids \<and> bx_type trak = ''trak''
     \<and> inner_box whole trak ''mdia'' = Some mdia \<and> stbl_of_mdia whole mdia = Some stbl
     \<and> inner_box whole stbl ''stsd'' = Some stsd \<and> codec_of whole stsd = Some c
     \<and> (cd_kind c = Video_track \<and> rp_video plan = Some tp \<or> cd_kind c = Audio_track \<and> rp_audio plan = Some tp))"

text \<open>The bytes a sample stands for, and that the media is where the tool requires it: in front of \<open>moov\<close>.\<close>

definition content :: "bytes \<Rightarrow> sample \<Rightarrow> bytes" where
  "content whole s = slice whole (sm_offset s) (sm_offset s + sm_size s)"

definition media_first :: "bytes \<Rightarrow> sample list \<Rightarrow> bool" where
  "media_first whole ss \<longleftrightarrow> (\<forall>top moov. boxes whole 0 (length whole) = Some top \<longrightarrow> find_box top ''moov'' = Some moov \<longrightarrow>
     (\<forall>s \<in> set ss. sm_offset s + sm_size s \<le> bx_start moov))"

lemma tables_inside:
  assumes "build_moov X moov = Some (written, extra)" "children (rx_file X) moov = Some kids" "trak \<in> set kids" "bx_type trak = ''trak''"
    "plan_of_trak X trak = Some (Some tp, Some k)" "inner_box (rx_file X) trak ''mdia'' = Some mdia" "stbl_of_mdia (rx_file X) mdia = Some stbl"
  shows "\<exists>e t e1. new_tables X stbl tp e = Some (t, e1) \<and> sublist t written \<and> prefix e1 extra"
proof -
  obtain m where m: "rebuilt X moov None None [] = Some (m, extra)" "sublist m written"
    using boxed_Some assms(1) unfolding build_moov_def by blast
  obtain e1 p1 f1 where p1: "moov_step X moov None None trak ([], e1) = Some (p1, f1)" "sublist p1 m" "prefix f1 extra"
    using rebuilt_piece [OF m(1) assms(2,3)] by blast
  then have "rebuilt_trak X trak (Some tp) (Some k) e1 = Some (p1, f1)"
    using assms(4,5) by (auto simp: moov_step_def push_def)
  moreover obtain kids2 where k2: "children (rx_file X) trak = Some kids2" "mdia \<in> set kids2" "bx_type mdia = ''mdia''"
    using inner_box_kid [OF assms(6)] by blast
  ultimately obtain ticks e2 p2 f2 where p2: "trak_step X (Some tp) (Some k) ticks mdia ([], e2) = Some (p2, f2)" "sublist p2 p1" "prefix f2 f1"
    using rebuilt_trak_piece by blast
  then obtain el q where q: "boxed ''mdia'' (rebuilt X mdia (Some tp) (Some k) e2) = Some (q, f2)" "p2 = el @ q @ []"
    using k2(3) by (auto simp: trak_step_def push_def split: option.splits)
  then obtain m2 where m2: "rebuilt X mdia (Some tp) (Some k) e2 = Some (m2, f2)" "sublist m2 p2"
    using boxed_Some [OF q(1)] sublist_appendI [of q el "[]"] sublist_order.order_trans by blast
  obtain minf where minf: "inner_box (rx_file X) mdia ''minf'' = Some minf" "inner_box (rx_file X) minf ''stbl'' = Some stbl"
    using assms(7) by (auto simp: stbl_of_mdia_def bind_eq_Some_conv)
  obtain kids3 where k3: "children (rx_file X) mdia = Some kids3" "minf \<in> set kids3" "bx_type minf = ''minf''" using inner_box_kid [OF minf(1)] by blast
  obtain e3 p3 f3 where p3: "moov_step X mdia (Some tp) (Some k) minf ([], e3) = Some (p3, f3)" "sublist p3 m2" "prefix f3 f2"
    using rebuilt_piece [OF m2(1) k3(1,2)] by blast
  then have "boxed ''minf'' (rebuilt X minf (Some tp) (Some k) e3) = Some (p3, f3)" using k3(3) by (auto simp: moov_step_def push_def)
  then obtain m3 where m3: "rebuilt X minf (Some tp) (Some k) e3 = Some (m3, f3)" "sublist m3 p3" using boxed_Some by blast
  obtain kids4 where k4: "children (rx_file X) minf = Some kids4" "stbl \<in> set kids4" "bx_type stbl = ''stbl''" using inner_box_kid [OF minf(2)] by blast
  obtain e4 p4 f4 where p4: "moov_step X minf (Some tp) (Some k) stbl ([], e4) = Some (p4, f4)" "sublist p4 m3" "prefix f4 f3"
    using rebuilt_piece [OF m3(1) k4(1,2)] by blast
  then have "new_tables X stbl tp e4 = Some (p4, f4)" using k4(3) by (auto simp: moov_step_def push_def)
  moreover have "sublist p4 written"
    using p4(2) m3(2) p3(2) m2(2) p2(2) p1(2) m(2) by (meson sublist_order.order_trans)
  moreover have "prefix f4 extra" using p4(3) p3(3) p2(3) p1(3) by (meson prefix_order.trans)
  ultimately show ?thesis by blast
qed

lemma bind_SomeE: "Option.bind r f = Some y \<Longrightarrow> (\<And>x. r = Some x \<Longrightarrow> f x = Some y \<Longrightarrow> Q) \<Longrightarrow> Q"
  by (cases r) auto

lemma remux_parts:
  assumes "remux scaled whole plan = Some out"
  shows "\<exists>top moov X written extra tail. boxes whole 0 (length whole) = Some top \<and> find_box top ''moov'' = Some moov \<and> rx_file X = whole
    \<and> rx_plan X = plan \<and> rx_head X = bx_start moov \<and> build_moov X moov = Some (written, extra) \<and> length written = rx_moov X
    \<and> out = take (bx_start moov) whole @ written @ tail \<and> (extra = [] \<or> (\<exists>h. length h = 8 \<and> tail = h @ concat extra))"
proof -
  let ?P = "(\<lambda>(moov :: box) old. \<lparr>rx_file = whole, rx_head = bx_start moov, rx_old = old,
    rx_new = (case rp_movie_timescale plan of None \<Rightarrow> old | Some n \<Rightarrow> n), rx_plan = plan, rx_moov = 0, rx_scaled = scaled\<rparr>)"
  obtain top moov old sized e written extra tail where w: "boxes whole 0 (length whole) = Some top" "find_box top ''moov'' = Some moov"
      "build_moov (?P moov old) moov = Some (sized, e)" "build_moov ((?P moov old)\<lparr>rx_moov := length sized\<rparr>) moov = Some (written, extra)"
      "length written = length sized" "tail_of extra = Some tail" "out = take (bx_start moov) whole @ written @ tail"
    using assms [unfolded remux_def Let_def case_prod_beta]
  proof (elim bind_SomeE, goal_cases)
    case (1 top moov _ mvhd _ old sized written _ tail)
    show ?thesis
      by (rule 1(1) [of top moov old "fst sized" "snd sized" "fst written" "snd written" tail]) (use 1 in \<open>auto split: if_splits\<close>)
  qed
  have "extra = [] \<or> (\<exists>h. length h = 8 \<and> tail = h @ concat extra)"
  proof (cases "extra = []")
    case False
    then obtain n where "tail = (n @ ascii ''mdat'') @ concat extra" "length n = 4"
      using w(6) by (auto simp: tail_of_def write_box_def dest: put_be_length)
    then show ?thesis by (intro disjI2 exI [of _ "n @ ascii ''mdat''"]) (simp add: ascii_def)
  qed simp
  then show ?thesis
    by (intro exI [of _ top] exI [of _ moov] exI [of _ "(?P moov old)\<lparr>rx_moov := length sized\<rparr>"] exI [of _ written] exI [of _ extra] exI [of _ tail])
      (use w in \<open>simp\<close>)
qed

lemma slice_inside: "out = a @ x @ c \<Longrightarrow> length a = n \<Longrightarrow> slice out n (n + length x) = x"
  by (simp add: slice_def)

lemma tables_for_type: "tables_for whole stbl plan offsets = Some t \<Longrightarrow> \<exists>n p. t = n @ ascii ''stbl'' @ p \<and> length n = 4"
  by (auto simp: tables_for_def Let_def bind_eq_Some_conv write_box_def) (metis put_be_length)

lemma tables_cts: "tables_for whole stbl plan offsets = Some t \<Longrightarrow> tp_cts plan = Some os \<Longrightarrow> length os = length (tp_samples plan)"
  by (auto simp: tables_for_def Let_def bind_eq_Some_conv ctts_of_def split: if_splits)

text \<open>A sample kept is in the source, one replaced in the second \<open>mdat\<close>.\<close>

lemma planned_content:
  assumes places: "layout_loop tp ss (tp_samples tp) (m + length written + 8 + total_length e) e = Some (offsets, e1)"
    and sizes: "planned_sizes tp ss = Some sizes" and "prefix e1 extra"
    and out: "out = take m whole @ written @ tail" "m \<le> length whole" "extra = [] \<or> (\<exists>h. length h = 8 \<and> tail = h @ concat extra)"
    and first: "\<forall>s \<in> set ss. sm_offset s + sm_size s \<le> m" and n: "n < length (tp_samples tp)"
  shows "slice out (offsets ! n) (offsets ! n + sizes ! n)
    = (case tp_replace tp (tp_samples tp ! n) of Some x \<Rightarrow> x | None \<Rightarrow> content whole (ss ! (tp_samples tp ! n)))"
proof -
  let ?i = "tp_samples tp ! n"
  obtain r where r: "e1 = e @ r" "case tp_replace tp ?i of None \<Rightarrow> ?i < length ss \<and> offsets ! n = sm_offset (ss ! ?i)
     | Some x \<Rightarrow> \<exists>u v. r = u @ x # v \<and> offsets ! n = m + length written + 8 + total_length e + total_length u"
    using layout_loop_places [OF places] n by blast
  have "list_all2 (\<lambda>i s. (case tp_replace tp i of Some r \<Rightarrow> Some (length r) | None \<Rightarrow> map_option sm_size (at ss i)) = Some s) (tp_samples tp) sizes"
    using sizes by (simp add: planned_sizes_def omap_Some_iff)
  then have sz: "(case tp_replace tp ?i of Some r \<Rightarrow> Some (length r) | None \<Rightarrow> map_option sm_size (at ss ?i)) = Some (sizes ! n)"
    using n by (rule list_all2_nthD)
  show ?thesis
  proof (cases "tp_replace tp ?i")
    case None
    then have i: "?i < length ss" "offsets ! n = sm_offset (ss ! ?i)" "sizes ! n = sm_size (ss ! ?i)" using r(2) sz by auto
    have "offsets ! n + sizes ! n \<le> length (take m whole)" using first i out(2) by simp
    then have "slice out (offsets ! n) (offsets ! n + sizes ! n) = slice (take m whole) (offsets ! n) (offsets ! n + sizes ! n)"
      unfolding out(1) by (rule slice_append_left)
    also have "\<dots> = slice whole (offsets ! n) (offsets ! n + sizes ! n)"
      using slice_append_left [of "offsets ! n + sizes ! n" "take m whole" "drop m whole" "offsets ! n"] \<open>_ \<le> length (take m whole)\<close> by simp
    finally show ?thesis using None i by (simp add: content_def)
  next
    case (Some x)
    then obtain u v where u: "r = u @ x # v" "offsets ! n = m + length written + 8 + total_length e + total_length u" "sizes ! n = length x"
      using r(2) sz by auto
    obtain w where w: "extra = e @ u @ x # v @ w" using assms(3) r(1) u(1) by (auto simp: prefix_def)
    then obtain h where h: "length h = 8" "tail = h @ concat extra" using out(3) by auto
    have "slice out (offsets ! n) (offsets ! n + length x) = x"
      by (rule slice_inside [of _ "take m whole @ written @ h @ concat e @ concat u" _ "concat v @ concat w"])
        (use out(1,2) h w u(2) in \<open>simp_all add: total_length_def length_concat\<close>)
    then show ?thesis using Some u(3) by simp
  qed
qed

text \<open>Where the new table of an edited track is, and what it was laid out with.\<close>

lemma track_written:
  assumes "remux scaled whole plan = Some out" "edited whole plan tp stbl" "samples_of whole stbl = Some ss"
  shows "\<exists>top moov written extra tail offsets e e1 t sizes. boxes whole 0 (length whole) = Some top \<and> find_box top ''moov'' = Some moov
    \<and> out = take (bx_start moov) whole @ written @ tail \<and> (extra = [] \<or> (\<exists>h. length h = 8 \<and> tail = h @ concat extra))
    \<and> layout_loop tp ss (tp_samples tp) (bx_start moov + length written + 8 + total_length e) e = Some (offsets, e1)
    \<and> tables_for whole stbl tp offsets = Some t \<and> sublist t written \<and> prefix e1 extra \<and> planned_sizes tp ss = Some sizes"
proof -
  obtain top moov X written extra tail where r: "boxes whole 0 (length whole) = Some top" "find_box top ''moov'' = Some moov" "rx_file X = whole"
      "rx_plan X = plan" "rx_head X = bx_start moov" "build_moov X moov = Some (written, extra)" "length written = rx_moov X"
      "out = take (bx_start moov) whole @ written @ tail" "extra = [] \<or> (\<exists>h. length h = 8 \<and> tail = h @ concat extra)"
    using remux_parts [OF assms(1)] by blast
  obtain kids trak mdia stsd c where d: "children whole moov = Some kids" "trak \<in> set kids" "bx_type trak = ''trak''"
      "inner_box whole trak ''mdia'' = Some mdia" "stbl_of_mdia whole mdia = Some stbl" "inner_box whole stbl ''stsd'' = Some stsd" "codec_of whole stsd = Some c"
      "cd_kind c = Video_track \<and> rp_video plan = Some tp \<or> cd_kind c = Audio_track \<and> rp_audio plan = Some tp"
    using assms(2) r(1,2) by (auto simp: edited_def)
  obtain k where k: "plan_of_trak X trak = Some (Some tp, Some k)"
    using d(8) by (auto simp: plan_of_trak_def r(3,4) d(4-7))
  obtain e t e1 where t: "new_tables X stbl tp e = Some (t, e1)" "sublist t written" "prefix e1 extra"
    using tables_inside [OF r(6) _ d(2,3) k, of mdia stbl] d(1,4,5) unfolding r(3) by blast
  then obtain offsets where o: "layout_loop tp ss (tp_samples tp) (bx_start moov + length written + 8 + total_length e) e = Some (offsets, e1)"
      "tables_for whole stbl tp offsets = Some t"
    using assms(3) r(3,5,7) by (auto simp: new_tables_def layout_def bind_eq_Some_conv)
  obtain sizes where sizes: "planned_sizes tp ss = Some sizes"
    using o(2) assms(3) by (auto simp: tables_for_def bind_eq_Some_conv)
  show ?thesis using r(1,2,8,9) o t(2,3) sizes by blast
qed

text \<open>C11. A remuxed track is the plan, byte for byte: the sample table written for an edited track, read by the container
  reader of the verifier, has one sample for each index of the plan, with the duration, decode time and composition
  offset planned, and each sample's bytes in the new file are the replacement given for its index or else the bytes the
  sample has in the source. The source keeps its media in front of \<open>moov\<close>, and its \<open>stsd\<close> has a 32-bit size.\<close>

theorem remux_track_read_back:
  assumes "remux scaled whole plan = Some out" "edited whole plan tp stbl" "plain_stsd whole stbl"
    "samples_of whole stbl = Some ss" "durations_of whole stbl = Some ds" "media_first whole ss"
  shows "\<exists>b ns. slice out (bx_payload b - 4) (bx_payload b) = ascii ''stbl'' \<and> samples_of out b = Some ns
    \<and> map (content out) ns = map (\<lambda>i. case tp_replace tp i of Some x \<Rightarrow> x | None \<Rightarrow> content whole (ss ! i)) (tp_samples tp)
    \<and> map sm_duration ns = map number_or_zero (planned_durations tp ds)
    \<and> (\<forall>n < length ns. sm_dts (ns ! n) = sum_list (take n (map sm_duration ns)))
    \<and> map sm_cts ns = (case tp_cts tp of None \<Rightarrow> replicate (length ns) 0 | Some os \<Rightarrow> os)"
proof -
  obtain top moov written extra tail offsets e e1 t sizes where r: "boxes whole 0 (length whole) = Some top" "find_box top ''moov'' = Some moov"
      "out = take (bx_start moov) whole @ written @ tail" "extra = [] \<or> (\<exists>h. length h = 8 \<and> tail = h @ concat extra)"
    and o: "layout_loop tp ss (tp_samples tp) (bx_start moov + length written + 8 + total_length e) e = Some (offsets, e1)"
      "tables_for whole stbl tp offsets = Some t"
    and t: "sublist t written" "prefix e1 extra" and sizes: "planned_sizes tp ss = Some sizes"
    using track_written [OF assms(1,2,4)] by blast
  obtain a0 c0 where "written = a0 @ t @ c0" using t(1) by (auto simp: sublist_def)
  then obtain a where a: "out = a @ t @ (c0 @ tail)" using r(3) by (metis append.assoc)
  define b where "b = \<lparr>bx_type = ''stbl'', bx_start = length a, bx_end = length a + length t, bx_payload = length a + 8\<rparr>"
  define ns where "ns = map (planned tp ds sizes offsets) [0..<length (tp_samples tp)]"
  have l: "length offsets = length (tp_samples tp)" using layout_loop_places [OF o(1)] by auto
  have read: "samples_of out b = Some ns"
    unfolding ns_def by (rule tables_read [OF o(2) assms(4,5) sizes assms(3) l a]) (simp_all add: b_def)
  obtain n p where "t = n @ ascii ''stbl'' @ p" "length n = 4" using tables_for_type [OF o(2)] by blast
  then have ty: "slice out (bx_payload b - 4) (bx_payload b) = ascii ''stbl''"
    using slice_inside [of out "a @ n" "ascii ''stbl''" "p @ c0 @ tail" "length a + 4"] a by (simp add: b_def ascii_def add.commute)
  have m: "bx_start moov \<le> length whole"
    using tiles_bounds [OF boxes_tile [OF r(1)], of moov] r(2) by (auto simp: find_box_def find_Some_iff)
  have first: "\<forall>s \<in> set ss. sm_offset s + sm_size s \<le> bx_start moov" using assms(6) r(1,2) by (simp add: media_first_def)
  have "content out (planned tp ds sizes offsets n) = (case tp_replace tp (tp_samples tp ! n) of Some x \<Rightarrow> x | None \<Rightarrow> content whole (ss ! (tp_samples tp ! n)))"
    if "n < length (tp_samples tp)" for n
    using planned_content [OF o(1) sizes t(2) r(3) m r(4) first that] by (simp add: content_def planned_def)
  then have c: "map (content out) ns = map (\<lambda>i. case tp_replace tp i of Some x \<Rightarrow> x | None \<Rightarrow> content whole (ss ! i)) (tp_samples tp)"
    by (intro nth_equalityI) (simp_all add: ns_def)
  have lp: "length (planned_durations tp ds) = length (tp_samples tp)" by (simp add: planned_durations_def)
  have dur: "map sm_duration ns = map number_or_zero (planned_durations tp ds)"
    by (intro nth_equalityI) (simp_all add: ns_def planned_def lp)
  have "sm_dts (ns ! n) = sum_list (take n (map sm_duration ns))" if "n < length ns" for n
  proof -
    have "take n (map sm_duration ns) = map (\<lambda>k. number_or_zero (planned_durations tp ds ! k)) [0..<n]"
      using that by (intro nth_equalityI) (simp_all add: ns_def planned_def)
    then show ?thesis using that by (simp add: ns_def planned_def)
  qed
  moreover have "map sm_cts ns = (case tp_cts tp of None \<Rightarrow> replicate (length ns) 0 | Some os \<Rightarrow> os)"
    using tables_cts [OF o(2)] by (intro nth_equalityI) (auto simp: ns_def planned_def split: option.splits)
  ultimately show ?thesis using ty read c dur by blast
qed

text \<open>A movie of one audio track with two samples; the plan swaps them and replaces the first.\<close>

definition toy_track :: bytes where
  "toy_track = part_bytes (''stsd'', be_bytes 4 0 @ be_bytes 4 1 @ part_bytes (''mp4a'', [])) @ part_bytes (''stts'', table 4 [0, 2, 1, 10, 1, 20])
     @ part_bytes (''stsz'', table 4 [0, 0, 2, 2, 4]) @ part_bytes (''stsc'', table 4 [0, 1, 1, 2, 1]) @ part_bytes (''stco'', table 4 [0, 1, 8])"

definition toy_movie :: bytes where
  "toy_movie = part_bytes (''mdat'', [1, 2, 3, 4, 5, 6]) @ part_bytes (''moov'', part_bytes (''mvhd'', table 4 [0, 0, 0, 100, 0])
     @ part_bytes (''trak'', part_bytes (''mdia'', part_bytes (''mdhd'', table 4 [0, 0, 0, 100, 0]) @ part_bytes (''minf'', part_bytes (''stbl'', toy_track)))))"

definition toy_plan :: track_plan where
  "toy_plan = \<lparr>tp_samples = [1, 0], tp_delay = None, tp_edits = None, tp_replace = [0 \<mapsto> [9, 9, 9]], tp_sync_all = False, tp_timescale = None,
     tp_retime = None, tp_cts = Some [2, 1]\<rparr>"

definition toy_remux :: remux_plan where
  "toy_remux = \<lparr>rp_movie_timescale = None, rp_video = None, rp_audio = Some toy_plan\<rparr>"

lemma toy_boxes:
  "boxes toy_movie 0 (length toy_movie) = Some [\<lparr>bx_type = ''mdat'', bx_start = 0, bx_end = 14, bx_payload = 8\<rparr>,
     \<lparr>bx_type = ''moov'', bx_start = 14, bx_end = 242, bx_payload = 22\<rparr>]"
  "boxes toy_movie 22 242 = Some [\<lparr>bx_type = ''mvhd'', bx_start = 22, bx_end = 50, bx_payload = 30\<rparr>,
     \<lparr>bx_type = ''trak'', bx_start = 50, bx_end = 242, bx_payload = 58\<rparr>]"
  "boxes toy_movie 58 242 = Some [\<lparr>bx_type = ''mdia'', bx_start = 58, bx_end = 242, bx_payload = 66\<rparr>]"
  "boxes toy_movie 66 242 = Some [\<lparr>bx_type = ''mdhd'', bx_start = 66, bx_end = 94, bx_payload = 74\<rparr>,
     \<lparr>bx_type = ''minf'', bx_start = 94, bx_end = 242, bx_payload = 102\<rparr>]"
  "boxes toy_movie 102 242 = Some [\<lparr>bx_type = ''stbl'', bx_start = 102, bx_end = 242, bx_payload = 110\<rparr>]"
  "boxes toy_movie 110 242 = Some [\<lparr>bx_type = ''stsd'', bx_start = 110, bx_end = 134, bx_payload = 118\<rparr>,
     \<lparr>bx_type = ''stts'', bx_start = 134, bx_end = 166, bx_payload = 142\<rparr>, \<lparr>bx_type = ''stsz'', bx_start = 166, bx_end = 194, bx_payload = 174\<rparr>,
     \<lparr>bx_type = ''stsc'', bx_start = 194, bx_end = 222, bx_payload = 202\<rparr>, \<lparr>bx_type = ''stco'', bx_start = 222, bx_end = 242, bx_payload = 230\<rparr>]"
  by code_simp+

abbreviation toy_stbl :: box where "toy_stbl \<equiv> \<lparr>bx_type = ''stbl'', bx_start = 102, bx_end = 242, bx_payload = 110\<rparr>"

lemma toy_reads: "at toy_movie 30 = Some 0" "u32 toy_movie 42 = Some 100" "u32 toy_movie 86 = Some 100" "length toy_movie = 242"
  by code_simp+

lemma toy_track_read:
  "samples_of toy_movie toy_stbl = Some [\<lparr>sm_offset = 8, sm_size = 2, sm_dts = 0, sm_duration = 10, sm_cts = 0\<rparr>,
     \<lparr>sm_offset = 10, sm_size = 4, sm_dts = 10, sm_duration = 20, sm_cts = 0\<rparr>]"
  "durations_of toy_movie toy_stbl = Some [10, 20]"
  "codec_of toy_movie \<lparr>bx_type = ''stsd'', bx_start = 110, bx_end = 134, bx_payload = 118\<rparr> = Some \<lparr>cd_kind = Audio_track, cd_length_size = 0, cd_hevc = False\<rparr>"
  by code_simp+

lemma put_be_small: "n < 1000 \<Longrightarrow> put_be 4 (int n) = Some (be_bytes 4 n)" "n < 1000 \<Longrightarrow> put_be 8 (int n) = Some (be_bytes 8 n)"
  by (rule put_be_int, simp)+

lemma write_box_small: "length p < 900 \<Longrightarrow> write_box ty p = Some (be_bytes 4 (8 + length p) @ ascii ty @ p)"
  using put_be_small(1) [of "8 + length p"] by (simp add: write_box_def del: be_bytes.simps)

lemma words_small: "\<forall>v \<in> set vs. v < 1000 \<Longrightarrow> words 4 (map int vs) = Some (table 4 vs)" "\<forall>v \<in> set vs. v < 1000 \<Longrightarrow> words 8 (map int vs) = Some (table 8 vs)"
proof -
  have "omap (put_be w) (map int vs) = Some (map (be_bytes w) vs)" if "\<And>v. v \<in> set vs \<Longrightarrow> put_be w (int v) = Some (be_bytes w v)" for w
    using that by (induction vs) simp_all
  then show "\<forall>v \<in> set vs. v < 1000 \<Longrightarrow> words 4 (map int vs) = Some (table 4 vs)" "\<forall>v \<in> set vs. v < 1000 \<Longrightarrow> words 8 (map int vs) = Some (table 8 vs)"
    by (simp_all add: words_def table_def put_be_small)
qed

lemma toy_tables:
  assumes "n < 1000"
  shows "\<exists>t. tables_for toy_movie toy_stbl toy_plan [10, n] = Some t \<and> length t = 184"
proof -
  have P: "tp_samples toy_plan = [1, 0]" "tp_replace toy_plan = [0 \<mapsto> [9, 9, 9]]" "tp_retime toy_plan = None" "tp_cts toy_plan = Some [2, 1]" "\<not> tp_sync_all toy_plan"
    by (simp_all add: toy_plan_def)
  have w: "words 4 [2, 1, 20, 1, 10] = Some (table 4 [2, 1, 20, 1, 10])" "words 4 [0, 2, 4, 3] = Some (table 4 [0, 2, 4, 3])"
      "words 4 [1, 1, 1, 1] = Some (table 4 [1, 1, 1, 1])" "words 8 [10, int n] = Some (table 8 [10, n])"
    using words_small(1) [of "[2, 1, 20, 1, 10]"] words_small(1) [of "[0, 2, 4, 3]"] words_small(1) [of "[1, 1, 1, 1]"] words_small(2) [of "[10, n]"] assms
    by simp_all
  have runs: "runs_of (planned_durations toy_plan [10, 20]) = [(1, Some 20), (1, Some 10)]"
    by (simp add: runs_of_def add_run_def planned_durations_def P retimed_def at_def)
  have sizes: "planned_sizes toy_plan [\<lparr>sm_offset = 8, sm_size = 2, sm_dts = 0, sm_duration = 10, sm_cts = 0\<rparr>,
     \<lparr>sm_offset = 10, sm_size = 4, sm_dts = 10, sm_duration = 20, sm_cts = 0\<rparr>] = Some [4, 3]"
    by (simp add: planned_sizes_def P at_def)
  obtain c where c: "ctts_of toy_plan = Some c" "length c = 32"
    by (simp add: ctts_of_def P put_sbe_def put_be_def write_box_small)
  show ?thesis
    using put_be_small(1) [of 2]
    by (simp add: tables_for_def children_def toy_boxes find_box_def toy_track_read sync_of_def sizes runs w c stss_of_def P full_box_def write_box_small
        table_length length_slice toy_reads number_or_zero_def)
qed

lemma toy_top: "boxes toy_movie 0 242 = Some [\<lparr>bx_type = ''mdat'', bx_start = 0, bx_end = 14, bx_payload = 8\<rparr>,
     \<lparr>bx_type = ''moov'', bx_start = 14, bx_end = 242, bx_payload = 22\<rparr>]"
  using toy_boxes(1) by (simp only: toy_reads(4))

definition toy_pass :: "nat \<Rightarrow> remux_pass" where
  "toy_pass m = \<lparr>rx_file = toy_movie, rx_head = 14, rx_old = 100, rx_new = 100, rx_plan = toy_remux, rx_moov = m, rx_scaled = (\<lambda>_ _ _. 0)\<rparr>"

lemma toy_moov_built:
  assumes "tables_for toy_movie toy_stbl toy_plan [10, 22 + m] = Some t" "length t = 184"
  shows "\<exists>w. build_moov (toy_pass m) \<lparr>bx_type = ''moov'', bx_start = 14, bx_end = 242, bx_payload = 22\<rparr> = Some (w, [[9, 9, 9]]) \<and> length w = 272"
proof -
  let ?X = "toy_pass m" and ?p = "Some toy_plan" and ?k = "Some Audio_track"
  have X: "rx_file ?X = toy_movie" "rx_new ?X = 100" "rx_old ?X = 100" "rx_head ?X = 14" "rx_moov ?X = m" "rp_audio (rx_plan ?X) = Some toy_plan"
    by (simp_all add: toy_pass_def toy_remux_def)
  have P: "tp_samples toy_plan = [1, 0]" "tp_replace toy_plan = [0 \<mapsto> [9, 9, 9]]" "tp_timescale toy_plan = None" "tp_delay toy_plan = None"
      "tp_edits toy_plan = None" "tp_retime toy_plan = None"
    by (simp_all add: toy_plan_def)
  have tables: "new_tables ?X toy_stbl toy_plan [] = Some (t, [[9, 9, 9]])"
    using assms(1) by (simp add: new_tables_def layout_def X toy_track_read total_length_def P at_def add.commute)
  have minf: "rebuilt ?X \<lparr>bx_type = ''minf'', bx_start = 94, bx_end = 242, bx_payload = 102\<rparr> ?p ?k [] = Some (t, [[9, 9, 9]])"
    using tables by (simp add: rebuilt_eq X children_def toy_boxes moov_step_def push_def)
  obtain w1 where w1: "rebuilt ?X \<lparr>bx_type = ''mdia'', bx_start = 58, bx_end = 242, bx_payload = 66\<rparr> ?p ?k [] = Some (w1, [[9, 9, 9]])" "length w1 = 220"
    using minf assms(2) by (simp add: rebuilt_eq [of ?X "\<lparr>bx_type = ''mdia'', bx_start = 58, bx_end = 242, bx_payload = 66\<rparr>"] X children_def toy_boxes moov_step_def push_def boxed_def write_box_small
      length_slice toy_reads P)
  have edits: "edit_list ?X \<lparr>bx_type = ''mdia'', bx_start = 58, bx_end = 242, bx_payload = 66\<rparr> ?p ?k 100 = Some []"
    by (simp add: edit_list_def stbl_of_mdia_def inner_box_def find_box_def X children_def toy_boxes toy_track_read P planned_durations_def retimed_def at_def)
  have scale: "media_scale ?X \<lparr>bx_type = ''trak'', bx_start = 50, bx_end = 242, bx_payload = 58\<rparr> ?p = Some 100"
    by (simp add: media_scale_def inner_box_def find_box_def X children_def toy_boxes toy_reads P)
  obtain w2 where w2: "rebuilt_trak ?X \<lparr>bx_type = ''trak'', bx_start = 50, bx_end = 242, bx_payload = 58\<rparr> ?p ?k [] = Some (w2, [[9, 9, 9]])" "length w2 = 236"
    using w1 by (simp add: rebuilt_trak_eq X children_def toy_boxes scale edits trak_step_def push_def boxed_def write_box_small)
  have plan: "plan_of_trak ?X \<lparr>bx_type = ''trak'', bx_start = 50, bx_end = 242, bx_payload = 58\<rparr> = Some (?p, ?k)"
    by (simp add: plan_of_trak_def stbl_of_mdia_def inner_box_def find_box_def X children_def toy_boxes toy_track_read)
  show ?thesis
    using w2 by (simp add: build_moov_def rebuilt_eq [of ?X "\<lparr>bx_type = ''moov'', bx_start = 14, bx_end = 242, bx_payload = 22\<rparr>"] X children_def toy_boxes moov_step_def plan push_def boxed_def write_box_small length_slice toy_reads)
qed

lemma toy_remuxed: "remux (\<lambda>_ _ _. 0) toy_movie toy_remux \<noteq> None"
proof -
  let ?moov = "\<lparr>bx_type = ''moov'', bx_start = 14, bx_end = 242, bx_payload = 22\<rparr>"
  obtain t0 t1 where t: "tables_for toy_movie toy_stbl toy_plan [10, 22 + 0] = Some t0" "length t0 = 184"
      "tables_for toy_movie toy_stbl toy_plan [10, 22 + 272] = Some t1" "length t1 = 184"
    using toy_tables [of "22 + 0"] toy_tables [of "22 + 272"] by auto
  obtain w0 w1 where w: "build_moov (toy_pass 0) ?moov = Some (w0, [[9, 9, 9]])" "length w0 = 272"
      "build_moov (toy_pass 272) ?moov = Some (w1, [[9, 9, 9]])" "length w1 = 272"
    using toy_moov_built [OF t(1,2)] toy_moov_built [OF t(3,4)] by blast
  have "rp_movie_timescale toy_remux = None" "toy_movie ! 30 = 0" using toy_reads(1) by (simp_all add: toy_remux_def)
  then show ?thesis
    using w by (simp add: remux_def Let_def toy_top toy_boxes(2-) find_box_def inner_box_def children_def toy_reads toy_pass_def tail_of_def write_box_small)
qed

theorem remux_track_read_back_witness:
  "\<exists>out b ns. remux (\<lambda>_ _ _. 0) toy_movie toy_remux = Some out \<and> samples_of out b = Some ns
    \<and> map (content out) ns = [content toy_movie \<lparr>sm_offset = 10, sm_size = 4, sm_dts = 10, sm_duration = 20, sm_cts = 0\<rparr>, [9, 9, 9]]
    \<and> map sm_cts ns = [2, 1]"
proof -
  obtain out where out: "remux (\<lambda>_ _ _. 0) toy_movie toy_remux = Some out" using toy_remuxed by blast
  have "edited toy_movie toy_remux toy_plan toy_stbl"
    unfolding edited_def
    by (simp add: toy_boxes find_box_def inner_box_def stbl_of_mdia_def children_def toy_track_read toy_remux_def)
      (rule exI [of _ "\<lparr>bx_type = ''trak'', bx_start = 50, bx_end = 242, bx_payload = 58\<rparr>"], simp add: toy_boxes)
  moreover have "plain_stsd toy_movie toy_stbl"
  proof -
    have "slice toy_movie 110 134 = part_bytes (''stsd'', be_bytes 4 0 @ be_bytes 4 1 @ part_bytes (''mp4a'', []))" by code_simp
    moreover have "part_ok (''stsd'', be_bytes 4 0 @ be_bytes 4 1 @ part_bytes (''mp4a'', []))" by (simp add: part_ok_def part_bytes_def ascii_def)
    moreover have "inner_box toy_movie toy_stbl ''stsd'' = Some \<lparr>bx_type = ''stsd'', bx_start = 110, bx_end = 134, bx_payload = 118\<rparr>"
      by (simp add: inner_box_def find_box_def children_def toy_boxes)
    ultimately show ?thesis unfolding plain_stsd_def by fastforce
  qed
  moreover have "media_first toy_movie [\<lparr>sm_offset = 8, sm_size = 2, sm_dts = 0, sm_duration = 10, sm_cts = 0\<rparr>,
     \<lparr>sm_offset = 10, sm_size = 4, sm_dts = 10, sm_duration = 20, sm_cts = 0\<rparr>]"
    by (simp add: media_first_def toy_boxes find_box_def)
  ultimately show ?thesis
    using remux_track_read_back [OF out _ _ toy_track_read(1,2)] out by (fastforce simp: toy_plan_def)
qed

end
