(* ===== verification/C2pa_Edit.thy ===== *)
theory C2pa_Edit
  imports Corpus Canonical Parts
begin

text \<open>
  The JUMBF editing of \<open>tools/src/make-c2pa-vectors.ts\<close>: a store taken apart and put together again, and its APP11
  packets in a JPEG. \<open>None\<close> is an exception, or a box list that never ends (a box of size 0). Text is decoded by the
  library, as in \<open>Corpus\<close>; a type is its 16 bytes, as in \<open>Jumbf\<close>.
\<close>

section \<open>Raw trees\<close>

datatype raw = Raw_box bytes | Raw_super bytes bytes "nat option" "jsstr option" "raw list"

function raw_list :: "bytes \<Rightarrow> nat \<Rightarrow> nat \<Rightarrow> box list option" where
  "raw_list bs p fin = (if p \<ge> fin then Some []
     else case u32 bs p of None \<Rightarrow> None
     | Some sz \<Rightarrow> if sz = 0 then None
         else map_option (Cons \<lparr>bx_type = latin1 (slice bs (p + 4) (p + 8)), bx_start = p, bx_end = p + sz, bx_payload = p + 8\<rparr>)
           (raw_list bs (p + sz) fin))"
  by pat_completeness auto
termination by (relation "measure (\<lambda>(bs, p, fin). fin - p)") auto

declare raw_list.simps [simp del]

lemma raw_list_starts: "raw_list bs p fin = Some xs \<Longrightarrow> b \<in> set xs \<Longrightarrow> p \<le> bx_start b \<and> bx_start b + 4 \<le> length bs"
proof (induction bs p fin arbitrary: xs rule: raw_list.induct)
  case (1 bs p fin)
  show ?case
  proof (cases "p \<ge> fin")
    case True
    then show ?thesis using "1.prems" by (simp add: raw_list.simps [of bs p fin])
  next
    case False
    then obtain sz where sz: "u32 bs p = Some sz" "sz \<noteq> 0"
      using "1.prems"(1) by (auto simp: raw_list.simps [of bs p fin] split: option.splits if_splits)
    then obtain rest where r: "raw_list bs (p + sz) fin = Some rest"
        "xs = \<lparr>bx_type = latin1 (slice bs (p + 4) (p + 8)), bx_start = p, bx_end = p + sz, bx_payload = p + 8\<rparr> # rest"
      using "1.prems"(1) False by (auto simp: raw_list.simps [of bs p fin])
    have "p + 4 \<le> length bs" using sz(1) by (simp add: read_be_def split: if_splits)
    then show ?thesis using "1.IH" [OF False sz(1,2) r(1)] "1.prems"(2) r(2) by auto
  qed
qed

text \<open>The label of a description box: \<open>indexOf\<close> without a NUL gives the empty text.\<close>

definition raw_label :: "text_lib \<Rightarrow> bytes \<Rightarrow> jsstr option" where
  "raw_label L d = (case at d 24 of None \<Rightarrow> None
     | Some t \<Rightarrow> if \<not> bit t 1 then None
         else Some (utf8_text L (case index_of_zero (drop 25 d) of None \<Rightarrow> [] | Some n \<Rightarrow> take n (drop 25 d))))"

function raw_node :: "text_lib \<Rightarrow> bytes \<Rightarrow> nat \<Rightarrow> nat \<Rightarrow> raw option" where
  "raw_node L bs p fin = (case raw_list bs (p + 8) fin of
     Some (description # rest) \<Rightarrow>
       (let d = slice bs (bx_start description) (bx_end description) in
        map_option (Raw_super d (slice d 8 24) (map_option unat (at d 24)) (raw_label L d))
          (omap (\<lambda>c. if bx_type c = ''jumb'' then raw_node L bs (bx_start c) (bx_end c)
                 else Some (Raw_box (slice bs (bx_start c) (bx_end c)))) rest))
   | _ \<Rightarrow> None)"
  by pat_completeness auto
termination
proof (relation "measure (\<lambda>(L, bs, p, fin). length bs - p)")
  fix L bs p fin xs description rest d c
  assume a: "raw_list bs (p + 8) fin = Some xs" "xs = description # rest" "c \<in> set rest"
  then have "p + 8 \<le> bx_start c \<and> bx_start c + 4 \<le> length bs" using raw_list_starts [OF a(1)] by simp
  then show "((L, bs, bx_start c, bx_end c), L, bs, p, fin) \<in> measure (\<lambda>(L, bs, p, fin). length bs - p)" by auto
qed simp

declare raw_node.simps [simp del]

definition raw_parse :: "text_lib \<Rightarrow> bytes \<Rightarrow> raw option" where
  "raw_parse L bs = do { n \<leftarrow> u32 bs 0; raw_node L bs 0 n }"

fun raw_serialize :: "raw \<Rightarrow> bytes option" where
  "raw_serialize (Raw_box b) = Some b"
| "raw_serialize (Raw_super d ty toggles lbl cs) = (case omap raw_serialize cs of None \<Rightarrow> None
     | Some bs \<Rightarrow> write_box ''jumb'' (d @ concat bs))"

definition description_box :: "bytes \<Rightarrow> nat \<Rightarrow> jsstr \<Rightarrow> bytes option" where
  "description_box ty toggles lbl = write_box ''jumd'' (ty @ [of_nat toggles] @ utf8_encode lbl @ [0])"

definition raw_type :: "raw \<Rightarrow> bytes" where "raw_type n = (case n of Raw_super d ty t l cs \<Rightarrow> ty | Raw_box b \<Rightarrow> [])"
definition raw_name :: "raw \<Rightarrow> jsstr option" where "raw_name n = (case n of Raw_super d ty t l cs \<Rightarrow> l | Raw_box b \<Rightarrow> None)"

definition supers :: "raw \<Rightarrow> raw list" where
  "supers n = (case n of Raw_super d ty t l cs \<Rightarrow> filter (\<lambda>c. case c of Raw_super _ _ _ _ _ \<Rightarrow> True | Raw_box _ \<Rightarrow> False) cs | Raw_box b \<Rightarrow> [])"

definition manifest_named :: "raw \<Rightarrow> jsstr \<Rightarrow> raw option" where
  "manifest_named store lbl = List.find (\<lambda>m. raw_name m = Some lbl) (supers store)"

definition assertions_of :: "raw \<Rightarrow> raw option" where
  "assertions_of m = List.find (\<lambda>c. raw_type c = TYPE_assertionStore) (supers m)"

section \<open>Packets\<close>

record jpeg_store =
  jst_en :: nat
  jst_bytes :: bytes
  jst_first :: nat
  jst_end :: nat

definition jpeg_store_of :: "bytes \<Rightarrow> jpeg_store option" where
  "jpeg_store_of jpeg = do {
     segments \<leftarrow> jpeg_segments jpeg;
     g \<leftarrow> List.find (\<lambda>g. grp_type g = Some TYPE_store) (jumbf_groups jpeg segments);
     en \<leftarrow> grp_en g;
     (case grp_segments g of [] \<Rightarrow> None
      | first # rest \<Rightarrow> Some \<lparr>jst_en = en, jst_bytes = seg_packet first @ concat (map (\<lambda>s. drop 8 (seg_packet s)) rest),
          jst_first = seg_start first, jst_end = seg_end (last (first # rest))\<rparr>) }"

definition ROOM :: nat where "ROOM = 65535 - 2 - 8"

text \<open>The loop from position \<open>p\<close>, packet \<open>z\<close>: the first chunk, then the header again with what comes next.\<close>

definition chunk_at :: "bytes \<Rightarrow> nat \<Rightarrow> bytes" where
  "chunk_at store p = (if p = 0 then take ROOM store else take 8 store @ slice store p (p + ROOM - 8))"

definition next_at :: "bytes \<Rightarrow> nat \<Rightarrow> nat" where
  "next_at store p = p + (if p = 0 then length (chunk_at store p) else length (chunk_at store p) - 8)"

definition packet_head :: "nat \<Rightarrow> nat \<Rightarrow> bytes \<Rightarrow> bytes option" where
  "packet_head en z chunk = do {
     n \<leftarrow> put_be 2 (int (2 + 8 + length chunk));
     e \<leftarrow> put_be 2 (int en);
     i \<leftarrow> put_be 4 (int z);
     Some ([0xff, 0xeb] @ n @ ascii ''JP'' @ e @ i) }"

lemma next_at_grows: "p < length store \<Longrightarrow> 8 \<le> length store \<or> p = 0 \<Longrightarrow> p < next_at store p"
  by (auto simp: next_at_def chunk_at_def ROOM_def length_slice)

text \<open>A store shorter than its header is one packet.\<close>

function app11_loop :: "bytes \<Rightarrow> nat \<Rightarrow> nat \<Rightarrow> nat \<Rightarrow> bytes option" where
  "app11_loop store en p z = (if p \<ge> length store \<or> (length store < 8 \<and> p \<noteq> 0) then Some []
     else do {
       head \<leftarrow> packet_head en z (chunk_at store p);
       rest \<leftarrow> app11_loop store en (next_at store p) (z + 1);
       Some (head @ chunk_at store p @ rest) })"
  by pat_completeness auto
termination
  by (relation "measure (\<lambda>(store, en, p, z). length store - p)") (auto intro!: diff_less_mono2 next_at_grows)

declare app11_loop.simps [simp del]

definition app11_packets :: "bytes \<Rightarrow> nat \<Rightarrow> bytes option" where
  "app11_packets store en = app11_loop store en 0 1"

definition jpeg_with_store :: "bytes \<Rightarrow> raw + bytes \<Rightarrow> bytes option" where
  "jpeg_with_store jpeg store = do {
     old \<leftarrow> jpeg_store_of jpeg;
     bs \<leftarrow> (case store of Inl n \<Rightarrow> raw_serialize n | Inr b \<Rightarrow> Some b);
     packets \<leftarrow> app11_packets bs (jst_en old);
     Some (take (jst_first old) jpeg @ packets @ drop (jst_end old) jpeg) }"

text \<open>\<open>editPixels\<close>: one byte of the entropy-coded data; before the start there is none to change.\<close>

definition edit_pixels :: "bytes \<Rightarrow> bytes" where
  "edit_pixels jpeg = (if length jpeg < 40 then jpeg else jpeg[length jpeg - 40 := xor (jpeg ! (length jpeg - 40)) 0x55])"

section \<open>A JPEG as its segments\<close>

definition seg_bytes :: "byte \<times> bytes \<Rightarrow> bytes" where
  "seg_bytes s = [0xff, fst s] @ be_bytes 2 (2 + length (snd s)) @ snd s"

definition seg_ok :: "byte \<times> bytes \<Rightarrow> bool" where
  "seg_ok s \<longleftrightarrow> \<not> skipped_marker (fst s) \<and> fst s \<noteq> 0xda \<and> 2 + length (snd s) < 256 ^ 2"

definition no_jumbf :: "byte \<times> bytes \<Rightarrow> bool" where
  "no_jumbf s \<longleftrightarrow> \<not> (fst s = 0xeb \<and> take 2 (snd s) = ascii ''JP'')"

text \<open>What follows the segments: the scan, or less than a segment.\<close>

definition scan_ok :: "bytes \<Rightarrow> bool" where
  "scan_ok scan \<longleftrightarrow> length scan < 4 \<or> take 2 scan = [0xff, 0xda]"

definition all_bytes :: "(byte \<times> bytes) list \<Rightarrow> bytes" where "all_bytes segs = concat (map seg_bytes segs)"

definition jpeg_of :: "(byte \<times> bytes) list \<Rightarrow> bytes \<Rightarrow> bytes" where
  "jpeg_of segs scan = [0xff, 0xd8] @ all_bytes segs @ scan"

fun placed_segments :: "nat \<Rightarrow> (byte \<times> bytes) list \<Rightarrow> jpeg_segment list" where
  "placed_segments p [] = []"
| "placed_segments p (s # ss) = \<lparr>js_marker = fst s, js_start = p, js_end = p + length (seg_bytes s)\<rparr> # placed_segments (p + length (seg_bytes s)) ss"

lemma seg_bytes_length: "length (seg_bytes s) = 4 + length (snd s)"
  by (simp add: seg_bytes_def)

lemma all_bytes_simps [simp]: "all_bytes [] = []" "all_bytes (s # ss) = seg_bytes s @ all_bytes ss" "all_bytes (xs @ ys) = all_bytes xs @ all_bytes ys"
  by (simp_all add: all_bytes_def)

lemma placed_append: "placed_segments p (xs @ ys) = placed_segments p xs @ placed_segments (p + length (all_bytes xs)) ys"
  by (induction xs arbitrary: p) (simp_all add: add.assoc)

lemma segments_placed:
  assumes "\<forall>s \<in> set segs. seg_ok s" "scan_ok scan" "jpeg = a @ all_bytes segs @ scan"
  shows "segments_from jpeg (length a) = Some (placed_segments (length a) segs)"
  using assms(1,3)
proof (induction segs arbitrary: a)
  case Nil
  show ?case
  proof (cases "length scan < 4")
    case True
    then show ?thesis using Nil by (simp add: segments_from.simps)
  next
    case False
    then obtain x y r where "scan = x # y # r" by (cases scan; cases "tl scan") auto
    then have "scan = 0xff # 0xda # r" using assms(2) False by (simp add: scan_ok_def numeral_2_eq_2)
    then show ?thesis using Nil False by (subst segments_from.simps) (simp add: nth_append skipped_marker_def)
  qed
next
  case (Cons s segs)
  have ok: "\<not> skipped_marker (fst s)" "fst s \<noteq> 0xda" "2 + length (snd s) < 256 ^ 2" using Cons.prems(1) by (simp_all add: seg_ok_def)
  have j: "jpeg = (a @ seg_bytes s) @ all_bytes segs @ scan" using Cons.prems(2) by simp
  have b: "jpeg ! length a = 0xff" "jpeg ! (length a + 1) = fst s"
    using Cons.prems(2) by (simp_all add: seg_bytes_def nth_append)
  have "slice jpeg (length a + 2) (length a + 4) = be_bytes 2 (2 + length (snd s))"
    using Cons.prems(2) by (simp add: seg_bytes_def slice_def)
  then have len: "be_val (slice jpeg (length a + 2) (length a + 4)) = 2 + length (snd s)" using ok(3) by simp
  have l: "length (a @ seg_bytes s) = length a + 2 + (2 + length (snd s))" by (simp add: seg_bytes_length)
  have ih: "segments_from jpeg (length a + 2 + (2 + length (snd s))) = Some (placed_segments (length a + 2 + (2 + length (snd s))) segs)"
    using Cons.IH [OF _ j] Cons.prems(1) unfolding l by simp
  have e: "length a + length (seg_bytes s) = length a + 2 + (2 + length (snd s))" by (simp add: seg_bytes_length)
  have "length a + 2 + (2 + length (snd s)) \<le> length jpeg" using j l by simp
  then show ?case
    using ih len ok b by (subst segments_from.simps) (simp only: Let_def if_False if_not_P not_le not_less simp_thms placed_segments.simps e, simp)
qed

lemma placed_bounds: "x \<in> set (placed_segments p segs) \<Longrightarrow> p \<le> js_start x \<and> js_start x < p + length (all_bytes segs)"
  by (induction segs arbitrary: p) (fastforce simp: seg_bytes_length)+

text \<open>The payload of a placed segment is the segment's.\<close>

lemma group_step_at:
  assumes "jpeg = a @ seg_bytes s @ c"
  shows "group_step jpeg gs \<lparr>js_marker = fst s, js_start = length a, js_end = length a + length (seg_bytes s)\<rparr> =
    (if no_jumbf s then gs
     else add_to_groups (if length (snd s) \<ge> 8 then Some (be_val (slice (snd s) 2 4)) else None)
       \<lparr>seg_start = length a, seg_end = length a + length (seg_bytes s), seg_z = (if length (snd s) \<ge> 8 then Some (be_val (slice (snd s) 4 8)) else None),
        seg_packet = drop 8 (snd s)\<rparr> gs)"
proof -
  have "slice jpeg (length a + 4) (length a + length (seg_bytes s)) = snd s"
    by (simp add: assms seg_bytes_length) (simp add: slice_def seg_bytes_def)
  then show ?thesis by (simp add: group_step_def Let_def no_jumbf_def)
qed

lemma groups_plain:
  assumes "\<forall>s \<in> set segs. no_jumbf s" "jpeg = a @ all_bytes segs @ c"
  shows "foldl (group_step jpeg) gs (placed_segments (length a) segs) = gs"
  using assms
proof (induction segs arbitrary: a)
  case (Cons s segs)
  have "group_step jpeg gs \<lparr>js_marker = fst s, js_start = length a, js_end = length a + length (seg_bytes s)\<rparr> = gs"
    using group_step_at [of jpeg a s "all_bytes segs @ c"] Cons.prems by simp
  then show ?case using Cons.IH [of "a @ seg_bytes s"] Cons.prems by simp
qed simp

section \<open>The packets of a store\<close>

function chunks :: "bytes \<Rightarrow> nat \<Rightarrow> bytes list" where
  "chunks store p = (if p \<ge> length store \<or> (length store < 8 \<and> p \<noteq> 0) then [] else chunk_at store p # chunks store (next_at store p))"
  by pat_completeness auto
termination
  by (relation "measure (\<lambda>(store, p). length store - p)") (auto intro!: diff_less_mono2 next_at_grows)

declare chunks.simps [simp del]

fun packet_segs :: "nat \<Rightarrow> nat \<Rightarrow> bytes list \<Rightarrow> (byte \<times> bytes) list" where
  "packet_segs en z [] = []"
| "packet_segs en z (c # cs) = (0xeb, ascii ''JP'' @ be_bytes 2 en @ be_bytes 4 z @ c) # packet_segs en (z + 1) cs"

fun placed_packets :: "nat \<Rightarrow> nat \<Rightarrow> bytes list \<Rightarrow> jumbf_segment list" where
  "placed_packets p z [] = []"
| "placed_packets p z (c # cs) = \<lparr>seg_start = p, seg_end = p + 12 + length c, seg_z = Some z, seg_packet = c\<rparr> # placed_packets (p + 12 + length c) (z + 1) cs"

lemma packet_payload:
  assumes "en < 256 ^ 2" "z < 256 ^ 4"
  shows "be_val (slice (ascii ''JP'' @ be_bytes 2 en @ be_bytes 4 z @ c) 2 4) = en" "be_val (slice (ascii ''JP'' @ be_bytes 2 en @ be_bytes 4 z @ c) 4 8) = z"
    "drop 8 (ascii ''JP'' @ be_bytes 2 en @ be_bytes 4 z @ c) = c" "take 2 (ascii ''JP'' @ be_bytes 2 en @ be_bytes 4 z @ c) = ascii ''JP''"
    "8 \<le> length (ascii ''JP'' @ be_bytes 2 en @ be_bytes 4 z @ c)"
  using assms by (simp_all add: slice_def ascii_def)

lemma groups_packets:
  assumes "en < 256 ^ 2" "z + length cs \<le> 256 ^ 4" "jpeg = a @ all_bytes (packet_segs en z cs) @ c"
  shows "foldl (group_step jpeg) [\<lparr>grp_en = Some en, grp_type = None, grp_segments = ss\<rparr>] (placed_segments (length a) (packet_segs en z cs))
    = [\<lparr>grp_en = Some en, grp_type = None, grp_segments = ss @ placed_packets (length a) z cs\<rparr>]"
  using assms(2,3)
proof (induction cs arbitrary: a z ss)
  case (Cons x cs)
  define s where "s = (0xeb :: byte, ascii ''JP'' @ be_bytes 2 en @ be_bytes 4 z @ x)"
  have z: "z < 256 ^ 4" using Cons.prems(1) by simp
  note pp = packet_payload [OF assms(1) z, of x]
  have j: "jpeg = a @ seg_bytes s @ all_bytes (packet_segs en (z + 1) cs) @ c" using Cons.prems(2) by (simp add: s_def)
  have l: "length (seg_bytes s) = 12 + length x" by (simp add: seg_bytes_length s_def ascii_def)
  have "group_step jpeg [\<lparr>grp_en = Some en, grp_type = None, grp_segments = ss\<rparr>] \<lparr>js_marker = fst s, js_start = length a, js_end = length a + length (seg_bytes s)\<rparr>
      = [\<lparr>grp_en = Some en, grp_type = None, grp_segments = ss @ [\<lparr>seg_start = length a, seg_end = length a + 12 + length x, seg_z = Some z, seg_packet = x\<rparr>]\<rparr>]"
  proof -
    have n: "\<not> no_jumbf s" "8 \<le> length (snd s)" "be_val (slice (snd s) 2 4) = en" "be_val (slice (snd s) 4 8) = z" "drop 8 (snd s) = x"
      using pp by (simp_all only: s_def fst_conv snd_conv no_jumbf_def simp_thms)
    show ?thesis unfolding group_step_at [OF j] by (simp add: n l add.assoc)
  qed
  then show ?case
    using Cons.IH [of "z + 1" "a @ seg_bytes s" "ss @ [\<lparr>seg_start = length a, seg_end = length a + 12 + length x, seg_z = Some z, seg_packet = x\<rparr>]"]
      Cons.prems(1) j l by (simp add: s_def [symmetric] add.assoc)
qed simp

lemma groups_store:
  assumes "en < 256 ^ 2" "z + length (x # cs) \<le> 256 ^ 4" "jpeg = a @ all_bytes (packet_segs en z (x # cs)) @ c"
  shows "foldl (group_step jpeg) [] (placed_segments (length a) (packet_segs en z (x # cs)))
    = [\<lparr>grp_en = Some en, grp_type = None, grp_segments = placed_packets (length a) z (x # cs)\<rparr>]"
proof -
  define s where "s = (0xeb :: byte, ascii ''JP'' @ be_bytes 2 en @ be_bytes 4 z @ x)"
  have z: "z < 256 ^ 4" using assms(2) by simp
  have n: "\<not> no_jumbf s" "8 \<le> length (snd s)" "be_val (slice (snd s) 2 4) = en" "be_val (slice (snd s) 4 8) = z" "drop 8 (snd s) = x"
    using packet_payload [OF assms(1) z, of x] by (simp_all only: s_def fst_conv snd_conv no_jumbf_def simp_thms)
  have j: "jpeg = a @ seg_bytes s @ all_bytes (packet_segs en (z + 1) cs) @ c" using assms(3) by (simp add: s_def)
  have l: "length (seg_bytes s) = 12 + length x" by (simp add: seg_bytes_length s_def ascii_def)
  have "group_step jpeg [] \<lparr>js_marker = fst s, js_start = length a, js_end = length a + length (seg_bytes s)\<rparr>
      = [\<lparr>grp_en = Some en, grp_type = None, grp_segments = [\<lparr>seg_start = length a, seg_end = length a + 12 + length x, seg_z = Some z, seg_packet = x\<rparr>]\<rparr>]"
    unfolding group_step_at [OF j] by (simp add: n l add.assoc)
  moreover have "jpeg = (a @ seg_bytes s) @ all_bytes (packet_segs en (z + 1) cs) @ c" using j by simp
  ultimately show ?thesis
    using groups_packets [of en "z + 1" cs jpeg "a @ seg_bytes s" c "[\<lparr>seg_start = length a, seg_end = length a + 12 + length x, seg_z = Some z, seg_packet = x\<rparr>]"]
      assms(1,2) l by (simp add: s_def [symmetric] add.assoc)
qed

lemma packet_segs_length: "length (all_bytes (packet_segs en z cs)) = 12 * length cs + length (concat cs)"
  by (induction cs arbitrary: z) (simp_all add: seg_bytes_length ascii_def)

text \<open>A store: a superbox of the store's type with a 32-bit size.\<close>

definition is_store :: "bytes \<Rightarrow> bool" where
  "is_store s \<longleftrightarrow> packet_type s = Some TYPE_store \<and> be_val (take 4 s) \<noteq> 1 \<and> length s < 256 ^ 4"

lemma store_length: "is_store s \<Longrightarrow> 32 \<le> length s"
  by (auto simp: is_store_def packet_type_def Let_def split: if_splits)

lemma chunks_Cons: "p < length store \<Longrightarrow> 8 \<le> length store \<Longrightarrow> chunks store p = chunk_at store p # chunks store (next_at store p)"
  by (subst chunks.simps) simp

lemma chunk_lengths: "8 \<le> length store \<Longrightarrow> p < length store \<Longrightarrow> p \<noteq> 0 \<Longrightarrow>
    length (chunk_at store p) = 8 + min (ROOM - 8) (length store - p) \<and> drop 8 (chunk_at store p) = take (ROOM - 8) (drop p store)
    \<and> next_at store p = p + min (ROOM - 8) (length store - p)"
  by (simp add: chunk_at_def next_at_def slice_def ROOM_def)

text \<open>The chunks after the first, without the header they repeat, are the rest of the store.\<close>

lemma later_chunks:
  assumes "8 \<le> length store"
  shows "p \<noteq> 0 \<Longrightarrow> concat (map (drop 8) (chunks store p)) = drop p store \<and> (\<forall>c \<in> set (chunks store p). 8 \<le> length c \<and> length c \<le> ROOM)
    \<and> length (chunks store p) \<le> length store - p"
proof (induction "length store - p" arbitrary: p rule: less_induct)
  case less
  show ?case
  proof (cases "p < length store")
    case False
    then show ?thesis by (simp add: chunks.simps)
  next
    case True
    note c = chunk_lengths [OF assms True less.prems]
    let ?q = "next_at store p"
    have q: "?q \<noteq> 0" "length store - ?q < length store - p" using c True by (auto simp: ROOM_def)
    have "take (ROOM - 8) (drop p store) @ drop ?q store = drop p store"
      using c by (metis (no_types, lifting) append_take_drop_id drop_drop length_drop min_def take_all_iff nle_le add.commute drop_all)
    then show ?thesis
      using less.hyps [OF q(2) q(1)] c True q(2) by (auto simp: chunks_Cons [OF True assms] ROOM_def)
  qed
qed

lemma first_chunk: "store \<noteq> [] \<Longrightarrow> chunk_at store 0 = take ROOM store \<and> next_at store 0 = min ROOM (length store)"
  by (simp add: chunk_at_def next_at_def)

text \<open>The packets as segments.\<close>

definition store_segments :: "nat \<Rightarrow> bytes \<Rightarrow> (byte \<times> bytes) list" where
  "store_segments en store = packet_segs en 1 (chunks store 0)"

lemma app11_loop_segments:
  assumes "en < 256 ^ 2"
  shows "z + length (chunks store p) \<le> 256 ^ 4 \<Longrightarrow> \<forall>c \<in> set (chunks store p). length c \<le> ROOM \<Longrightarrow>
    app11_loop store en p z = Some (all_bytes (packet_segs en z (chunks store p)))"
proof (induction store p arbitrary: z rule: chunks.induct)
  case (1 store p)
  show ?case
  proof (cases "p \<ge> length store \<or> (length store < 8 \<and> p \<noteq> 0)")
    case True
    then show ?thesis by (simp add: app11_loop.simps [of store en p] chunks.simps [of store p])
  next
    case False
    have c: "chunks store p = chunk_at store p # chunks store (next_at store p)" using False by (simp add: chunks.simps [of store p])
    have b: "z + 1 + length (chunks store (next_at store p)) \<le> 256 ^ 4" "length (chunk_at store p) \<le> ROOM"
        "\<forall>c \<in> set (chunks store (next_at store p)). length c \<le> ROOM"
      using "1.prems" by (simp_all add: c)
    have "packet_head en z (chunk_at store p) = Some ([0xff, 0xeb] @ be_bytes 2 (10 + length (chunk_at store p)) @ ascii ''JP'' @ be_bytes 2 en @ be_bytes 4 z)"
      using assms b(1,2) put_be_int [of "10 + length (chunk_at store p)" 2] put_be_int [of en 2] put_be_int [of z 4]
      by (simp add: packet_head_def ROOM_def add.commute)
    then show ?thesis
      using "1.IH" [OF False b(1,3)] False
      by (subst app11_loop.simps) (simp add: c seg_bytes_def ascii_def add.commute del: be_bytes.simps)
  qed
qed

lemma slice_take: "e \<le> n \<Longrightarrow> slice (take n xs) s e = slice xs s e"
  by (auto simp: slice_def drop_take take_take min_def)

lemma packet_type_take: "40 \<le> n \<Longrightarrow> packet_type (take n s) = packet_type s"
  by (simp add: packet_type_def slice_take Let_def min_def)

lemma packet_type_first:
  "is_store store \<Longrightarrow> en < 256 ^ 2 \<Longrightarrow> \<exists>x cs. chunks store 0 = x # cs \<and> packet_type x = Some TYPE_store \<and> be_val (take 4 x) \<noteq> 1 \<and> 8 \<le> length x \<and> length x \<le> ROOM
    \<and> x @ concat (map (drop 8) cs) = store \<and> (\<forall>c \<in> set cs. 8 \<le> length c \<and> length c \<le> ROOM) \<and> 1 + length (x # cs) \<le> 256 ^ 4"
proof -
  assume st: "is_store store"
  have l: "32 \<le> length store" by (rule store_length [OF st])
  then have ne: "store \<noteq> []" by auto
  let ?q = "next_at store 0"
  have f: "chunk_at store 0 = take ROOM store" "?q = min ROOM (length store)" using first_chunk [OF ne] by simp_all
  have c: "chunks store 0 = take ROOM store # chunks store ?q" using chunks_Cons [of 0 store] l f ne by simp
  have q: "?q \<noteq> 0" using f l ne by (simp add: ROOM_def)
  note r = later_chunks [OF _ q, of store]
  have "take ROOM store @ drop ?q store = store" by (simp add: f min_def)
  moreover have "packet_type (take ROOM store) = Some TYPE_store" using st by (simp add: packet_type_take ROOM_def is_store_def)
  moreover have "be_val (take 4 (take ROOM store)) \<noteq> 1" using st by (simp add: is_store_def take_take ROOM_def)
  ultimately show ?thesis
    using c r l st q f(2) by (intro exI [of _ "take ROOM store"] exI [of _ "chunks store ?q"]) (auto simp: is_store_def ROOM_def)
qed

text \<open>The one group the packets form, and the store in it.\<close>

lemma jumbf_groups_of:
  assumes "is_store store" "en < 256 ^ 2" "\<forall>s \<in> set (pre @ post). no_jumbf s"
  shows "jumbf_groups (jpeg_of (pre @ store_segments en store @ post) scan) (placed_segments 2 (pre @ store_segments en store @ post))
    = [\<lparr>grp_en = Some en, grp_type = Some TYPE_store, grp_segments = placed_packets (2 + length (all_bytes pre)) 1 (chunks store 0)\<rparr>]"
proof -
  let ?j = "jpeg_of (pre @ store_segments en store @ post) scan"
  obtain x cs where c: "chunks store 0 = x # cs" "packet_type x = Some TYPE_store" "1 + length (x # cs) \<le> 256 ^ 4"
    using packet_type_first [OF assms(1,2)] by blast
  define a where "a = [0xff :: byte, 0xd8]"
  have a: "length a = 2" by (simp add: a_def)
  have s: "store_segments en store = packet_segs en 1 (x # cs)" by (simp only: store_segments_def c(1))
  have 1: "foldl (group_step ?j) [] (placed_segments (length a) pre) = []"
    by (rule groups_plain [of _ _ _ "all_bytes (store_segments en store @ post) @ scan"]) (use assms(3) in \<open>simp_all add: jpeg_of_def a_def\<close>)
  have 2: "foldl (group_step ?j) [] (placed_segments (length (a @ all_bytes pre)) (store_segments en store))
      = [\<lparr>grp_en = Some en, grp_type = None, grp_segments = placed_packets (length (a @ all_bytes pre)) 1 (x # cs)\<rparr>]"
    unfolding s by (rule groups_store [OF assms(2) c(3), of _ _ "all_bytes post @ scan"]) (simp add: jpeg_of_def a_def s)
  have 3: "foldl (group_step ?j) gs (placed_segments (length (a @ all_bytes pre @ all_bytes (store_segments en store))) post) = gs" for gs
    by (rule groups_plain [of _ _ _ scan]) (use assms(3) in \<open>simp_all add: jpeg_of_def a_def\<close>)
  have "foldl (group_step ?j) [] (placed_segments 2 (pre @ store_segments en store @ post))
      = [\<lparr>grp_en = Some en, grp_type = None, grp_segments = placed_packets (2 + length (all_bytes pre)) 1 (x # cs)\<rparr>]"
    using 1 2 3 by (simp add: placed_append a add.assoc)
  then show ?thesis unfolding jumbf_groups_def c(1) by (simp add: type_group_def c(2))
qed

lemma later_packets_read:
  "\<forall>c \<in> set cs. 8 \<le> length c \<Longrightarrow> later_packets 8 i (placed_packets p (i + 1) cs) = Some (concat (map (drop 8) cs))"
  by (induction cs arbitrary: i p) simp_all

lemma reassemble_store:
  assumes "is_store store" "en < 256 ^ 2"
  shows "reassemble \<lparr>grp_en = Some en, grp_type = t, grp_segments = placed_packets p 1 (chunks store 0)\<rparr> = Some store"
proof -
  obtain x cs where c: "chunks store 0 = x # cs" "be_val (take 4 x) \<noteq> 1" "8 \<le> length x" "x @ concat (map (drop 8) cs) = store" "\<forall>c \<in> set cs. 8 \<le> length c"
    using packet_type_first [OF assms] by blast
  have "later_packets 8 1 (placed_packets q 2 cs) = Some (concat (map (drop 8) cs))" for q
    using later_packets_read [OF c(5), of 1 q] by (simp add: numeral_2_eq_2)
  then show ?thesis using c by (simp add: reassemble_def c(1) Let_def numeral_2_eq_2)
qed

text \<open>A JPEG without other JUMBF, walked.\<close>

definition plain_segments :: "(byte \<times> bytes) list \<Rightarrow> bool" where
  "plain_segments segs \<longleftrightarrow> (\<forall>s \<in> set segs. seg_ok s \<and> no_jumbf s)"

lemma packet_segs_ok: "\<forall>c \<in> set cs. length c \<le> ROOM \<Longrightarrow> \<forall>s \<in> set (packet_segs en z cs). seg_ok s"
  by (induction cs arbitrary: z) (simp_all add: seg_ok_def skipped_marker_def ascii_def ROOM_def)

lemma store_segments_ok: "is_store store \<Longrightarrow> en < 256 ^ 2 \<Longrightarrow> \<forall>s \<in> set (store_segments en store). seg_ok s"
  unfolding store_segments_def by (rule packet_segs_ok) (use packet_type_first in fastforce)

lemma jpeg_of_walk:
  "\<forall>s \<in> set segs. seg_ok s \<Longrightarrow> scan_ok scan \<Longrightarrow> jpeg_segments (jpeg_of segs scan) = Some (placed_segments 2 segs)"
  using segments_placed [of segs scan "jpeg_of segs scan" "[0xff, 0xd8]"] by (simp add: jpeg_segments_def jpeg_of_def numeral_2_eq_2)

lemma embedded_of:
  assumes "is_store store" "en < 256 ^ 2" "plain_segments pre" "plain_segments post" "scan_ok scan"
  shows "embedded_stores (jpeg_of (pre @ store_segments en store @ post) scan) = [Some store]"
proof -
  let ?j = "jpeg_of (pre @ store_segments en store @ post) scan"
  have "is_jpeg ?j" by (simp add: is_jpeg_def jpeg_of_def)
  moreover have "jpeg_segments ?j = Some (placed_segments 2 (pre @ store_segments en store @ post))"
    by (rule jpeg_of_walk) (use assms store_segments_ok in \<open>auto simp: plain_segments_def\<close>)
  moreover have "\<forall>s \<in> set (pre @ post). no_jumbf s" using assms(3,4) by (auto simp: plain_segments_def)
  ultimately show ?thesis
    using jumbf_groups_of [OF assms(1,2), of pre post scan] reassemble_store [OF assms(1,2)] by (simp add: embedded_stores_def)
qed

section \<open>What is stripped\<close>

lemma keep_none: "\<forall>s \<in> set ss. js_start s \<notin> set dropped \<Longrightarrow> keep_from jpeg dropped p (ss @ ts) = keep_from jpeg dropped p ts"
  by (induction ss) simp_all

lemma keep_drop: "\<forall>x \<in> set (placed_segments q ss). js_start x \<in> set dropped \<Longrightarrow>
    keep_from jpeg dropped q (placed_segments q ss @ ts) = keep_from jpeg dropped (q + length (all_bytes ss)) ts"
  by (induction ss arbitrary: q) (simp_all add: slice_def add.assoc)

lemma placed_packet_starts: "map seg_start (placed_packets p z cs) = map js_start (placed_segments p (packet_segs en z cs))"
  by (induction cs arbitrary: p z) (simp_all add: seg_bytes_length ascii_def add.assoc)

lemma canonical_of:
  assumes "is_store store" "en < 256 ^ 2" "plain_segments pre" "plain_segments post" "scan_ok scan"
  shows "canonical_bytes (jpeg_of (pre @ store_segments en store @ post) scan) = Some (jpeg_of (pre @ post) scan)"
proof -
  let ?segs = "pre @ store_segments en store @ post" and ?p = "2 + length (all_bytes pre)"
  let ?j = "jpeg_of ?segs scan" and ?q = "2 + length (all_bytes pre) + length (all_bytes (store_segments en store))"
  obtain x cs where c: "chunks store 0 = x # cs" using packet_type_first [OF assms(1,2)] by blast
  have w: "jpeg_segments ?j = Some (placed_segments 2 ?segs)"
    by (rule jpeg_of_walk) (use assms store_segments_ok in \<open>auto simp: plain_segments_def\<close>)
  define dropped where "dropped = map js_start (placed_segments ?p (store_segments en store))"
  have "\<forall>s \<in> set (pre @ post). no_jumbf s" using assms(3,4) by (auto simp: plain_segments_def)
  then have d: "dropped_starts (jumbf_groups ?j (placed_segments 2 ?segs)) = dropped"
    using jumbf_groups_of [OF assms(1,2)] placed_packet_starts [of ?p 1 "chunks store 0" en]
    by (simp add: dropped_starts_def dropped_def store_segments_def)
  have "js_start y \<notin> set dropped" if "y \<in> set (placed_segments 2 pre)" for y
    using placed_bounds [OF that] by (auto simp: dropped_def dest!: placed_bounds)
  then have pre: "keep_from ?j dropped 0 (placed_segments 2 ?segs)
      = keep_from ?j dropped 0 (placed_segments ?p (store_segments en store) @ placed_segments ?q post)"
    by (simp add: placed_append keep_none add.assoc)
  have post: "keep_from ?j dropped n (placed_segments ?q post) = drop n ?j" for n
  proof -
    have "js_start y \<notin> set dropped" if "y \<in> set (placed_segments ?q post)" for y
      using placed_bounds [OF that] by (auto simp: dropped_def dest!: placed_bounds)
    then show ?thesis using keep_none [of "placed_segments ?q post" dropped ?j n "[]"] by simp
  qed
  obtain y ys where y: "store_segments en store = y # ys" by (simp add: store_segments_def c)
  have all: "\<forall>x \<in> set (placed_segments ?p (store_segments en store)). js_start x \<in> set dropped" by (auto simp: dropped_def)
  then have "keep_from ?j dropped 0 (placed_segments ?p (store_segments en store) @ ts)
      = slice ?j 0 ?p @ keep_from ?j dropped ?p (placed_segments ?p (store_segments en store) @ ts)" for ts
    by (simp add: y slice_def)
  then have "keep_from ?j dropped 0 (placed_segments ?p (store_segments en store) @ placed_segments ?q post) = take ?p ?j @ drop ?q ?j"
    using keep_drop [OF all, of ?j "placed_segments ?q post"] post by (simp add: slice_def)
  also have "\<dots> = jpeg_of (pre @ post) scan" by (simp add: jpeg_of_def)
  finally show ?thesis
    using pre d w by (simp add: canonical_bytes_def detect_container_def is_jpeg_def jpeg_of_def [of _ scan] strip_c2pa_from_jpeg_def)
qed

section \<open>Replacing the store\<close>

lemma placed_packets_Nil [simp]: "placed_packets p z cs = [] \<longleftrightarrow> cs = []"
  by (cases cs) simp_all

lemma last_packet_end: "cs \<noteq> [] \<Longrightarrow> seg_end (last (placed_packets p z cs)) = p + length (all_bytes (packet_segs en z cs))"
proof (induction cs arbitrary: p z)
  case (Cons c cs)
  then show ?case by (cases "cs = []") (simp_all add: seg_bytes_length ascii_def)
qed simp

lemma packets_of: "map seg_packet (placed_packets p z cs) = cs"
  by (induction cs arbitrary: p z) simp_all

lemma jpeg_store_found:
  assumes "is_store store" "en < 256 ^ 2" "plain_segments pre" "plain_segments post" "scan_ok scan"
  shows "jpeg_store_of (jpeg_of (pre @ store_segments en store @ post) scan) = Some \<lparr>jst_en = en, jst_bytes = store,
    jst_first = 2 + length (all_bytes pre), jst_end = 2 + length (all_bytes pre) + length (all_bytes (store_segments en store))\<rparr>"
proof -
  let ?j = "jpeg_of (pre @ store_segments en store @ post) scan" and ?p = "2 + length (all_bytes pre)"
  obtain x cs where c: "chunks store 0 = x # cs" "x @ concat (map (drop 8) cs) = store" using packet_type_first [OF assms(1,2)] by blast
  have w: "jpeg_segments ?j = Some (placed_segments 2 (pre @ store_segments en store @ post))"
    by (rule jpeg_of_walk) (use assms store_segments_ok in \<open>auto simp: plain_segments_def\<close>)
  have n: "\<forall>s \<in> set (pre @ post). no_jumbf s" using assms(3,4) by (auto simp: plain_segments_def)
  have "placed_packets ?p 1 (x # cs) = \<lparr>seg_start = ?p, seg_end = ?p + 12 + length x, seg_z = Some 1, seg_packet = x\<rparr> # placed_packets (?p + 12 + length x) 2 cs"
    by (simp add: numeral_2_eq_2)
  moreover have "map (\<lambda>s. drop 8 (seg_packet s)) (placed_packets q 2 cs) = map (drop 8) cs" for q
  proof -
    have "map (\<lambda>s. drop 8 (seg_packet s)) (placed_packets q 2 cs) = map (drop 8) (map seg_packet (placed_packets q 2 cs))" by simp
    then show ?thesis by (simp only: packets_of)
  qed
  moreover have "seg_end (last (placed_packets ?p 1 (x # cs))) = ?p + length (all_bytes (store_segments en store))"
    unfolding store_segments_def c(1) by (rule last_packet_end) simp
  ultimately show ?thesis
    by (simp add: jpeg_store_of_def w jumbf_groups_of [OF assms(1,2) n] c del: placed_packets.simps)
qed

lemma app11_of: "is_store store \<Longrightarrow> en < 256 ^ 2 \<Longrightarrow> app11_packets store en = Some (all_bytes (store_segments en store))"
  unfolding app11_packets_def store_segments_def by (rule app11_loop_segments) (use packet_type_first in fastforce)+

lemma store_replaced:
  assumes "is_store old" "is_store new" "en < 256 ^ 2" "plain_segments pre" "plain_segments post" "scan_ok scan"
  shows "jpeg_with_store (jpeg_of (pre @ store_segments en old @ post) scan) (Inr new) = Some (jpeg_of (pre @ store_segments en new @ post) scan)"
proof -
  have "take (2 + length (all_bytes pre)) (jpeg_of (pre @ store_segments en old @ post) scan) = [0xff, 0xd8] @ all_bytes pre"
    "drop (2 + length (all_bytes pre) + length (all_bytes (store_segments en old))) (jpeg_of (pre @ store_segments en old @ post) scan) = all_bytes post @ scan"
    by (simp_all add: jpeg_of_def)
  then show ?thesis
    by (simp add: jpeg_with_store_def jpeg_store_found [OF assms(1,3-6)] app11_of [OF assms(2,3)]) (simp add: jpeg_of_def)
qed

section \<open>An edited tree\<close>

text \<open>The boxes of the tool's own list, and of the verifier's strict one, are the parts that were written.\<close>

lemma part_read:
  assumes "part_ok b" "whole = a @ part_bytes b @ c"
  shows "u32 whole (length a) = Some (8 + length (snd b))" "slice whole (length a + 4) (length a + 8) = ascii (fst b)"
    "slice whole (length a) (length a + 8 + length (snd b)) = part_bytes b" "slice whole (length a + 8) (length a + 8 + length (snd b)) = snd b"
proof -
  have n: "8 + length (snd b) < 256 ^ 4" "length (fst b) = 4" using assms(1) by (simp_all add: part_ok_def)
  have w: "whole = a @ be_bytes 4 (8 + length (snd b)) @ ascii (fst b) @ snd b @ c" by (simp add: assms(2) part_bytes_def)
  show "u32 whole (length a) = Some (8 + length (snd b))" unfolding w by (rule read_at_front) (rule n(1))
  show "slice whole (length a + 4) (length a + 8) = ascii (fst b)" "slice whole (length a + 8) (length a + 8 + length (snd b)) = snd b"
    unfolding w using n(2) by (simp_all add: slice_def)
  show "slice whole (length a) (length a + 8 + length (snd b)) = part_bytes b"
    using part_length [OF assms(1)] by (simp add: assms(2) slice_def)
qed

lemma part_lists:
  assumes "\<forall>b \<in> set parts. part_ok b" "whole = a @ concat (map part_bytes parts) @ c"
  shows "raw_list whole (length a) (length a + length (concat (map part_bytes parts))) = Some (placed_boxes (length a) parts)
    \<and> box_list whole (length a) (length a + length (concat (map part_bytes parts))) = Some (placed_boxes (length a) parts)
    \<and> list_all2 (\<lambda>b p. bx_type b = fst p \<and> slice whole (bx_start b) (bx_end b) = part_bytes p \<and> slice whole (bx_payload b) (bx_end b) = snd p
        \<and> (\<exists>a c. whole = a @ part_bytes p @ c \<and> bx_start b = length a \<and> bx_end b = length a + length (part_bytes p)))
        (placed_boxes (length a) parts) parts"
  using assms
proof (induction parts arbitrary: a)
  case Nil
  then show ?case by (simp add: raw_list.simps box_list.simps)
next
  case (Cons b parts)
  let ?q = "length a + 8 + length (snd b)"
  define F where "F = length a + length (concat (map part_bytes (b # parts)))"
  have b: "part_ok b" using Cons.prems(1) by simp
  have w: "whole = a @ part_bytes b @ concat (map part_bytes parts) @ c" using Cons.prems(2) by simp
  note r = part_read [OF b w]
  have l: "length (a @ part_bytes b) = ?q" using part_length [OF b] by simp
  have fin: "F = length (a @ part_bytes b) + length (concat (map part_bytes parts))" by (simp add: F_def)
  have "whole = (a @ part_bytes b) @ concat (map part_bytes parts) @ c" using w by simp
  from Cons.IH [OF _ this] Cons.prems(1) have ih: "raw_list whole ?q F = Some (placed_boxes ?q parts)" "box_list whole ?q F = Some (placed_boxes ?q parts)"
      "list_all2 (\<lambda>b p. bx_type b = fst p \<and> slice whole (bx_start b) (bx_end b) = part_bytes p \<and> slice whole (bx_payload b) (bx_end b) = snd p
        \<and> (\<exists>a c. whole = a @ part_bytes p @ c \<and> bx_start b = length a \<and> bx_end b = length a + length (part_bytes p))) (placed_boxes ?q parts) parts"
    unfolding fin l by auto
  have h: "jumbf_head whole (length a) F = Some (8 + length (snd b), length a + 8)"
    using r(1) part_length [OF b] by (simp add: jumbf_head_def F_def)
  have p: "\<not> F \<le> length a" using part_length [OF b] by (simp add: F_def)
  have "raw_list whole (length a) F = Some (placed_boxes (length a) (b # parts))"
    using ih(1) p by (subst raw_list.simps, cases b) (simp add: r(1,2) add.assoc)
  moreover have "box_list whole (length a) F = Some (placed_boxes (length a) (b # parts))"
    using ih(2) p by (subst box_list.simps, cases b) (simp add: h r(2) add.assoc)
  moreover have "\<exists>a' c'. whole = a' @ part_bytes b @ c' \<and> length a = length a' \<and> ?q = length a' + length (part_bytes b)"
    using w part_length [OF b] by (intro exI [of _ a] exI [of _ "concat (map part_bytes parts) @ c"]) simp
  ultimately show ?case using ih(3) r unfolding F_def [symmetric] by (cases b) simp
qed

text \<open>The tree a reader sees, and the trees the tool keeps: every box whole, every description readable, nested no deeper than a reader goes.\<close>

fun view :: "raw \<Rightarrow> jumbf" where
  "view (Raw_box b) = Content_box (latin1 (slice b 4 8)) (drop 8 b)"
| "view (Raw_super d ty t l cs) = Superbox ty (case t of None \<Rightarrow> 0 | Some n \<Rightarrow> n) l (map view cs)"

definition description_ok :: "text_lib \<Rightarrow> bytes \<Rightarrow> bytes \<Rightarrow> nat option \<Rightarrow> jsstr option \<Rightarrow> bool" where
  "description_ok L d ty t l \<longleftrightarrow> (\<exists>x. d = part_bytes (''jumd'', x) \<and> part_ok (''jumd'', x) \<and> 17 \<le> length x \<and> ty = take 16 x
     \<and> t = Some (unat (x ! 16)) \<and> description_label x = Some l \<and> raw_label L d = l)"

fun raw_ok :: "text_lib \<Rightarrow> nat \<Rightarrow> raw \<Rightarrow> bool" where
  "raw_ok L levels (Raw_box b) = (\<exists>ty x. b = part_bytes (ty, x) \<and> part_ok (ty, x) \<and> ty \<noteq> ''jumb'')"
| "raw_ok L 0 (Raw_super d ty t l cs) = False"
| "raw_ok L (Suc levels) (Raw_super d ty t l cs) = (description_ok L d ty t l \<and> (\<forall>c \<in> set cs. raw_ok L levels c))"

definition node_part :: "raw \<Rightarrow> string \<times> bytes \<Rightarrow> bool" where
  "node_part n p \<longleftrightarrow> raw_serialize n = Some (part_bytes p) \<and> part_ok p \<and> (fst p = ''jumb'' \<longleftrightarrow> (\<nexists>b. n = Raw_box b))"

lemma serialized_part: "raw_ok L levels n \<Longrightarrow> raw_serialize n = Some b \<Longrightarrow> \<exists>p. b = part_bytes p \<and> node_part n p"
  by (cases n) (auto simp: node_part_def split: option.splits dest!: write_box_part)

lemma children_parts:
  "\<forall>c \<in> set cs. raw_ok L levels c \<Longrightarrow> omap raw_serialize cs = Some bs \<Longrightarrow> \<exists>parts. list_all2 node_part cs parts \<and> bs = map part_bytes parts"
proof (induction cs arbitrary: bs)
  case (Cons c cs)
  then obtain b r where b: "raw_serialize c = Some b" "omap raw_serialize cs = Some r" "bs = b # r" by (auto split: option.splits)
  obtain p where p: "b = part_bytes p" "node_part c p" using serialized_part [of L levels c b] Cons.prems(1) b(1) by auto
  obtain parts where "list_all2 node_part cs parts" "r = map part_bytes parts" using Cons.IH [OF _ b(2)] Cons.prems(1) by auto
  then show ?case using p b(3) by (intro exI [of _ "p # parts"]) simp
qed simp

lemma view_part: "part_ok p \<Longrightarrow> view (Raw_box (part_bytes p)) = Content_box (fst p) (snd p)"
  by (simp add: part_bytes_def part_ok_def slice_def)

lemma description_read:
  assumes "description_ok L d ty t l"
  obtains x where "d = part_bytes (''jumd'', x)" "part_ok (''jumd'', x)" "\<not> length x < 17" "description_label x = Some l" "raw_label L d = l"
    "slice d 8 24 = ty" "map_option unat (at d 24) = t" "take 16 x = ty" "t = Some (unat (x ! 16))"
proof -
  obtain x where x: "d = part_bytes (''jumd'', x)" "part_ok (''jumd'', x)" "17 \<le> length x" "ty = take 16 x" "t = Some (unat (x ! 16))"
      "description_label x = Some l" "raw_label L d = l"
    using assms by (auto simp: description_ok_def)
  obtain pre where "d = pre @ x" "length pre = 8"
    using x(1) by (intro that [of "be_bytes 4 (8 + length x) @ ascii ''jumd''"]) (simp_all add: part_bytes_def ascii_def)
  then have z: "slice d 8 24 = take 16 x" "at d 24 = Some (x ! 16)"
    using x(3) by (simp_all add: slice_def nth_append)
  have "slice d 8 24 = ty" "map_option unat (at d 24) = t" "\<not> length x < 17" using x(3) by (simp_all only: z x(4,5) option.map not_less)
  then show thesis by (intro that [OF x(1,2) _ x(6,7) _ _ x(4) [symmetric] x(5)])
qed

lemma omap_through:
  assumes "list_all2 A ks qs" "list_all2 B qs cs" "\<And>k q c. A k q \<Longrightarrow> B q c \<Longrightarrow> c \<in> set cs \<Longrightarrow> f k = Some (g c)"
  shows "omap f ks = Some (map g cs)"
  using assms by (auto simp: omap_Some_iff list_all2_conv_all_nth)

lemma super_read:
  "raw_ok L levels n \<Longrightarrow> \<nexists>b. n = Raw_box b \<Longrightarrow> raw_serialize n = Some b \<Longrightarrow>
    parse_superbox levels b = Some (view n) \<and> (\<forall>a c. raw_node L (a @ b @ c) (length a) (length a + length b) = Some n)"
proof (induction L levels n arbitrary: b rule: raw_ok.induct)
  case (3 L levels d ty t l cs)
  obtain bs where bs: "omap raw_serialize cs = Some bs" "write_box ''jumb'' (d @ concat bs) = Some b"
    using "3.prems"(3) by (auto split: option.splits)
  obtain parts where parts: "list_all2 node_part cs parts" "bs = map part_bytes parts"
    using children_parts [OF _ bs(1)] "3.prems"(1) by fastforce
  obtain x where x: "d = part_bytes (''jumd'', x)" "part_ok (''jumd'', x)" "\<not> length x < 17" "description_label x = Some l" "raw_label L d = l"
      "slice d 8 24 = ty" "map_option unat (at d 24) = t" "take 16 x = ty" "t = Some (unat (x ! 16))"
    using description_read [of L d ty t l] "3.prems"(1) by auto
  define all where "all = (''jumd'', x) # parts"
  define p where "p = (''jumb'', concat (map part_bytes all))"
  have b: "b = part_bytes p" "part_ok p"
    using write_box_part [OF bs(2)] by (simp_all add: p_def all_def x(1) parts(2))
  have "part_ok q" if "q \<in> set parts" for q
    using parts(1) that by (auto simp: in_set_conv_nth list_all2_conv_all_nth node_part_def)
  then have ok: "\<forall>q \<in> set all. part_ok q" using x(2) by (simp add: all_def)
  define h where "h = be_bytes 4 (8 + length (snd p)) @ ascii ''jumb''"
  have h: "length h = 8" "b = h @ concat (map part_bytes all)" by (simp_all add: h_def b(1) part_bytes_def p_def ascii_def)
  have kids: "list_all2 (\<lambda>q c. node_part c q \<and> raw_ok L levels c) parts cs"
    using parts(1) "3.prems"(1) by (auto simp: list_all2_conv_all_nth)
  have ih: "parse_superbox levels (part_bytes q) = Some (view c)" "raw_node L (a' @ part_bytes q @ c') (length a') (length a' + length (part_bytes q)) = Some c"
    if "node_part c q" "fst q = ''jumb''" "c \<in> set cs" for c q a' c'
    using "3.IH" [OF that(3)] that "3.prems"(1) by (auto simp: node_part_def)
  have outer: "box_list b 0 (length b) = Some [\<lparr>bx_type = ''jumb'', bx_start = 0, bx_end = length b, bx_payload = 8\<rparr>]"
    using part_lists [of "[p]" b "[]" "[]"] b part_length [OF b(2)] by (simp add: p_def)
  have places: "raw_list w (length (a @ h)) (length (a @ b)) = Some (placed_boxes (length (a @ h)) all)
      \<and> box_list w (length (a @ h)) (length (a @ b)) = Some (placed_boxes (length (a @ h)) all)
      \<and> list_all2 (\<lambda>k q. bx_type k = fst q \<and> slice w (bx_start k) (bx_end k) = part_bytes q \<and> slice w (bx_payload k) (bx_end k) = snd q
        \<and> (\<exists>a c. w = a @ part_bytes q @ c \<and> bx_start k = length a \<and> bx_end k = length a + length (part_bytes q))) (placed_boxes (length (a @ h)) all) all"
    if "w = a @ b @ c" for w a c
    using part_lists [OF ok, of w "a @ h" c] that h(2) by (simp add: add.assoc)
  show ?case
  proof (intro conjI allI)
    let ?first = "\<lparr>bx_type = ''jumd'', bx_start = 8, bx_end = 8 + 8 + length x, bx_payload = 8 + 8\<rparr>"
    have pl: "box_list b 8 (length b) = Some (placed_boxes 8 all)" and al: "list_all2 (\<lambda>k q. bx_type k = fst q \<and> slice b (bx_start k) (bx_end k) = part_bytes q
        \<and> slice b (bx_payload k) (bx_end k) = snd q) (placed_boxes 8 all) all"
      using places [of b "[]" "[]"] h(1) by (auto elim: list_all2_mono)
    have "omap (\<lambda>k. if bx_type k = ''jumb'' then parse_superbox levels (slice b (bx_start k) (bx_end k))
        else Some (Content_box (bx_type k) (slice b (bx_payload k) (bx_end k)))) (placed_boxes (8 + 8 + length x) parts) = Some (map view cs)"
    proof (rule omap_through [OF _ kids])
      show "list_all2 (\<lambda>k q. bx_type k = fst q \<and> slice b (bx_start k) (bx_end k) = part_bytes q \<and> slice b (bx_payload k) (bx_end k) = snd q)
          (placed_boxes (8 + 8 + length x) parts) parts"
        using al by (simp add: all_def)
    next
      fix k q c
      assume q: "bx_type k = fst q \<and> slice b (bx_start k) (bx_end k) = part_bytes q \<and> slice b (bx_payload k) (bx_end k) = snd q"
        and n: "node_part c q \<and> raw_ok L levels c" and c: "c \<in> set cs"
      show "(if bx_type k = ''jumb'' then parse_superbox levels (slice b (bx_start k) (bx_end k))
        else Some (Content_box (bx_type k) (slice b (bx_payload k) (bx_end k)))) = Some (view c)"
      proof (cases "fst q = ''jumb''")
        case True
        then show ?thesis using ih(1) [of c q] q n c by simp
      next
        case False
        then obtain b' where "c = Raw_box b'" using n by (auto simp: node_part_def)
        then have "view c = Content_box (fst q) (snd q)" using n view_part [of q] by (simp add: node_part_def)
        then show ?thesis using False q by simp
      qed
    qed
    moreover have "placed_boxes 8 all = ?first # placed_boxes (8 + 8 + length x) parts" by (simp add: all_def)
    moreover have "slice b (8 + 8) (8 + 8 + length x) = x" using al by (simp add: all_def)
    ultimately show "parse_superbox (Suc levels) b = Some (view (Raw_super d ty t l cs))"
      using x pl outer by (simp del: add.assoc)
  next
    fix a c
    let ?w = "a @ b @ c" and ?s = "length a + 8"
    let ?first = "\<lparr>bx_type = ''jumd'', bx_start = ?s, bx_end = ?s + 8 + length x, bx_payload = ?s + 8\<rparr>"
    have pl: "raw_list ?w ?s (length a + length b) = Some (placed_boxes ?s all)"
        and al: "list_all2 (\<lambda>k q. bx_type k = fst q \<and> slice ?w (bx_start k) (bx_end k) = part_bytes q
        \<and> (\<exists>a c. ?w = a @ part_bytes q @ c \<and> bx_start k = length a \<and> bx_end k = length a + length (part_bytes q))) (placed_boxes ?s all) all"
      using places [of ?w a c] h(1) by (auto simp: list_all2_conv_all_nth)
    have "omap (\<lambda>k. if bx_type k = ''jumb'' then raw_node L ?w (bx_start k) (bx_end k) else Some (Raw_box (slice ?w (bx_start k) (bx_end k))))
        (placed_boxes (?s + 8 + length x) parts) = Some (map (\<lambda>c. c) cs)"
    proof (rule omap_through [OF _ kids])
      show "list_all2 (\<lambda>k q. bx_type k = fst q \<and> slice ?w (bx_start k) (bx_end k) = part_bytes q
        \<and> (\<exists>a c. ?w = a @ part_bytes q @ c \<and> bx_start k = length a \<and> bx_end k = length a + length (part_bytes q)))
          (placed_boxes (?s + 8 + length x) parts) parts"
        using al by (simp add: all_def)
    next
      fix k q n
      assume q: "bx_type k = fst q \<and> slice ?w (bx_start k) (bx_end k) = part_bytes q
        \<and> (\<exists>a c. ?w = a @ part_bytes q @ c \<and> bx_start k = length a \<and> bx_end k = length a + length (part_bytes q))"
        and n: "node_part n q \<and> raw_ok L levels n" and c: "n \<in> set cs"
      show "(if bx_type k = ''jumb'' then raw_node L ?w (bx_start k) (bx_end k) else Some (Raw_box (slice ?w (bx_start k) (bx_end k)))) = Some n"
      proof (cases "fst q = ''jumb''")
        case True
        obtain a' c' where "?w = a' @ part_bytes q @ c'" "bx_start k = length a'" "bx_end k = length a' + length (part_bytes q)" using q by blast
        then show ?thesis using ih(2) [of n q a' c'] q n c True by simp
      next
        case False
        then obtain b' where "n = Raw_box b'" using n by (auto simp: node_part_def)
        then show ?thesis using False q n by (simp add: node_part_def)
      qed
    qed
    moreover have "placed_boxes ?s all = ?first # placed_boxes (?s + 8 + length x) parts" by (simp add: all_def)
    moreover have "slice ?w ?s (?s + 8 + length x) = d" using al by (simp add: all_def x(1))
    ultimately show "raw_node L ?w (length a) (length a + length b) = Some (Raw_super d ty t l cs)"
      using x(5-7) pl by (subst raw_node.simps) (simp add: Let_def)
  qed
qed simp_all

lemma store_part:
  assumes "d = part_bytes (''jumd'', x)" "part_ok (''jumd'', x)" "16 \<le> length x" "take 16 x = TYPE_store"
    "b = part_bytes (''jumb'', d @ rest)" "part_ok (''jumb'', d @ rest)" "length b < 256 ^ 4"
  shows "is_store b"
proof -
  have n: "8 + length (d @ rest) < 256 ^ 4" "length d = 8 + length x"
    using assms(6) part_length [OF assms(2)] by (simp_all add: part_ok_def assms(1))
  define h where "h = ascii ''jumb''"
  define g where "g = be_bytes 4 (8 + length x)"
  have l: "length h = 4" "length g = 4" by (simp_all add: h_def g_def ascii_def)
  have w: "b = be_bytes 4 (8 + length (d @ rest)) @ h @ g @ ascii ''jumd'' @ x @ rest"
    by (simp add: assms(1,5) part_bytes_def h_def g_def)
  have v: "be_val (take 4 b) = 8 + length (d @ rest)" using n(1) by (simp add: w del: length_append)
  have s: "slice b 4 8 = h" "slice b 12 16 = ascii ''jumd''" "slice b 16 32 = TYPE_store" "32 \<le> length b"
    using assms(3) by (simp_all add: w l slice_def ascii_def assms(4))
  have "packet_type b = Some TYPE_store"
    using s v n(2) by (simp add: packet_type_def h_def)
  then show ?thesis using v n(2) assms(3,7) by (simp add: is_store_def)
qed

text \<open>
  A tree of the store's type, put into a JPEG that carries another store, is read back by the verifier as the only
  store of the file and by the tool as the tree it was; the sealed hash of the JPEG does not change.
\<close>

theorem edited_store_found:
  assumes "is_store old" "en < 256 ^ 2" "plain_segments pre" "plain_segments post" "scan_ok scan"
    and "raw_ok L (Suc JUMBF_MAX_DEPTH) n" "raw_type n = TYPE_store" "raw_serialize n = Some b"
  shows "\<exists>out. jpeg_with_store (jpeg_of (pre @ store_segments en old @ post) scan) (Inl n) = Some out
    \<and> embedded_stores out = [Some b] \<and> store_superbox b = Some (view n) \<and> raw_parse L b = Some n
    \<and> media_hash P out = media_hash P (jpeg_of (pre @ store_segments en old @ post) scan)"
proof -
  obtain d ty t l cs where n: "n = Raw_super d ty t l cs"
    using assms(7) by (cases n) (auto simp: raw_type_def TYPE_store_def iso_def ascii_def)
  have ok: "description_ok L d ty t l" using assms(6) by (simp add: n)
  obtain x where x: "d = part_bytes (''jumd'', x)" "part_ok (''jumd'', x)" "\<not> length x < 17" "take 16 x = ty"
    by (rule description_read [OF ok])
  obtain rest where "write_box ''jumb'' (d @ rest) = Some b" using assms(8) by (auto simp: n split: option.splits)
  then have b: "b = part_bytes (''jumb'', d @ rest)" "part_ok (''jumb'', d @ rest)" using write_box_part by auto
  have len: "length b < 256 ^ 4" using part_length [OF b(2)] b by (simp add: part_ok_def)
  have st: "is_store b"
    by (rule store_part [OF x(1,2) _ _ b len]) (use x(3,4) assms(7) in \<open>simp_all add: n raw_type_def\<close>)
  have "\<nexists>b. n = Raw_box b" by (simp add: n)
  note s = super_read [OF assms(6) this assms(8)]
  have read: "parse_superbox (Suc JUMBF_MAX_DEPTH) b = Some (view n)" by (rule conjunct1 [OF s])
  have node: "raw_node L b 0 (length b) = Some n" using spec [OF spec [OF conjunct2 [OF s], of "[]"], of "[]"] by simp
  have size: "u32 b 0 = Some (length b)" "be_val (take 4 b) = length b"
    using part_read(1) [OF b(2), of b "[]" "[]"] part_length [OF b(2)] b(1) by (auto simp: read_be_def slice_def split: if_splits)
  have "store_superbox b = Some (view n)"
    using read size(2) store_length [OF st] assms(7) by (simp add: store_superbox_def Let_def n raw_type_def)
  moreover have "raw_parse L b = Some n" using node size(1) by (simp add: raw_parse_def)
  moreover have "jpeg_with_store (jpeg_of (pre @ store_segments en old @ post) scan) (Inl n) = Some (jpeg_of (pre @ store_segments en b @ post) scan)"
    using store_replaced [OF assms(1) st assms(2-5)] assms(8) by (simp add: jpeg_with_store_def)
  ultimately show ?thesis
    using embedded_of [OF st assms(2-5)] canonical_of [OF st assms(2-5)] canonical_of [OF assms(1-5)] by (simp add: media_hash_def)
qed

text \<open>The descriptions the tool writes, with a label that starts with an ASCII character, are readable.\<close>

lemma index_of_zero_label: "0 \<notin> set xs \<Longrightarrow> index_of_zero (xs @ 0 # ys) = Some (length xs)"
  unfolding index_of_zero_def find_Some_iff by (intro exI [of _ "length xs"]) (auto simp: nth_append dest: nth_mem)

lemma description_written:
  assumes "description_box ty toggles lbl = Some d" "length ty = 16" "toggles < 256" "bit toggles 1"
    and "lbl = u # r" "unat u < 128" "well_formed lbl" "0 \<notin> set lbl" "text_lib_ok L"
  shows "description_ok L d ty (Some toggles) (Some lbl)"
proof -
  define e where "e = utf8_encode lbl"
  define x where "x = ty @ [of_nat toggles] @ e @ [0]"
  have d: "d = part_bytes (''jumd'', x)" "part_ok (''jumd'', x)"
    using write_box_part [of "''jumd''" x d] assms(1) by (simp_all add: description_box_def x_def e_def)
  have e: "0 \<notin> set e" "text_decode e = Some lbl" "utf8_text L e = lbl"
    using assms(5-9) utf8_nonzero [of lbl] text_decode_encode [of u r] by (simp_all add: e_def text_lib_ok_def)
  have t: "bit (of_nat toggles :: byte) 1" "unat (of_nat toggles :: byte) = toggles"
    using assms(3,4) by (simp_all add: bit_of_nat_iff unat_of_nat)
  have y: "drop 17 x = e @ 0 # []" "x ! 16 = of_nat toggles" "take 16 x = ty" "17 \<le> length x"
    using assms(2) by (simp_all add: x_def nth_append)
  have "description_label x = Some (Some lbl)"
    unfolding description_label_def y(1,2) index_of_zero_label [OF e(1)] using t(1) e(2) by simp
  moreover have "raw_label L d = Some lbl"
  proof -
    define h where "h = be_bytes 4 (8 + length x) @ ascii ''jumd''"
    have h: "d = h @ x" "length h = 8" by (simp_all add: h_def d(1) part_bytes_def ascii_def)
    have a: "drop 25 d = e @ 0 # []" "at d 24 = Some (of_nat toggles)" using h y by (simp_all add: nth_append drop_drop [symmetric])
    show ?thesis unfolding raw_label_def a index_of_zero_label [OF e(1)] using t(1) e(3) by simp
  qed
  ultimately show ?thesis unfolding description_ok_def using d y(2-4) t(2) by (intro exI [of _ x]) simp
qed

text \<open>A labelled store with one box in it, put where a bare store was.\<close>

definition small_description :: bytes where
  "small_description = part_bytes (''jumd'', TYPE_store @ [3] @ utf8_encode (js ''c2pa'') @ [0])"

definition small_tree :: raw where
  "small_tree = Raw_super small_description TYPE_store (Some 3) (Some (js ''c2pa'')) [Raw_box (part_bytes (''free'', [1, 2, 3]))]"

definition bare_store :: bytes where
  "bare_store = part_bytes (''jumb'', part_bytes (''jumd'', TYPE_store @ [0]))"

lemma small_label: "length TYPE_store = 16" "js ''c2pa'' = 99 # js ''2pa''" "well_formed (js ''c2pa'')" "0 \<notin> set (js ''c2pa'')"
    "utf8_encode (js ''c2pa'') = [0x63, 0x32, 0x70, 0x61]"
proof -
  show "length TYPE_store = 16" by (simp add: TYPE_store_def iso_def ISO_SUFFIX_def)
  show "js ''c2pa'' = 99 # js ''2pa''" "0 \<notin> set (js ''c2pa'')" by (simp_all add: js_def)
  show "well_formed (js ''c2pa'')" by (intro well_formed_small) (simp add: js_def)
  show "utf8_encode (js ''c2pa'') = [0x63, 0x32, 0x70, 0x61]"
    by (simp add: js_def utf8_encode_def cp_bytes_def high_surrogate_def low_surrogate_def)
qed

lemma small_tree_ok: "raw_ok ascii_lib (Suc JUMBF_MAX_DEPTH) small_tree" "is_store bare_store" "\<exists>b. raw_serialize small_tree = Some b"
proof -
  have "description_box TYPE_store 3 (js ''c2pa'') = Some small_description"
    by (simp add: description_box_def small_description_def write_box_def put_be_def part_bytes_def small_label(1,5))
  then have "description_ok ascii_lib small_description TYPE_store (Some 3) (Some (js ''c2pa''))"
    by (rule description_written [OF _ small_label(1) _ _ small_label(2) _ small_label(3,4) toy_library]) (simp_all add: bit_numeral_rec bit_0)
  moreover have "\<exists>ty y. part_bytes (''free'', [1, 2, 3]) = part_bytes (ty, y) \<and> part_ok (ty, y) \<and> ty \<noteq> ''jumb''"
    by (intro exI [of _ "''free''"] exI [of _ "[1, 2, 3]"]) (simp add: part_ok_def)
  ultimately show "raw_ok ascii_lib (Suc JUMBF_MAX_DEPTH) small_tree" by (simp add: small_tree_def)
  have p: "part_ok (''jumd'', TYPE_store @ [0])" "part_ok (''jumb'', part_bytes (''jumd'', TYPE_store @ [0]) @ [])"
    using part_length [of "(''jumd'', TYPE_store @ [0])"] by (simp_all add: part_ok_def small_label)
  show "is_store bare_store"
    using store_part [OF refl p(1) _ _ _ p(2), of bare_store] part_length [OF p(1)] part_length [OF p(2)] by (simp add: bare_store_def small_label)
  show "\<exists>b. raw_serialize small_tree = Some b"
    by (simp add: small_tree_def small_description_def write_box_def put_be_def part_bytes_def small_label(1,5))
qed

theorem edited_store_found_witness:
  "\<exists>b out. raw_serialize small_tree = Some b
    \<and> jpeg_with_store (jpeg_of ([(0xe0, ascii ''JFIF'')] @ store_segments 1 bare_store @ []) [0xff, 0xda, 0, 8]) (Inl small_tree) = Some out
    \<and> embedded_stores out = [Some b] \<and> store_superbox b = Some (view small_tree)"
proof -
  obtain b where b: "raw_serialize small_tree = Some b" using small_tree_ok(3) by blast
  have o: "(1 :: nat) < 256 ^ 2" "plain_segments [(0xe0, ascii ''JFIF'')]" "plain_segments []" "scan_ok [0xff, 0xda, 0, 8]" "raw_type small_tree = TYPE_store"
    by (simp_all add: plain_segments_def seg_ok_def no_jumbf_def skipped_marker_def scan_ok_def small_tree_def raw_type_def)
  show ?thesis using edited_store_found [OF small_tree_ok(2) o(1-4) small_tree_ok(1) o(5) b] b by blast
qed

end
