(* ===== verification/Spec2Isabelle.thy ===== *)
theory Spec2Isabelle
  imports Json_Canonical Trailer Segments Timing Messages Anchor Carrier Canonical Nals Samples Container Timestamps Outcomes Vault_Seal Writer Attachments Corpus Claim Remux_Read C2pa_Edit
begin

text \<open>
  A model of the reference implementation of the VCAP proof format (the TypeScript under \<open>tools/src\<close>), and the
  theorems that make it correct.

  \<^bold>\<open>The program.\<close> A VCAP proof is a JSON document that a capture device signs: its \<^emph>\<open>core\<close> names a media hash, a capture
  id, times, a position and a key. It travels behind the media in a trailer, beside it in a sidecar file, or as an assertion
  of a C2PA Manifest Store inside it. A video is signed segment by segment as it is recorded, in a hash chain whose
  elements can be bound again to the GOPs of a received file, so that a cut clip still verifies. Around the core there is
  evidence collected later: a registration of the key in a transparency log, an anchor of the core hash, RFC 3161
  timestamps, a hardware key attestation, integrity and position statements. The verifier (\<open>verify.ts\<close>) chooses a
  carrier, checks the core, the media and the segments, weighs the evidence and answers with one verdict: an outcome, a
  proof level, a ceiling colour, and labels that say everything a reader must be told. The other half of the repository
  writes: the corpus of test vectors, its manifest, the conformance report, and the vault object in which a file is stored
  encrypted.

  \<^bold>\<open>Conventions.\<close> A Node \<open>Buffer\<close> is a list of 8-bit words, a JavaScript string a list of 16-bit code units (\<open>jsstr\<close>), a
  bigint or an integral number an \<open>int\<close>, a length or an offset a \<open>nat\<close>. An exception the code raises and lets out is a
  value: \<open>None\<close> where a function has one way to fail, the left of a sum (\<open>fault + 'a\<close>) where the kind of exception
  matters. A loop that need not end is a value too: \<open>'a run = (fault + 'a) option\<close>, where the outer \<open>None\<close> is
  \<^emph>\<open>does not return\<close>; only the DER readers need it. What the code takes from outside \<open>src/\<close> is a record of functions
  that every definition receives, with what is relied on as named hypotheses: \<open>platform\<close> (SHA-256 and ECDSA of
  \<open>node:crypto\<close>), \<open>pki\<close> (\<open>X509Certificate\<close>, \<open>createVerify\<close>), \<open>vault_platform\<close> (AES-GCM, HMAC, HPKE's curve, JSON.parse),
  \<open>sealer\<close> and \<open>signing_key\<close> (the writer's key), \<open>text_lib\<close> (lossy UTF-8 decoding and JSON.parse), \<open>schemas\<close> (Ajv) and
  \<open>rx_scaled\<close> (one quotient of doubles). Base64url, UTF-8, CRC-32, JSON text, DER, CBOR and JUMBF are not parameters: the
  standard library's encodings and the program's own parsers are written out.

  \<^bold>\<open>Theories, in the order of the program.\<close>

  \<^item> \<open>Prelude\<close>, \<open>Encoding\<close>: bytes, big-endian reads and writes, slices, option and sum monads; base64url and UTF-8
    with their round trips; the locales \<open>codec\<close>, \<open>stream_codec\<close> and the codec of pairs, in which decoding after encoding,
    injectivity and unique reading of concatenations are proved once.
  \<^item> \<open>Jcs\<close> (\<open>jcs.ts\<close>), \<open>Json\<close> (\<open>json.ts\<close>), \<open>Json_Canonical\<close>: the JSON values, the canonical text, the strict reader,
    and that reading a canonical text gives the value back. The reader recurses on fuel, more than twice the length of
    its text; a level that consumes nothing is followed by one that does, so it is always enough (\<open>parse_proof_json_total\<close>).
  \<^item> \<open>Core\<close> (\<open>core.ts\<close>): the eight signed members, their bytes and hash, the key id, low-S ES256.
  \<^item> \<open>Trailer\<close> (\<open>trailer.ts\<close>), \<open>Canonical\<close> (\<open>canonical.ts\<close>): the writer and reader of the trailer; the bytes a media hash covers.
  \<^item> \<open>Segments\<close> (\<open>segments.ts\<close>, \<open>sign.ts\<close>), \<open>Timing\<close> (\<open>timing.ts\<close>): the segment messages and the chain walk; timing records,
    exact conversion between timescales, edit lists and extents.
  \<^item> \<open>Merkle\<close>, \<open>Registry\<close> (\<open>registry.ts\<close>), \<open>Anchor\<close>, \<open>Location\<close>, \<open>Messages\<close>: the RFC 6962 inclusion walk in a locale over
    any node hash, with completeness and soundness up to a named collision; the log's attachments; every other
    signed message, and that no two of them are ever the same bytes.
  \<^item> \<open>Boxes\<close>, \<open>Nals\<close>, \<open>Samples\<close>, \<open>Presentation\<close>, \<open>Container\<close> (\<open>container.ts\<close>): the ISO-BMFF reader down to the GOPs of a file,
    with the bytes each content hash is over, the SEI that names its segment, its frames' instants and presentation.
  \<^item> \<open>Der\<close>, \<open>Attestation\<close> (\<open>attestation.ts\<close>), \<open>Timestamps\<close> (\<open>rfc3161.ts\<close>): the two DER readers with JavaScript's 32-bit shifts
    (a length may be negative, which is how a token can keep the reader busy for ever), the Android key attestation
    and the CMS token.
  \<^item> \<open>Cbor\<close> (\<open>cbor.ts\<close>), \<open>Jumbf\<close> (\<open>jumbf.ts\<close>), \<open>Carrier\<close> (\<open>carrier.ts\<close>): the C2PA store and the proof in it. CBOR and JUMBF nest
    at most 32 and 16 levels by the code's own limits, which are the recursion's bounds.
  \<^item> \<open>Shape\<close>, \<open>Evidence\<close>, \<open>Level\<close>, \<open>Binding\<close>, \<open>Verify\<close>, \<open>Verdicts\<close>, \<open>Outcomes\<close> (\<open>verify.ts\<close>): the shape checks, each attachment with
    its labels, level and ceiling, the binding of segments to GOPs, the judgement of one proof and the choice among those
    presented; then what the verdicts mean.
  \<^item> \<open>Vault\<close> (\<open>vault/format.ts\<close>, \<open>decrypt.ts\<close>), \<open>Vault_Seal\<close> (\<open>vault/fixture.ts\<close>): the encrypted object over a file system that
    is a map of paths, and its independent encoder.
  \<^item> \<open>Writer\<close>, \<open>Attachments\<close> (\<open>generate.ts\<close>): the proofs the generator seals, and the trees and statements of the log
    side. \<open>Demo\<close> is the concrete file several witnesses share.
  \<^item> \<open>Corpus\<close> (\<open>corpus-names.ts\<close>, \<open>manifest.ts\<close>), \<open>Claim\<close> (\<open>conformance.ts\<close>, \<open>conformance-report.ts\<close>, \<open>schema.ts\<close>, \<open>validate.ts\<close>):
    the inventory of the vectors and the claim a conformance run publishes.
  \<^item> \<open>Remux\<close>, \<open>Parts\<close>, \<open>Remux_Read\<close> (\<open>remux.ts\<close>): the sample table editor that cuts the container vectors, boxes written one
    after the other, and that \<open>Samples\<close> reads back what was planned.
  \<^item> \<open>C2pa_Edit\<close> (\<open>make-c2pa-vectors.ts\<close>, \<open>rawParse\<close> to \<open>jpegWithStore\<close>): the raw tree of a C2PA store and its packets in a JPEG.
    \<open>edited_store_found\<close>: what the tool puts in a JPEG is the one store \<open>Jumbf\<close> reads there, and \<open>Canonical\<close> strips it.

  \<^bold>\<open>What is shown.\<close> Soundness of the verdict: \<open>authentic_means\<close>, \<open>green_level\<close>, \<open>verified_clip_exact\<close>, \<open>verdict_shape\<close> and
  \<open>verify_file_best\<close> say what an answer rests on, for every file, and the \<open>_sound\<close> theorems of the attachments say the same
  of each kind of evidence, down to a hash collision that is named. Completeness: \<open>sealed_photo_authentic\<close>,
  \<open>written_registration_accepted\<close>, \<open>written_statements_accepted\<close>, \<open>clip_verifies\<close> and \<open>vault_roundtrip\<close> say that what the
  writers produce is accepted. Binding: what a signature, a chain, a timing hash or a corpus manifest fixes. Formats: every
  writer in the repository is read back by its reader (trailer, canonical JSON, SEI, sample tables, C2PA stores). Bounds and
  failure: readers answer on every input with bounded values, the vault fails closed, and the inputs on which the
  code does crash or hang are exhibited, which is where the findings come from.

  \<^bold>\<open>Not modelled.\<close> Reading and writing files, the command lines and the PEM and JSON files of \<open>trust.ts\<close> are I/O. The vectors
  themselves (most of \<open>generate.ts\<close>, \<open>generate-edge-cases.ts\<close>, the minting in \<open>make-c2pa-vectors.ts\<close> and the two \<open>derive-\<close>
  scripts) are scripts: each writes fixed data through the functions modelled here and file I/O. \<open>testchain.ts\<close>,
  \<open>make-timestamp-tokens.ts\<close> and \<open>make-attestation-chains.ts\<close> only assemble calls of the ASN.1 and X.509 libraries with
  random keys. \<open>runVector\<close> compares a verdict with \<open>expected.json\<close> as JSON text, so it would need the verdict's rendering,
  sentences included, where the model keeps reasons as values. Floating point beyond the ECMAScript text a number carries,
  dates beyond their millisecond count, and the wording of messages are left out everywhere.
\<close>

end
